(* ===== verification/Prelude.thy ===== *)
theory Prelude
  imports Main "HOL-Library.Word" "HOL-Library.Monad_Syntax"
begin

unbundle bit_operations_syntax

text \<open>
  Shared vocabulary of the development: the C integer types as words, buffers as byte
  lists, the two bounded memory accesses every component uses (a store or a load that
  leaves its buffer is the value \<open>None\<close>), and the collections of simplification rules
  the component proofs draw on.
\<close>

section \<open>C types\<close>

type_synonym u8 = "8 word"
type_synonym u16 = "16 word"
type_synonym u32 = "32 word"
type_synonym u64 = "64 word"
type_synonym bytes = "u8 list"

named_theorems mem_simps "reads and writes of a bounded buffer"

text \<open>The value of a nat after the C cast \<open>(int)n\<close>: 32 bits, two's complement.\<close>

definition c_int :: "nat \<Rightarrow> int" where
  "c_int n = signed_take_bit 31 (int n)"

lemma c_int_small: "n < 2 ^ 31 \<Longrightarrow> c_int n = int n"
  by (simp add: c_int_def signed_take_bit_int_eq_self)

section \<open>Bounded memory\<close>

definition mem_wr :: "nat \<Rightarrow> 'a list \<Rightarrow> 'a list \<Rightarrow> 'a list option" where
  "mem_wr off xs buf =
     (if off + length xs \<le> length buf
      then Some (take off buf @ xs @ drop (off + length xs) buf) else None)"

definition mem_rd :: "nat \<Rightarrow> nat \<Rightarrow> 'a list \<Rightarrow> 'a list option" where
  "mem_rd off n buf = (if off + n \<le> length buf then Some (take n (drop off buf)) else None)"

lemma mem_wr_Some_iff:
  "mem_wr off xs buf = Some b \<longleftrightarrow>
   off + length xs \<le> length buf \<and> b = take off buf @ xs @ drop (off + length xs) buf"
  by (auto simp: mem_wr_def)

lemma mem_wr_length [mem_simps]: "mem_wr off xs buf = Some b \<Longrightarrow> length b = length buf"
  by (auto simp: mem_wr_Some_iff)

lemma mem_wr_total: "off + length xs \<le> length buf \<Longrightarrow> \<exists>b. mem_wr off xs buf = Some b"
  by (simp add: mem_wr_def)

lemma mem_rd_wr_same [mem_simps]:
  "mem_wr off xs buf = Some b \<Longrightarrow> mem_rd off (length xs) b = Some xs"
  by (auto simp: mem_wr_Some_iff mem_rd_def)

lemma mem_wr_nth:
  assumes "mem_wr off xs buf = Some b" and "i < length buf"
  shows "b ! i = (if off \<le> i \<and> i < off + length xs then xs ! (i - off) else buf ! i)"
  using assms by (auto simp: mem_wr_Some_iff nth_append min_def)

lemma mem_wr_take [mem_simps]: "mem_wr off xs buf = Some b \<Longrightarrow> n \<le> off \<Longrightarrow> take n b = take n buf"
  by (auto simp: mem_wr_Some_iff min_def)

lemma mem_wr_drop [mem_simps]:
  "mem_wr off xs buf = Some b \<Longrightarrow> off + length xs \<le> n \<Longrightarrow> drop n b = drop n buf"
  by (auto simp: mem_wr_Some_iff)

lemma mem_rd_length [mem_simps]: "mem_rd off n buf = Some xs \<Longrightarrow> length xs = n"
  by (auto simp: mem_rd_def split: if_splits)

lemma take_take_drop: "take a (drop p xs) @ take b (drop (p + a) xs) = take (a + b) (drop p xs)"
  by (simp add: take_add add.commute[of p a])

section \<open>Words\<close>

lemma word_xor_left_cancel: "x XOR y = x XOR z \<longleftrightarrow> y = z" for x y z :: "'a::len word"
  by (metis xor.assoc xor.left_neutral xor_self_eq)

lemma word_xor_right_cancel: "y XOR x = z XOR x \<longleftrightarrow> y = z" for x y z :: "'a::len word"
  by (simp add: xor.commute[of _ x] word_xor_left_cancel)

lemma word_xor_eq_0_iff: "x XOR y = 0 \<longleftrightarrow> x = y" for x y :: "'a::len word"
  using word_xor_left_cancel[of x y x] by auto

lemmas word_xor_cancel = word_xor_left_cancel word_xor_right_cancel word_xor_eq_0_iff

lemma ucast_u8_u16_inj: "(ucast b :: u16) = ucast c \<longleftrightarrow> b = c" for b c :: u8
proof
  have "take_bit 16 (uint w) = uint w" for w :: u8
    using uint_lt2p[of w] by (intro take_bit_int_eq_self) simp_all
  moreover assume "(ucast b :: u16) = ucast c"
  then have "uint (ucast b :: u16) = uint (ucast c :: u16)" by simp
  ultimately show "b = c" by (simp add: unsigned_ucast_eq word_uint_eq_iff)
qed simp

section \<open>State machines\<close>

inductive reachable :: "('s \<Rightarrow> bool) \<Rightarrow> ('s \<Rightarrow> 's \<Rightarrow> bool) \<Rightarrow> 's \<Rightarrow> bool"
  for start :: "'s \<Rightarrow> bool" and step :: "'s \<Rightarrow> 's \<Rightarrow> bool"
where
  reach_start: "start s \<Longrightarrow> reachable start step s"
| reach_step: "reachable start step s \<Longrightarrow> step s s' \<Longrightarrow> reachable start step s'"

text \<open>The obligation of an invariant, and what a client gets from it.\<close>

locale step_invariant =
  fixes start :: "'s \<Rightarrow> bool" and step :: "'s \<Rightarrow> 's \<Rightarrow> bool" and I :: "'s \<Rightarrow> bool"
  assumes established: "start s \<Longrightarrow> I s"
    and preserved: "I s \<Longrightarrow> step s s' \<Longrightarrow> I s'"
begin

lemma holds_reachable: "reachable start step s \<Longrightarrow> I s"
  by (induction rule: reachable.induct) (auto intro: established preserved)

end

end
