(* ===== verification/Npi_Hdlc.thy ===== *)
theory Npi_Hdlc
  imports Prelude
begin

unbundle bit_operations_syntax

text \<open>
  The HDLC-like framing of the link between host and radio co-processor
  (\<^verbatim>\<open>linux-host/src/gateway_common/linux/npi_hdlc.c\<close>): the table-driven frame check
  sequence, byte stuffing, the encoder, the receive state machine shared by
  \<^verbatim>\<open>hdlc_decode\<close> and \<^verbatim>\<open>pull_hdlc\<close>, and the NLI prefix. The heap is the argument
  \<open>alloc\<close> (does \<^verbatim>\<open>malloc(n)\<close> succeed); a store outside the 4096 byte work buffer or
  the use of an indeterminate value is \<open>None\<close>.
\<close>

section \<open>Constants and the frame check sequence\<close>

definition kHdlcCrcCheckValue :: u16 where "kHdlcCrcCheckValue = 0xf0b8"
definition kHdlcCrcResetValue :: u16 where "kHdlcCrcResetValue = 0xffff"
definition MAX_FRAME_SIZE :: nat where "MAX_FRAME_SIZE = 2048"
definition HDLC_BYTE_FLAG :: u8 where "HDLC_BYTE_FLAG = 0x7E"
definition HDLC_BYTE_ESC :: u8 where "HDLC_BYTE_ESC = 0x7D"
definition HDLC_BYTE_XON :: u8 where "HDLC_BYTE_XON = 0x11"
definition HDLC_BYTE_XOFF :: u8 where "HDLC_BYTE_XOFF = 0x13"
definition HDLC_BYTE_SPECIAL :: u8 where "HDLC_BYTE_SPECIAL = 0xF8"
definition HDLC_ESCAPE_XFORM :: u8 where "HDLC_ESCAPE_XFORM = 0x20"
definition NLI_FLAG_FIELD :: u8 where "NLI_FLAG_FIELD = 0x40"

lemmas hdlc_consts =
  kHdlcCrcCheckValue_def kHdlcCrcResetValue_def MAX_FRAME_SIZE_def HDLC_BYTE_FLAG_def
  HDLC_BYTE_ESC_def HDLC_BYTE_XON_def HDLC_BYTE_XOFF_def HDLC_BYTE_SPECIAL_def
  HDLC_ESCAPE_XFORM_def

definition sFcsTable :: "u16 list" where
  "sFcsTable =
    [0x0000, 0x1189, 0x2312, 0x329b, 0x4624, 0x57ad, 0x6536, 0x74bf,
     0x8c48, 0x9dc1, 0xaf5a, 0xbed3, 0xca6c, 0xdbe5, 0xe97e, 0xf8f7,
     0x1081, 0x0108, 0x3393, 0x221a, 0x56a5, 0x472c, 0x75b7, 0x643e,
     0x9cc9, 0x8d40, 0xbfdb, 0xae52, 0xdaed, 0xcb64, 0xf9ff, 0xe876,
     0x2102, 0x308b, 0x0210, 0x1399, 0x6726, 0x76af, 0x4434, 0x55bd,
     0xad4a, 0xbcc3, 0x8e58, 0x9fd1, 0xeb6e, 0xfae7, 0xc87c, 0xd9f5,
     0x3183, 0x200a, 0x1291, 0x0318, 0x77a7, 0x662e, 0x54b5, 0x453c,
     0xbdcb, 0xac42, 0x9ed9, 0x8f50, 0xfbef, 0xea66, 0xd8fd, 0xc974,
     0x4204, 0x538d, 0x6116, 0x709f, 0x0420, 0x15a9, 0x2732, 0x36bb,
     0xce4c, 0xdfc5, 0xed5e, 0xfcd7, 0x8868, 0x99e1, 0xab7a, 0xbaf3,
     0x5285, 0x430c, 0x7197, 0x601e, 0x14a1, 0x0528, 0x37b3, 0x263a,
     0xdecd, 0xcf44, 0xfddf, 0xec56, 0x98e9, 0x8960, 0xbbfb, 0xaa72,
     0x6306, 0x728f, 0x4014, 0x519d, 0x2522, 0x34ab, 0x0630, 0x17b9,
     0xef4e, 0xfec7, 0xcc5c, 0xddd5, 0xa96a, 0xb8e3, 0x8a78, 0x9bf1,
     0x7387, 0x620e, 0x5095, 0x411c, 0x35a3, 0x242a, 0x16b1, 0x0738,
     0xffcf, 0xee46, 0xdcdd, 0xcd54, 0xb9eb, 0xa862, 0x9af9, 0x8b70,
     0x8408, 0x9581, 0xa71a, 0xb693, 0xc22c, 0xd3a5, 0xe13e, 0xf0b7,
     0x0840, 0x19c9, 0x2b52, 0x3adb, 0x4e64, 0x5fed, 0x6d76, 0x7cff,
     0x9489, 0x8500, 0xb79b, 0xa612, 0xd2ad, 0xc324, 0xf1bf, 0xe036,
     0x18c1, 0x0948, 0x3bd3, 0x2a5a, 0x5ee5, 0x4f6c, 0x7df7, 0x6c7e,
     0xa50a, 0xb483, 0x8618, 0x9791, 0xe32e, 0xf2a7, 0xc03c, 0xd1b5,
     0x2942, 0x38cb, 0x0a50, 0x1bd9, 0x6f66, 0x7eef, 0x4c74, 0x5dfd,
     0xb58b, 0xa402, 0x9699, 0x8710, 0xf3af, 0xe226, 0xd0bd, 0xc134,
     0x39c3, 0x284a, 0x1ad1, 0x0b58, 0x7fe7, 0x6e6e, 0x5cf5, 0x4d7c,
     0xc60c, 0xd785, 0xe51e, 0xf497, 0x8028, 0x91a1, 0xa33a, 0xb2b3,
     0x4a44, 0x5bcd, 0x6956, 0x78df, 0x0c60, 0x1de9, 0x2f72, 0x3efb,
     0xd68d, 0xc704, 0xf59f, 0xe416, 0x90a9, 0x8120, 0xb3bb, 0xa232,
     0x5ac5, 0x4b4c, 0x79d7, 0x685e, 0x1ce1, 0x0d68, 0x3ff3, 0x2e7a,
     0xe70e, 0xf687, 0xc41c, 0xd595, 0xa12a, 0xb0a3, 0x8238, 0x93b1,
     0x6b46, 0x7acf, 0x4854, 0x59dd, 0x2d62, 0x3ceb, 0x0e70, 0x1ff9,
     0xf78f, 0xe606, 0xd49d, 0xc514, 0xb1ab, 0xa022, 0x92b9, 0x8330,
     0x7bc7, 0x6a4e, 0x58d5, 0x495c, 0x3de3, 0x2c6a, 0x1ef1, 0x0f78]"

definition hdlc_crc16 :: "u16 \<Rightarrow> u8 \<Rightarrow> u16" where
  "hdlc_crc16 aFcs aByte =
     drop_bit 8 aFcs XOR sFcsTable ! unat ((aFcs XOR ucast aByte) AND 0xff)"

definition hdlc_byte_needs_escape :: "u8 \<Rightarrow> bool" where
  "hdlc_byte_needs_escape byte \<longleftrightarrow>
     byte = HDLC_BYTE_SPECIAL \<or> byte = HDLC_BYTE_ESC \<or> byte = HDLC_BYTE_FLAG \<or>
     byte = HDLC_BYTE_XOFF \<or> byte = HDLC_BYTE_XON"

section \<open>Encoder\<close>

definition add_NLI_byte :: "(nat \<Rightarrow> bool) \<Rightarrow> bytes \<Rightarrow> u16 \<Rightarrow> u8 \<Rightarrow> u16 \<Rightarrow> (bytes option \<times> u16) option" where
  "add_NLI_byte alloc inputBuf inputFrameLen nli outputBufLen =
     (if inputFrameLen > 0 then
        (let outputBufLen = inputFrameLen + 1 in
         if alloc (unat outputBufLen) then
           do { payload \<leftarrow> mem_rd 0 (unat inputFrameLen) inputBuf;
                out \<leftarrow> mem_wr 0 ((NLI_FLAG_FIELD OR push_bit 4 nli) # payload)
                          (replicate (unat outputBufLen) 0);
                Some (Some out, outputBufLen) }
         else Some (None, 0))
      else Some (None, outputBufLen))"

text \<open>\<open>escaped_frame_buffer[escaped_frame_len++] = c\<close> on the buffer of twice the frame size.\<close>

definition put_byte :: "bytes \<Rightarrow> u8 \<Rightarrow> bytes option" where
  "put_byte acc c = (if length acc < MAX_FRAME_SIZE * 2 then Some (acc @ [c]) else None)"

definition put_escaped :: "bytes \<Rightarrow> u8 \<Rightarrow> bytes option" where
  "put_escaped acc c =
     (if hdlc_byte_needs_escape c
      then do { acc \<leftarrow> put_byte acc HDLC_BYTE_ESC; put_byte acc (c XOR HDLC_ESCAPE_XFORM) }
      else put_byte acc c)"

fun hdlc_encode_loop :: "bytes \<Rightarrow> u16 \<Rightarrow> bytes \<Rightarrow> (bytes \<times> u16) option" where
  "hdlc_encode_loop acc fcs [] = Some (acc, fcs)"
| "hdlc_encode_loop acc fcs (c # cs) =
     do { acc' \<leftarrow> put_escaped acc c; hdlc_encode_loop acc' (hdlc_crc16 fcs c) cs }"

definition hdlc_encode :: "(nat \<Rightarrow> bool) \<Rightarrow> bool \<Rightarrow> bytes \<Rightarrow> u16 \<Rightarrow> (bytes option \<times> u16) option" where
  "hdlc_encode alloc isSpinel inputBuf inputFrameLen =
     (if alloc (MAX_FRAME_SIZE * 2) \<and> inputFrameLen > 0 then
        do { inp \<leftarrow> mem_rd 0 (unat inputFrameLen) inputBuf;
             acc \<leftarrow> put_byte [] HDLC_BYTE_FLAG;
             (acc, fcs) \<leftarrow> hdlc_encode_loop acc kHdlcCrcResetValue
                             (drop (if isSpinel then 0 else 1) inp);
             let fcs = fcs XOR 0xFFFF;
             acc \<leftarrow> put_escaped acc (ucast (fcs AND 0xFF));
             acc \<leftarrow> put_escaped acc (ucast (drop_bit 8 fcs AND 0xFF));
             acc \<leftarrow> put_byte acc HDLC_BYTE_FLAG;
             Some (if alloc (length acc) then (Some acc, of_nat (length acc)) else (None, 0)) }
      else Some (None, 0))"

section \<open>Receiver\<close>

record hdlc_rx =
  unescape_next_byte :: bool
  frame :: bytes
  fcs :: u16

datatype loop_ctl = Next hdlc_rx | Break hdlc_rx

definition rx_reset :: hdlc_rx where
  "rx_reset = \<lparr>unescape_next_byte = False, frame = [], fcs = kHdlcCrcResetValue\<rparr>"

definition rx_store :: "hdlc_rx \<Rightarrow> u8 \<Rightarrow> loop_ctl" where
  "rx_store st byte =
     Next (st\<lparr>fcs := hdlc_crc16 (fcs st) byte, frame := frame st @ [byte]\<rparr>)"

definition hdlc_rx_step :: "hdlc_rx \<Rightarrow> u8 \<Rightarrow> loop_ctl" where
  "hdlc_rx_step st byte =
     (if length (frame st) \<ge> MAX_FRAME_SIZE then rx_store rx_reset byte
      else if byte = HDLC_BYTE_FLAG then
        (if length (frame st) \<le> 2 then Next rx_reset
         else if fcs st \<noteq> kHdlcCrcCheckValue then Next rx_reset
         else Break (rx_reset\<lparr>frame := take (length (frame st) - 2) (frame st)\<rparr>))
      else if byte = HDLC_BYTE_ESC then Next (st\<lparr>unescape_next_byte := True\<rparr>)
      else if hdlc_byte_needs_escape byte then Next st
      else if unescape_next_byte st
        then rx_store (st\<lparr>unescape_next_byte := False\<rparr>) (byte XOR HDLC_ESCAPE_XFORM)
      else rx_store st byte)"

fun hdlc_rx_loop :: "hdlc_rx \<Rightarrow> bytes \<Rightarrow> hdlc_rx \<times> bytes" where
  "hdlc_rx_loop st [] = (st, [])"
| "hdlc_rx_loop st (b # bs) =
     (case hdlc_rx_step st b of Next st' \<Rightarrow> hdlc_rx_loop st' bs | Break st' \<Rightarrow> (st', bs))"

text \<open>
  \<open>fcs0\<close> is the indeterminate initial value of the local \<^verbatim>\<open>fcs\<close>; without a work buffer
  the function returns an uninitialised pointer, which is \<open>None\<close> here.
\<close>

definition hdlc_decode :: "(nat \<Rightarrow> bool) \<Rightarrow> u16 \<Rightarrow> bytes \<Rightarrow> u16 \<Rightarrow> (bytes option \<times> u16) option" where
  "hdlc_decode alloc fcs0 inputBuf inputFrameLen =
     (if alloc (MAX_FRAME_SIZE * 2) then
        do { inp \<leftarrow> mem_rd 0 (unat inputFrameLen) inputBuf;
             let (st, _) = hdlc_rx_loop \<lparr>unescape_next_byte = False, frame = [], fcs = fcs0\<rparr> inp;
             Some (if alloc (length (frame st))
                   then (Some (frame st), of_nat (length (frame st))) else (None, 0)) }
      else None)"

text \<open>
  \<open>fd\<close> is what successive one-byte \<^verbatim>\<open>read\<close> calls deliver before one of them does not
  return 1; the second component of the result is what is left to read.
\<close>

definition pull_hdlc :: "(nat \<Rightarrow> bool) \<Rightarrow> bytes \<Rightarrow> (bytes option \<times> int) \<times> bytes" where
  "pull_hdlc alloc fd =
     (if alloc (MAX_FRAME_SIZE * 2) then
        (let (st, rest) = hdlc_rx_loop \<lparr>unescape_next_byte = False, frame = [], fcs = 0\<rparr> fd in
         if frame st = [] then ((None, 0), rest)
         else if alloc (length (frame st))
           then ((Some (frame st), int (length (frame st))), rest)
         else ((None, 0), rest))
      else ((None, 0), fd))"

section \<open>The table computes the bitwise CRC\<close>

text \<open>
  The reference: the reflected CRC-16/CCITT polynomial \<open>0x8408\<close>, one shift per bit of the
  byte. \<open>crc_stepi\<close> is the same step on integers, on which the 256 table entries evaluate.
\<close>

definition crc_step :: "u16 \<Rightarrow> u16" where
  "crc_step x = (if odd x then drop_bit 1 x XOR 0x8408 else drop_bit 1 x)"

definition crc16_bitwise :: "u16 \<Rightarrow> u8 \<Rightarrow> u16" where
  "crc16_bitwise aFcs aByte = (crc_step ^^ 8) (aFcs XOR ucast aByte)"

definition crc_stepi :: "int \<Rightarrow> int" where
  "crc_stepi x = (if odd x then (x div 2) XOR 0x8408 else x div 2)"

fun table_ok :: "int \<Rightarrow> u16 list \<Rightarrow> bool" where
  "table_ok i [] = True"
| "table_ok i (x # xs) = (uint x = (crc_stepi ^^ 8) i \<and> table_ok (i + 1) xs)"

lemma table_ok_nth: "table_ok i xs \<Longrightarrow> k < length xs \<Longrightarrow> uint (xs ! k) = (crc_stepi ^^ 8) (i + int k)"
  by (induction i xs arbitrary: k rule: table_ok.induct) (auto simp: nth_Cons' algebra_simps)

lemma sFcsTable_ok: "table_ok 0 sFcsTable"
proof -
  have e: "(crc_stepi ^^ 8) x = crc_stepi (crc_stepi (crc_stepi (crc_stepi
            (crc_stepi (crc_stepi (crc_stepi (crc_stepi x)))))))" for x
    by (simp add: numeral_eq_Suc)
  show ?thesis by (simp add: sFcsTable_def e crc_stepi_def)
qed

lemma uint_crc_step: "uint (crc_step x) = crc_stepi (uint x)"
proof -
  have "odd x \<longleftrightarrow> odd (uint x)"
    using bit_uint_iff[of x 0] by (simp add: bit_0)
  then show ?thesis
    by (simp add: crc_step_def crc_stepi_def unsigned_drop_bit_eq unsigned_xor_eq drop_bit_eq_div uint_div_distrib)
qed

lemma uint_crc_steps: "uint ((crc_step ^^ n) x) = (crc_stepi ^^ n) (uint x)"
  by (induction n) (simp_all add: uint_crc_step)

lemma sFcsTable_nth: "i < 256 \<Longrightarrow> sFcsTable ! i = (crc_step ^^ 8) (of_nat i)"
proof -
  assume i: "i < 256"
  have "length sFcsTable = 256" by (simp add: sFcsTable_def)
  with i have "uint (sFcsTable ! i) = (crc_stepi ^^ 8) (int i)"
    using table_ok_nth[OF sFcsTable_ok, of i] by simp
  also have "\<dots> = uint ((crc_step ^^ 8) (of_nat i))"
    using i by (simp add: uint_crc_steps unsigned_of_nat take_bit_nat_eq_self)
  finally show ?thesis by (simp add: word_uint_eq_iff)
qed

lemma crc_step_xor: "crc_step (x XOR y) = crc_step x XOR crc_step y"
  by (simp add: crc_step_def even_xor_iff drop_bit_xor ac_simps)

lemma crc_steps_xor: "(crc_step ^^ n) (x XOR y) = (crc_step ^^ n) x XOR (crc_step ^^ n) y"
  by (induction n) (simp_all add: crc_step_xor)

lemma crc_steps_shift: "take_bit n x = 0 \<Longrightarrow> (crc_step ^^ n) x = drop_bit n x"
proof (induction n arbitrary: x)
  case 0
  then show ?case by simp
next
  case (Suc n)
  have "even x"
    using Suc.prems by (metis even_take_bit_eq even_zero nat.distinct(1))
  then have s: "crc_step x = drop_bit 1 x" by (simp add: crc_step_def)
  have "take_bit n (drop_bit 1 x) = 0"
    using Suc.prems by (simp add: take_bit_drop_bit)
  from Suc.IH[OF this] show ?case
    by (simp add: funpow_Suc_right s del: funpow.simps)
qed

lemma mask8: "(0xff :: u16) = mask 8"
  by (simp add: mask_eq_exp_minus_1)

lemma unat_and_ff: "unat (x AND 0xff :: u16) < 256"
  using word_and_le1[of x "0xff :: u16"] by (simp add: word_le_nat_alt)

lemma hdlc_crc16_eq: "hdlc_crc16 aFcs aByte = crc16_bitwise aFcs aByte"
proof -
  let ?x = "aFcs XOR ucast aByte :: u16"
  have split: "?x = (?x AND NOT 0xff) XOR (?x AND 0xff)"
    by (rule bit_word_eqI) (auto simp: bit_simps)
  have "take_bit 8 (?x AND NOT 0xff) = 0"
    by (rule bit_word_eqI) (auto simp: bit_simps mask8)
  then have "(crc_step ^^ 8) (?x AND NOT 0xff) = drop_bit 8 (?x AND NOT 0xff)"
    by (rule crc_steps_shift)
  also have "\<dots> = drop_bit 8 aFcs"
    by (rule bit_word_eqI) (auto simp: bit_simps mask8 bit_imp_le_length dest: bit_imp_le_length)
  finally have hi: "(crc_step ^^ 8) (?x AND NOT 0xff) = drop_bit 8 aFcs" .
  have "(crc_step ^^ 8) ?x = drop_bit 8 aFcs XOR (crc_step ^^ 8) (?x AND 0xff)"
    by (subst split) (simp only: crc_steps_xor hi)
  then show ?thesis
    using sFcsTable_nth[OF unat_and_ff] by (simp add: hdlc_crc16_def crc16_bitwise_def)
qed

section \<open>Residue and error detection\<close>

definition crc_list :: "u16 \<Rightarrow> bytes \<Rightarrow> u16" where
  "crc_list f xs = foldl hdlc_crc16 f xs"

definition fcs_lo :: "u16 \<Rightarrow> u8" where
  "fcs_lo f = ucast ((f XOR 0xFFFF) AND 0xFF)"

definition fcs_hi :: "u16 \<Rightarrow> u8" where
  "fcs_hi f = ucast (drop_bit 8 (f XOR 0xFFFF) AND 0xFF)"

lemma crc_list_simps [simp]:
  "crc_list f [] = f"
  "crc_list f (x # xs) = crc_list (hdlc_crc16 f x) xs"
  "crc_list f (xs @ ys) = crc_list (crc_list f xs) ys"
  by (simp_all add: crc_list_def)

lemma crc_residue: "hdlc_crc16 (hdlc_crc16 f (fcs_lo f)) (fcs_hi f) = kHdlcCrcCheckValue"
proof -
  have ffff: "(0xFFFF :: u16) = mask 16" by (simp add: mask_eq_exp_minus_1)
  have i1: "(f XOR ucast (fcs_lo f)) AND 0xff = 0xff"
    unfolding fcs_lo_def ffff mask8 by (rule bit_word_eqI) (auto simp: bit_simps)
  have t1: "sFcsTable ! 255 = 0x0f78" by (simp add: sFcsTable_def)
  have f1: "hdlc_crc16 f (fcs_lo f) = drop_bit 8 f XOR 0x0f78"
    by (simp add: hdlc_crc16_def i1 t1)
  have "((drop_bit 8 f XOR 0x0f78) XOR ucast (fcs_hi f)) AND 0xff = (0x0f78 XOR 0xff) AND 0xff"
    unfolding fcs_hi_def ffff mask8
    by (rule bit_word_eqI) (auto simp: bit_simps dest: bit_imp_le_length)
  then have i2: "((drop_bit 8 f XOR 0x0f78) XOR ucast (fcs_hi f)) AND 0xff = 0x87"
    by simp
  have t2: "sFcsTable ! 135 = 0xf0b7" by (simp add: sFcsTable_def)
  have "drop_bit 8 (drop_bit 8 f) = 0"
    by (rule bit_word_eqI) (auto simp: bit_simps dest: bit_imp_le_length)
  then show ?thesis
    unfolding f1 by (simp add: hdlc_crc16_def i2 t2 drop_bit_xor kHdlcCrcCheckValue_def)
qed

lemma crc_step_inj: "crc_step x = crc_step y \<Longrightarrow> x = y"
proof -
  assume "crc_step x = crc_step y"
  then have z: "crc_step (x XOR y) = 0" by (simp add: crc_step_xor)
  have ev: "even (x XOR y)"
  proof (rule ccontr)
    assume "odd (x XOR y)"
    with z have "drop_bit 1 (x XOR y) = 0x8408"
      by (simp add: crc_step_def word_xor_eq_0_iff del: drop_bit_xor)
    then have "bit (drop_bit 1 (x XOR y)) 15" by (simp del: drop_bit_xor)
    then show False by (auto simp: bit_simps dest: bit_imp_le_length)
  qed
  with z have d: "drop_bit 1 (x XOR y) = 0" by (simp add: crc_step_def)
  have "x XOR y = 0"
  proof (rule bit_word_eqI)
    fix n show "bit (x XOR y) n \<longleftrightarrow> bit (0 :: u16) n"
      using ev d by (cases n) (simp_all only: bit_0 bit_Suc drop_bit_eq_div power_one_right, auto)
  qed
  then show "x = y" by (simp add: word_xor_eq_0_iff)
qed

lemma crc_steps_inj: "(crc_step ^^ n) x = (crc_step ^^ n) y \<Longrightarrow> x = y"
  by (induction n) (auto dest: crc_step_inj)

lemma hdlc_crc16_inj_fcs: "hdlc_crc16 f b = hdlc_crc16 g b \<Longrightarrow> f = g"
  unfolding hdlc_crc16_eq crc16_bitwise_def
  by (drule crc_steps_inj) (simp add: word_xor_cancel)

lemma hdlc_crc16_inj_byte: "hdlc_crc16 f b = hdlc_crc16 f c \<Longrightarrow> b = c"
  unfolding hdlc_crc16_eq crc16_bitwise_def
  by (drule crc_steps_inj) (simp add: word_xor_cancel ucast_u8_u16_inj)

lemma crc_list_inj: "crc_list f xs = crc_list g xs \<Longrightarrow> f = g"
  by (induction xs arbitrary: f g) (auto dest: hdlc_crc16_inj_fcs)

section \<open>Byte stuffing\<close>

text \<open>What the three inlined escape sequences of the encoder append for one byte.\<close>

definition stuff :: "u8 \<Rightarrow> bytes" where
  "stuff c = (if hdlc_byte_needs_escape c then [HDLC_BYTE_ESC, c XOR HDLC_ESCAPE_XFORM] else [c])"

abbreviation stuffs :: "bytes \<Rightarrow> bytes" where
  "stuffs cs \<equiv> concat (map stuff cs)"

definition fcs_bytes :: "u16 \<Rightarrow> bytes" where
  "fcs_bytes f = [fcs_lo f, fcs_hi f]"

definition hdlc_frame :: "bytes \<Rightarrow> bytes" where
  "hdlc_frame data =
     HDLC_BYTE_FLAG # stuffs (data @ fcs_bytes (crc_list kHdlcCrcResetValue data)) @ [HDLC_BYTE_FLAG]"

lemma length_stuff: "length (stuff c) \<le> 2"
  by (simp add: stuff_def)

lemma length_stuff_pos: "1 \<le> length (stuff c)"
  by (simp add: stuff_def)

lemma length_stuffs: "length (stuffs cs) \<le> 2 * length cs"
proof (induction cs)
  case (Cons c cs)
  with length_stuff[of c] show ?case by simp
qed simp

lemma length_hdlc_frame: "length (hdlc_frame data) \<le> 2 * length data + 6"
  using length_stuffs[of "data @ fcs_bytes (crc_list kHdlcCrcResetValue data)"]
  by (simp add: hdlc_frame_def fcs_bytes_def)

lemma put_escaped_stuff:
  "put_escaped acc c = (if length (acc @ stuff c) \<le> MAX_FRAME_SIZE * 2 then Some (acc @ stuff c) else None)"
  by (simp add: put_escaped_def put_byte_def stuff_def Let_def split: if_splits)

lemma hdlc_encode_loop_stuffs:
  "hdlc_encode_loop acc f cs =
     (if cs = [] \<or> length (acc @ stuffs cs) \<le> MAX_FRAME_SIZE * 2
      then Some (acc @ stuffs cs, crc_list f cs) else None)"
proof (induction cs arbitrary: acc f)
  case Nil
  then show ?case by simp
next
  case (Cons c cs)
  then show ?case by (auto simp: put_escaped_stuff)
qed

lemma hdlc_encode_frame:
  assumes heap: "alloc (MAX_FRAME_SIZE * 2)" and len: "0 < len" "length buf = unat len"
  shows "hdlc_encode alloc sp buf len =
    (let out = hdlc_frame (drop (if sp then 0 else 1) buf) in
     if length out \<le> MAX_FRAME_SIZE * 2
     then Some (if alloc (length out) then (Some out, of_nat (length out)) else (None, 0))
     else None)"
proof -
  let ?d = "drop (if sp then 0 else 1) buf"
  let ?f = "crc_list kHdlcCrcResetValue ?d"
  let ?a = "HDLC_BYTE_FLAG # stuffs ?d"
  have out: "hdlc_frame ?d = ((?a @ stuff (fcs_lo ?f)) @ stuff (fcs_hi ?f)) @ [HDLC_BYTE_FLAG]"
    by (simp add: hdlc_frame_def fcs_bytes_def)
  have inp: "mem_rd 0 (unat len) buf = Some buf" using len by (simp add: mem_rd_def)
  have b1: "put_byte [] HDLC_BYTE_FLAG = Some [HDLC_BYTE_FLAG]"
    by (simp add: put_byte_def MAX_FRAME_SIZE_def)
  have "hdlc_encode alloc sp buf len =
    do { (acc, f) \<leftarrow> hdlc_encode_loop [HDLC_BYTE_FLAG] kHdlcCrcResetValue ?d;
         acc \<leftarrow> put_escaped acc (fcs_lo f);
         acc \<leftarrow> put_escaped acc (fcs_hi f);
         acc \<leftarrow> put_byte acc HDLC_BYTE_FLAG;
         Some (if alloc (length acc) then (Some acc, of_nat (length acc)) else (None, 0)) }"
    using heap len by (simp add: hdlc_encode_def inp b1 fcs_lo_def fcs_hi_def Let_def)
  then show ?thesis
    unfolding hdlc_encode_loop_stuffs put_escaped_stuff put_byte_def Let_def out
    by (cases "?d = []"; cases "length ?a \<le> MAX_FRAME_SIZE * 2";
        cases "length (?a @ stuff (fcs_lo ?f)) \<le> MAX_FRAME_SIZE * 2";
        cases "length ((?a @ stuff (fcs_lo ?f)) @ stuff (fcs_hi ?f)) < MAX_FRAME_SIZE * 2")
      (simp_all add: MAX_FRAME_SIZE_def)
qed

lemma needs_escape_xform: "hdlc_byte_needs_escape c \<Longrightarrow> \<not> hdlc_byte_needs_escape (c XOR HDLC_ESCAPE_XFORM)"
  by (auto simp: hdlc_byte_needs_escape_def hdlc_consts)

lemma not_needs_escape:
  "\<not> hdlc_byte_needs_escape c \<Longrightarrow> c \<noteq> HDLC_BYTE_FLAG \<and> c \<noteq> HDLC_BYTE_ESC"
  by (auto simp: hdlc_byte_needs_escape_def)

lemma xform_xform: "(c XOR HDLC_ESCAPE_XFORM) XOR HDLC_ESCAPE_XFORM = c"
  by (simp add: xor.assoc)

section \<open>The receiver undoes the stuffing\<close>

lemma hdlc_rx_loop_stuff:
  assumes "\<not> unescape_next_byte st" and "length (frame st) < MAX_FRAME_SIZE"
  shows "hdlc_rx_loop st (stuff c @ rest) =
    hdlc_rx_loop (st\<lparr>frame := frame st @ [c], fcs := hdlc_crc16 (fcs st) c\<rparr>) rest"
proof (cases "hdlc_byte_needs_escape c")
  case True
  have "HDLC_BYTE_ESC \<noteq> HDLC_BYTE_FLAG" by (simp add: hdlc_consts)
  with True assms needs_escape_xform[OF True] not_needs_escape[OF needs_escape_xform[OF True]]
  show ?thesis
    by (cases st) (simp add: stuff_def hdlc_rx_step_def rx_store_def xform_xform)
next
  case False
  with assms not_needs_escape[OF False] show ?thesis
    by (cases st) (simp add: stuff_def hdlc_rx_step_def rx_store_def)
qed

lemma hdlc_rx_loop_stuffs:
  assumes "\<not> unescape_next_byte st" and "length (frame st) + length cs \<le> MAX_FRAME_SIZE"
  shows "hdlc_rx_loop st (stuffs cs @ rest) =
    hdlc_rx_loop (st\<lparr>frame := frame st @ cs, fcs := crc_list (fcs st) cs\<rparr>) rest"
  using assms
proof (induction cs arbitrary: st)
  case Nil
  then show ?case by simp
next
  case (Cons c cs)
  then show ?case by (simp add: hdlc_rx_loop_stuff)
qed

text \<open>
  A complete frame is delivered from every state in which the opening flag does not itself
  complete a frame, i.e. unless what was accumulated before it carries a good check sequence.
\<close>

lemma hdlc_rx_loop_frame:
  assumes data: "data \<noteq> []" "length data + 2 < MAX_FRAME_SIZE"
    and st: "length (frame st) < MAX_FRAME_SIZE"
      "length (frame st) \<le> 2 \<or> fcs st \<noteq> kHdlcCrcCheckValue"
  shows "hdlc_rx_loop st (hdlc_frame data @ rest) = (rx_reset\<lparr>frame := data\<rparr>, rest)"
proof -
  let ?cs = "data @ fcs_bytes (crc_list kHdlcCrcResetValue data)"
  have open_flag: "hdlc_rx_step st HDLC_BYTE_FLAG = Next rx_reset"
    using st by (auto simp: hdlc_rx_step_def)
  have "hdlc_rx_loop st (hdlc_frame data @ rest) =
      hdlc_rx_loop rx_reset (stuffs ?cs @ HDLC_BYTE_FLAG # rest)"
    by (simp add: hdlc_frame_def open_flag)
  also have "\<dots> = hdlc_rx_loop (rx_reset\<lparr>frame := ?cs, fcs := kHdlcCrcCheckValue\<rparr>) (HDLC_BYTE_FLAG # rest)"
    using data by (subst hdlc_rx_loop_stuffs)
      (simp_all add: rx_reset_def fcs_bytes_def crc_residue)
  also have "\<dots> = (rx_reset\<lparr>frame := data\<rparr>, rest)"
    using data by (cases data) (simp_all add: hdlc_rx_step_def fcs_bytes_def rx_reset_def)
  finally show ?thesis .
qed

lemma hdlc_rx_step_bound:
  assumes "length (frame st) \<le> MAX_FRAME_SIZE"
  shows "case hdlc_rx_step st b of
    Next st' \<Rightarrow> length (frame st') \<le> MAX_FRAME_SIZE | Break st' \<Rightarrow> length (frame st') \<le> MAX_FRAME_SIZE"
  using assms by (auto simp: hdlc_rx_step_def rx_store_def rx_reset_def MAX_FRAME_SIZE_def)

lemma hdlc_rx_loop_bound:
  assumes "length (frame st) \<le> MAX_FRAME_SIZE"
  shows "length (frame (fst (hdlc_rx_loop st bs))) \<le> MAX_FRAME_SIZE"
  using assms
proof (induction bs arbitrary: st)
  case Nil
  then show ?case by simp
next
  case (Cons b bs)
  with hdlc_rx_step_bound[of st b] show ?case by (auto split: loop_ctl.splits)
qed

section \<open>Properties\<close>

lemma unat_of_nat_u16: "n < 65536 \<Longrightarrow> unat (of_nat n :: u16) = n"
  by (simp add: unat_of_nat)

lemma of_nat_u16_pos: "0 < n \<Longrightarrow> n < 65536 \<Longrightarrow> (0 :: u16) < of_nat n"
  by (simp add: word_less_nat_alt unat_of_nat)

lemma hdlc_encode_ok:
  assumes "data \<noteq> []" and "length data \<le> 2045" and "\<forall>n. alloc n"
  shows "hdlc_encode alloc True data (of_nat (length data)) =
    Some (Some (hdlc_frame data), of_nat (length (hdlc_frame data)))"
proof -
  have "length (hdlc_frame data) \<le> MAX_FRAME_SIZE * 2"
    using length_hdlc_frame[of data] assms(2) by (simp add: MAX_FRAME_SIZE_def)
  then show ?thesis
    using assms by (subst hdlc_encode_frame)
      (simp_all add: of_nat_u16_pos unat_of_nat_u16 Let_def)
qed

lemma hdlc_decode_run:
  assumes "\<forall>n. alloc n" and "length inp < 65536"
    and "hdlc_rx_loop \<lparr>unescape_next_byte = False, frame = [], fcs = fcs0\<rparr> inp = (st, r)"
  shows "hdlc_decode alloc fcs0 inp (of_nat (length inp)) = Some (Some (frame st), of_nat (length (frame st)))"
  using assms by (simp add: hdlc_decode_def mem_rd_def unat_of_nat_u16)

lemma hdlc_rx_loop_grow:
  assumes "length (frame st) + length bs < MAX_FRAME_SIZE"
  shows "length (frame (fst (hdlc_rx_loop st bs))) \<le> length (frame st) + length bs"
  using assms
proof (induction bs arbitrary: st)
  case (Cons b bs)
  have "case hdlc_rx_step st b of Next st' \<Rightarrow> length (frame st') \<le> Suc (length (frame st))
      | Break st' \<Rightarrow> length (frame st') \<le> length (frame st)"
    using Cons.prems by (auto simp: hdlc_rx_step_def rx_store_def rx_reset_def)
  then show ?case
    using Cons.prems by (auto split: loop_ctl.splits intro!: order.trans[OF Cons.IH])
qed simp

lemma hdlc_rx_loop_noise:
  assumes "HDLC_BYTE_FLAG \<notin> set g"
  shows "hdlc_rx_loop st (g @ ys) = hdlc_rx_loop (fst (hdlc_rx_loop st g)) ys"
  using assms
proof (induction g arbitrary: st)
  case Nil
  then show ?case by simp
next
  case (Cons b g)
  then have "\<exists>st'. hdlc_rx_step st b = Next st'"
    by (auto simp: hdlc_rx_step_def rx_store_def)
  with Cons show ?case by (auto split: loop_ctl.splits)
qed

text \<open>C1: encoding a payload of at most 2045 bytes and decoding the frame gives the payload back,
  whatever the heap hands out and whatever the uninitialised check sequence of the decoder holds.
\<close>

theorem hdlc_roundtrip:
  assumes "data \<noteq> []" and "length data \<le> 2045" and "\<forall>n. alloc n"
  shows "\<exists>out. hdlc_encode alloc True data (of_nat (length data)) = Some (Some out, of_nat (length out)) \<and>
    hdlc_decode alloc fcs0 out (of_nat (length out)) = Some (Some data, of_nat (length data))"
proof -
  let ?out = "hdlc_frame data"
  have l: "length ?out < 65536" using length_hdlc_frame[of data] assms(2) by simp
  have "hdlc_rx_loop \<lparr>unescape_next_byte = False, frame = [], fcs = fcs0\<rparr> (?out @ []) =
      (rx_reset\<lparr>frame := data\<rparr>, [])"
    using assms by (intro hdlc_rx_loop_frame) (simp_all add: MAX_FRAME_SIZE_def)
  then have "hdlc_decode alloc fcs0 ?out (of_nat (length ?out)) = Some (Some data, of_nat (length data))"
    using hdlc_decode_run[OF assms(3) l] by simp
  with hdlc_encode_ok[OF assms] show ?thesis by blast
qed

theorem hdlc_roundtrip_witness:
  "\<exists>out. hdlc_encode (\<lambda>_. True) True [0x7E, 1, 0x7D] 3 = Some (Some out, of_nat (length out)) \<and>
    hdlc_decode (\<lambda>_. True) 0x1234 out (of_nat (length out)) = Some (Some [0x7E, 1, 0x7D], 3)"
  using hdlc_roundtrip[of "[0x7E, 1, 0x7D]" "\<lambda>_. True" "0x1234"] by simp



text \<open>C12: a frame in which one byte of payload or check sequence was changed is discarded: the
  decoder returns an empty buffer, never the damaged payload.
\<close>

theorem hdlc_decode_detects_corruption:
  assumes "body = data @ fcs_bytes (crc_list kHdlcCrcResetValue data)"
    and "length data \<le> 2045" and "i < length body" and "c \<noteq> body ! i"
    and "\<forall>n. alloc n"
  shows "hdlc_decode alloc fcs0 (HDLC_BYTE_FLAG # stuffs (body[i := c]) @ [HDLC_BYTE_FLAG])
      (of_nat (length (HDLC_BYTE_FLAG # stuffs (body[i := c]) @ [HDLC_BYTE_FLAG]))) = Some (Some [], 0)"
proof -
  let ?b = "body[i := c]"
  let ?in = "HDLC_BYTE_FLAG # stuffs ?b @ [HDLC_BYTE_FLAG]"
  have lb: "length ?b \<le> 2047" using assms by (simp add: fcs_bytes_def)
  have split: "body = take i body @ body ! i # drop (Suc i) body" "?b = take i body @ c # drop (Suc i) body"
    using assms(3) by (simp_all add: id_take_nth_drop upd_conv_take_nth_drop)
  have good: "crc_list kHdlcCrcResetValue body = kHdlcCrcCheckValue"
    by (simp add: assms(1) fcs_bytes_def crc_residue)
  have bad: "crc_list kHdlcCrcResetValue ?b \<noteq> kHdlcCrcCheckValue"
  proof
    assume "crc_list kHdlcCrcResetValue ?b = kHdlcCrcCheckValue"
    with good split have "crc_list (hdlc_crc16 (crc_list kHdlcCrcResetValue (take i body)) c) (drop (Suc i) body) =
        crc_list (hdlc_crc16 (crc_list kHdlcCrcResetValue (take i body)) (body ! i)) (drop (Suc i) body)"
      by (metis crc_list_simps(2,3))
    then show False using assms(4) by (blast dest: crc_list_inj hdlc_crc16_inj_byte)
  qed
  have "hdlc_rx_loop \<lparr>unescape_next_byte = False, frame = [], fcs = fcs0\<rparr> ?in =
      hdlc_rx_loop rx_reset (stuffs ?b @ [HDLC_BYTE_FLAG])"
    by (simp add: hdlc_rx_step_def MAX_FRAME_SIZE_def)
  also have "\<dots> = hdlc_rx_loop (rx_reset\<lparr>frame := ?b, fcs := crc_list kHdlcCrcResetValue ?b\<rparr>) [HDLC_BYTE_FLAG]"
    using lb by (subst hdlc_rx_loop_stuffs) (simp_all add: rx_reset_def MAX_FRAME_SIZE_def)
  also have "\<dots> = (rx_reset, [])"
    using bad lb by (simp add: hdlc_rx_step_def MAX_FRAME_SIZE_def)
  finally have run: "hdlc_rx_loop \<lparr>unescape_next_byte = False, frame = [], fcs = fcs0\<rparr> ?in = (rx_reset, [])" .
  have "length ?in < 65536" using length_stuffs[of ?b] lb by simp
  from hdlc_decode_run[OF assms(5) this run] show ?thesis by (simp only: rx_reset_def) simp
qed

theorem hdlc_decode_detects_corruption_witness:
  "hdlc_decode (\<lambda>_. True) 0 (HDLC_BYTE_FLAG # stuffs (([1, 2] @ fcs_bytes (crc_list kHdlcCrcResetValue [1, 2]))[0 := 9]) @ [HDLC_BYTE_FLAG])
     (of_nat (length (HDLC_BYTE_FLAG # stuffs (([1, 2] @ fcs_bytes (crc_list kHdlcCrcResetValue [1, 2]))[0 := 9]) @ [HDLC_BYTE_FLAG]))) = Some (Some [], 0)"
  by (rule hdlc_decode_detects_corruption[OF refl]) (simp_all add: fcs_bytes_def)

text \<open>C13: the table-driven update of the frame check sequence is the bit-serial CRC of the
  reflected polynomial \<open>0x8408\<close>, for every state and byte.
\<close>

theorem hdlc_crc16_bitwise: "hdlc_crc16 aFcs aByte = crc16_bitwise aFcs aByte"
  by (rule hdlc_crc16_eq)

text \<open>C14: whatever bytes arrive, the receiver never holds more than 2048 bytes: the stores into
  the 4096 byte work buffer stay inside it and a returned frame has at most that length.
\<close>

theorem pull_hdlc_bounded:
  "case pull_hdlc alloc fd of ((buf, n), rest) \<Rightarrow>
     n \<le> 2048 \<and> (\<forall>out. buf = Some out \<longrightarrow> out \<noteq> [] \<and> n = int (length out))"
proof -
  let ?st = "fst (hdlc_rx_loop \<lparr>unescape_next_byte = False, frame = [], fcs = 0\<rparr> fd)"
  have "length (frame ?st) \<le> MAX_FRAME_SIZE" by (rule hdlc_rx_loop_bound) simp
  then show ?thesis
    by (auto simp: pull_hdlc_def MAX_FRAME_SIZE_def split: prod.splits)
qed

theorem pull_hdlc_bounded_witness:
  "case pull_hdlc (\<lambda>_. True) [0x7E, 1, 2, 3] of ((buf, n), rest) \<Rightarrow>
     n \<le> 2048 \<and> (\<forall>out. buf = Some out \<longrightarrow> out \<noteq> [] \<and> n = int (length out))"
  by (rule pull_hdlc_bounded)

text \<open>an input of at least 2047 bytes that all need escaping makes the encoder store past the
  end of its 4096 byte work buffer, although its length argument admits up to 65535 bytes.
\<close>

theorem hdlc_encode_overrun:
  assumes "2047 \<le> n" and "n < 65536" and "\<forall>k. alloc k" and "hdlc_byte_needs_escape c"
  shows "hdlc_encode alloc True (replicate n c) (of_nat n) = None"
proof -
  have "length (stuffs (replicate n c)) = 2 * n"
    using assms(4) by (simp add: stuff_def length_concat sum_list_replicate)
  then have "\<not> length (hdlc_frame (replicate n c)) \<le> MAX_FRAME_SIZE * 2"
    using assms(1) length_stuff_pos[of "fcs_lo (crc_list kHdlcCrcResetValue (replicate n c))"]
    by (simp add: hdlc_frame_def fcs_bytes_def MAX_FRAME_SIZE_def del: length_greater_0_conv length_0_conv)
  then show ?thesis
    using assms by (subst hdlc_encode_frame) (simp_all add: of_nat_u16_pos unat_of_nat_u16 Let_def)
qed

theorem hdlc_encode_overrun_witness:
  "hdlc_encode (\<lambda>_. True) True (replicate 2176 0x7E) 2176 = None"
  using hdlc_encode_overrun[of 2176 "\<lambda>_. True" "0x7E"]
  by (simp add: hdlc_byte_needs_escape_def hdlc_consts)

text \<open>when the bytes run out before the closing flag, the reader hands the accumulated bytes
  to its caller as a frame, check sequence untested and not clipped.
\<close>

theorem pull_hdlc_truncated:
  assumes "\<forall>n. alloc n" and "xs \<noteq> []" and "length xs \<le> 2048"
  shows "pull_hdlc alloc (HDLC_BYTE_FLAG # stuffs xs) = ((Some xs, int (length xs)), [])"
proof -
  have "hdlc_rx_loop \<lparr>unescape_next_byte = False, frame = [], fcs = 0\<rparr> (HDLC_BYTE_FLAG # stuffs xs) =
      hdlc_rx_loop rx_reset (stuffs xs @ [])"
    by (simp add: hdlc_rx_step_def MAX_FRAME_SIZE_def)
  also have "\<dots> = hdlc_rx_loop (rx_reset\<lparr>frame := xs, fcs := crc_list kHdlcCrcResetValue xs\<rparr>) []"
    using assms by (subst hdlc_rx_loop_stuffs) (simp_all add: rx_reset_def MAX_FRAME_SIZE_def)
  finally show ?thesis using assms by (simp add: pull_hdlc_def)
qed

theorem pull_hdlc_truncated_witness:
  "pull_hdlc (\<lambda>_. True) [0x7E, 1, 2, 3] = ((Some [1, 2, 3], 3), [])"
  using pull_hdlc_truncated[of "\<lambda>_. True" "[1, 2, 3]"]
  by (simp add: stuff_def hdlc_byte_needs_escape_def hdlc_consts)

end
