(* ===== verification/Queue_Iface.thy ===== *)
theory Queue_Iface
  imports Prelude
begin

text \<open>
  What the two circular buffers of the program (\<^verbatim>\<open>fifo.c\<close> of the gateway library and
  \<^verbatim>\<open>RingBuffer.h\<close> of the daemon) promise their clients: a bounded first-in first-out queue.
  The interface is the locale \<open>bounded_queue\<close>; the client facts about whole runs of puts and
  gets are proved in it once. The second half holds the lemmas on the contents of a circular
  buffer that both implementations share.
\<close>

section \<open>The interface\<close>

datatype 'a qop = Put "'a list" | Get nat

fun run_queue ::
  "('q \<Rightarrow> 'a list \<Rightarrow> nat \<times> 'q) \<Rightarrow> ('q \<Rightarrow> nat \<Rightarrow> 'a list \<times> 'q) \<Rightarrow> 'a qop list \<Rightarrow> 'q \<Rightarrow>
     'a list \<times> 'a list \<times> 'q"
where
  "run_queue put get [] q = ([], [], q)"
| "run_queue put get (Put xs # ops) q =
     (let (n, q1) = put q xs; (acc, out, q2) = run_queue put get ops q1
      in (take n xs @ acc, out, q2))"
| "run_queue put get (Get n # ops) q =
     (let (ys, q1) = get q n; (acc, out, q2) = run_queue put get ops q1
      in (acc, ys @ out, q2))"

locale bounded_queue =
  fixes inv :: "'q \<Rightarrow> bool"
    and contents :: "'q \<Rightarrow> 'a list"
    and capacity :: "'q \<Rightarrow> nat"
    and put :: "'q \<Rightarrow> 'a list \<Rightarrow> nat \<times> 'q"
    and get :: "'q \<Rightarrow> nat \<Rightarrow> 'a list \<times> 'q"
  assumes room: "inv q \<Longrightarrow> length (contents q) \<le> capacity q"
    and put_inv: "inv q \<Longrightarrow> put q xs = (n, q') \<Longrightarrow> inv q' \<and> capacity q' = capacity q"
    and put_contents:
      "inv q \<Longrightarrow> put q xs = (n, q') \<Longrightarrow> n \<le> length xs \<and> contents q' = contents q @ take n xs"
    and put_accepts:
      "inv q \<Longrightarrow> length (contents q) + length xs \<le> capacity q \<Longrightarrow> fst (put q xs) = length xs"
    and get_inv: "inv q \<Longrightarrow> get q n = (ys, q') \<Longrightarrow> inv q' \<and> capacity q' = capacity q"
    and get_contents:
      "inv q \<Longrightarrow> get q n = (ys, q') \<Longrightarrow> ys = take n (contents q) \<and> contents q' = drop n (contents q)"
begin

lemma run_inv: "inv q \<Longrightarrow> run_queue put get ops q = (acc, out, q') \<Longrightarrow> inv q' \<and> capacity q' = capacity q"
proof (induction ops arbitrary: q acc out q')
  case Nil
  then show ?case by simp
next
  case (Cons op ops)
  show ?case
  proof (cases op)
    case (Put xs)
    obtain n q1 where p: "put q xs = (n, q1)" by fastforce
    obtain acc1 out1 q2 where r: "run_queue put get ops q1 = (acc1, out1, q2)" by (metis prod_cases3)
    from Cons.IH[OF _ r] put_inv[OF Cons.prems(1) p] Cons.prems(2) p r Put show ?thesis by simp
  next
    case (Get n)
    obtain ys q1 where g: "get q n = (ys, q1)" by fastforce
    obtain acc1 out1 q2 where r: "run_queue put get ops q1 = (acc1, out1, q2)" by (metis prod_cases3)
    from Cons.IH[OF _ r] get_inv[OF Cons.prems(1) g] Cons.prems(2) g r Get show ?thesis by simp
  qed
qed

lemma run_order:
  "inv q \<Longrightarrow> run_queue put get ops q = (acc, out, q') \<Longrightarrow> contents q @ acc = out @ contents q'"
proof (induction ops arbitrary: q acc out q')
  case Nil
  then show ?case by simp
next
  case (Cons op ops)
  show ?case
  proof (cases op)
    case (Put xs)
    obtain n q1 where p: "put q xs = (n, q1)" by fastforce
    obtain acc1 out1 q2 where r: "run_queue put get ops q1 = (acc1, out1, q2)" by (metis prod_cases3)
    from Cons.IH[OF _ r] put_inv[OF Cons.prems(1) p] put_contents[OF Cons.prems(1) p] Cons.prems(2) p r Put
    show ?thesis by simp
  next
    case (Get n)
    obtain ys q1 where g: "get q n = (ys, q1)" by fastforce
    obtain acc1 out1 q2 where r: "run_queue put get ops q1 = (acc1, out1, q2)" by (metis prod_cases3)
    have "contents q1 @ acc1 = out1 @ contents q2"
      using Cons.IH[OF _ r] get_inv[OF Cons.prems(1) g] by blast
    moreover have "contents q = ys @ contents q1"
      using get_contents[OF Cons.prems(1) g] by simp
    moreover have "acc = acc1" "out = ys @ out1" "q' = q2" using Cons.prems(2) g r Get by simp_all
    ultimately show ?thesis by simp
  qed
qed

lemma put_then_get:
  assumes "inv q" and "contents q = []" and "length xs \<le> capacity q"
    and "put q xs = (n, q1)" and "get q1 (length xs) = (ys, q2)"
  shows "ys = xs \<and> contents q2 = []"
proof -
  have "n = length xs" using put_accepts[OF assms(1), of xs] assms by simp
  with put_contents[OF assms(1,4)] put_inv[OF assms(1,4)] get_contents[OF _ assms(5)] assms(2)
  show ?thesis by simp
qed

end

section \<open>Refinement of an abstract machine\<close>

text \<open>
  A detailed machine whose operations may fail (\<open>None\<close>) against its specification, for the
  operations the specification covers: same results, states kept in the relation.
\<close>

fun run_machine :: "('op \<Rightarrow> 'c \<Rightarrow> ('r \<times> 'c) option) \<Rightarrow> 'op list \<Rightarrow> 'c \<Rightarrow> ('r list \<times> 'c) option" where
  "run_machine step [] c = Some ([], c)"
| "run_machine step (op # ops) c =
     do { (r, c1) \<leftarrow> step op c; (rs, c2) \<leftarrow> run_machine step ops c1; Some (r # rs, c2) }"

fun run_spec :: "('op \<Rightarrow> 'a \<Rightarrow> 'r \<times> 'a) \<Rightarrow> 'op list \<Rightarrow> 'a \<Rightarrow> 'r list \<times> 'a" where
  "run_spec step [] a = ([], a)"
| "run_spec step (op # ops) a =
     (let (r, a1) = step op a; (rs, a2) = run_spec step ops a1 in (r # rs, a2))"

locale simulation =
  fixes rel :: "'c \<Rightarrow> 'a \<Rightarrow> bool"
    and cstep :: "'op \<Rightarrow> 'c \<Rightarrow> ('r \<times> 'c) option"
    and astep :: "'op \<Rightarrow> 'a \<Rightarrow> 'r \<times> 'a"
    and covered :: "'op \<Rightarrow> bool"
  assumes simulates: "rel c a \<Longrightarrow> covered op \<Longrightarrow>
    \<exists>r c' a'. cstep op c = Some (r, c') \<and> astep op a = (r, a') \<and> rel c' a'"
begin

lemma run_simulates:
  assumes "rel c a" and "list_all covered ops"
  shows "\<exists>rs c' a'. run_machine cstep ops c = Some (rs, c') \<and> run_spec astep ops a = (rs, a') \<and> rel c' a'"
  using assms
proof (induction ops arbitrary: c a)
  case (Cons op ops)
  then obtain r c1 a1 where "cstep op c = Some (r, c1)" "astep op a = (r, a1)" "rel c1 a1"
    using simulates[of c a op] by auto
  with Cons.IH[of c1 a1] Cons.prems(2) show ?case by auto
qed simp

end

section \<open>Contents of a circular buffer\<close>

text \<open>The \<open>c\<close> elements of the buffer \<open>b\<close> from index \<open>r\<close> on, continued at its start.\<close>

definition ring_contents :: "nat \<Rightarrow> nat \<Rightarrow> 'a list \<Rightarrow> 'a list" where
  "ring_contents r c b =
     (if r + c \<le> length b then take c (drop r b) else drop r b @ take (r + c - length b) b)"

lemma length_ring_contents: "r \<le> length b \<Longrightarrow> c \<le> length b \<Longrightarrow> length (ring_contents r c b) = c"
  by (auto simp: ring_contents_def)

lemma ring_contents_0 [simp]: "r \<le> length b \<Longrightarrow> ring_contents r 0 b = []"
  by (simp add: ring_contents_def)

lemma ring_write:
  assumes r: "r < length b" and c: "c + length xs \<le> length b"
    and w: "w = (r + c) mod length b" and fits: "w + length xs \<le> length b"
    and wr: "mem_wr w xs b = Some b'"
  shows "ring_contents r (c + length xs) b' = ring_contents r c b @ xs"
proof (cases "r + c < length b")
  case True
  with w have w': "w = r + c" by simp
  from wr have b': "b' = take w b @ xs @ drop (w + length xs) b" by (simp add: mem_wr_Some_iff)
  have "length b' = length b" using wr by (rule mem_wr_length)
  moreover have "drop r b' = drop r (take w b) @ xs @ drop (w + length xs) b"
    using w' True by (simp add: b')
  ultimately show ?thesis
    using True fits w' by (simp add: ring_contents_def drop_take)
next
  case False
  then have w': "w = r + c - length b" using w r c by (simp add: mod_if)
  then have le: "w + length xs \<le> r" using c False by simp
  from wr have b': "b' = take w b @ xs @ drop (w + length xs) b" by (simp add: mem_wr_Some_iff)
  have lb: "length b' = length b" using wr by (rule mem_wr_length)
  have d: "drop r b' = drop r b" using mem_wr_drop[OF wr le] .
  have t: "take (w + length xs) b' = take w b @ xs" using fits by (simp add: b')
  show ?thesis
  proof (cases "xs = []")
    case True
    then show ?thesis using wr by (auto simp: mem_wr_Some_iff)
  next
    case F: False
    then have "\<not> r + (c + length xs) \<le> length b'" using False lb by (cases xs) auto
    moreover have "r + (c + length xs) - length b = w + length xs" using w' False by simp
    ultimately show ?thesis
      using False d t lb w' by (cases "r + c = length b") (auto simp: ring_contents_def)
  qed
qed

lemma ring_read:
  assumes r: "r < length b" and n: "n \<le> c" "c \<le> length b" and fits: "r + n \<le> length b"
  shows "mem_rd r n b = Some (take n (ring_contents r c b))"
    and "ring_contents ((r + n) mod length b) (c - n) b = drop n (ring_contents r c b)"
proof -
  show "mem_rd r n b = Some (take n (ring_contents r c b))"
    using assms by (auto simp: mem_rd_def ring_contents_def min_def)
  show "ring_contents ((r + n) mod length b) (c - n) b = drop n (ring_contents r c b)"
  proof (cases "r + n < length b")
    case True
    then show ?thesis using n by (auto simp: ring_contents_def drop_take add.commute)
  next
    case False
    with fits have e: "r + n = length b" by simp
    then have m: "(r + n) mod length b = 0" by simp
    show ?thesis
    proof (cases "r + c \<le> length b")
      case True
      with e n have "c = n" by simp
      with r n e show ?thesis by (simp add: m ring_contents_def)
    next
      case F: False
      have "length (drop r b) = n" using e by simp
      moreover have "r + c - length b = c - n" using e by simp
      moreover have "c - n \<le> length b" using n by simp
      ultimately show ?thesis using F n by (simp add: m ring_contents_def)
    qed
  qed
qed

end
