(* ===== verification/Os_Time.thy ===== *)
theory Os_Time
  imports Prelude
begin

text \<open>
  Time in the gateway library: \<^verbatim>\<open>timer.c\<close> (the millisecond clock and the poll style
  timeouts) and the parts of \<^verbatim>\<open>linux_specific.c\<close> it rests on (\<^verbatim>\<open>_TIMER_getAbsNow\<close>,
  \<^verbatim>\<open>make_timespec\<close>). A reading of the operating system clock is an argument; the static
  variable \<^verbatim>\<open>epoch_msecs\<close> is passed and returned. Unsigned values keep their width, so
  the roll-over of the 32 bit millisecond counter is part of the model.
\<close>

section \<open>Definitions\<close>

text \<open>\<^verbatim>\<open>linux_specific.c: _TIMER_getAbsNow\<close> on the \<^verbatim>\<open>struct timespec\<close> read from the clock.\<close>

definition TIMER_getAbsNow :: "u64 \<Rightarrow> u64 \<Rightarrow> u64" where
  "TIMER_getAbsNow tv_sec tv_nsec = tv_nsec div (1000 * 1000) + tv_sec * 1000"

definition epoch_init :: "u64 \<Rightarrow> u64 \<Rightarrow> u64" where
  "epoch_init epoch_msecs abs_now = (if epoch_msecs = 0 then abs_now else epoch_msecs)"

definition TIMER_getEpoch :: "u64 \<Rightarrow> u64 \<Rightarrow> u64 \<times> u64" where
  "TIMER_getEpoch epoch_msecs abs_now =
     (let e = (if epoch_msecs = 0 then epoch_init epoch_msecs abs_now else epoch_msecs) in (e, e))"

text \<open>The clock is read once more after a possible initialisation of the epoch.\<close>

definition TIMER_getNow :: "u64 \<Rightarrow> u64 \<Rightarrow> u64 \<Rightarrow> u32 \<times> u64" where
  "TIMER_getNow epoch_msecs abs_init abs_now =
     (let e = (if epoch_msecs = 0 then epoch_init epoch_msecs abs_init else epoch_msecs);
          t = abs_now - e
      in (ucast t, e))"

definition TIMER_timeoutStart :: "u64 \<Rightarrow> u64 \<Rightarrow> u64 \<Rightarrow> u32 \<times> u64" where
  "TIMER_timeoutStart epoch_msecs abs_init abs_now = TIMER_getNow epoch_msecs abs_init abs_now"

definition TIMER_timeoutIsExpired :: "u32 \<Rightarrow> int \<Rightarrow> u32 \<Rightarrow> int" where
  "TIMER_timeoutIsExpired tstart v tnow =
     (if v < 0 then 0
      else if v = 0 then 1
      else let tend = tstart + word_of_int v; diff = sint (tend - tnow)
           in if diff < 0 then 1 else 0)"

text \<open>The carry loop of \<^verbatim>\<open>make_timespec\<close>, and the function (C division truncates to zero).\<close>

function ts_carry :: "int \<Rightarrow> int \<Rightarrow> int \<times> int" where
  "ts_carry tv_sec tv_nsec =
     (if tv_nsec > 1000 * 1000 * 1000
      then ts_carry (tv_sec + 1) (tv_nsec - 1000 * 1000 * 1000) else (tv_sec, tv_nsec))"
  by pat_completeness auto
termination by (relation "measure (\<lambda>(s, n). nat n)") auto

declare ts_carry.simps [simp del]

definition c_div :: "int \<Rightarrow> int \<Rightarrow> int" where
  "c_div a b = sgn a * sgn b * (\<bar>a\<bar> div \<bar>b\<bar>)"

definition c_mod :: "int \<Rightarrow> int \<Rightarrow> int" where
  "c_mod a b = a - c_div a b * b"

definition make_timespec :: "int \<Rightarrow> int \<Rightarrow> int \<Rightarrow> int \<times> int" where
  "make_timespec now_sec now_nsec timeout_mSecs =
     (let tv_sec = now_sec + c_div timeout_mSecs 1000;
          r = c_mod timeout_mSecs 1000 * 1000 * 1000
      in ts_carry tv_sec (now_nsec + r))"

section \<open>Lemmas\<close>

lemma c_div_mod_nonneg: "0 \<le> a \<Longrightarrow> 0 < b \<Longrightarrow> c_div a b = a div b \<and> c_mod a b = a mod b"
  by (auto simp: c_div_def c_mod_def sgn_if minus_mult_div_eq_mod minus_div_mult_eq_mod)

lemma ts_carry_once:
  "n \<le> 2 * 10 ^ 9 \<Longrightarrow> ts_carry s n = (if 10 ^ 9 < n then (s + 1, n - 10 ^ 9) else (s, n))"
  by (subst ts_carry.simps, subst ts_carry.simps) simp

lemma sint_neg_iff: "sint (w :: u32) < 0 \<longleftrightarrow> 2 ^ 31 \<le> uint w"
proof -
  have "sint w = signed_take_bit 31 (uint w)" by (simp add: sint_uint)
  moreover have "0 \<le> uint w" "uint w < 2 ^ 32" using uint_lt2p[of w] by simp_all
  moreover have "odd (uint w div 2 ^ 31) \<longleftrightarrow> 2 ^ 31 \<le> uint w"
  proof (cases "2 ^ 31 \<le> uint w")
    case True
    then have "uint w div 2 ^ 31 = 1" using \<open>uint w < 2 ^ 32\<close> by (intro int_div_pos_eq[of _ _ _ "uint w - 2 ^ 31"]) auto
    with True show ?thesis by simp
  next
    case False
    then have "uint w div 2 ^ 31 = 0" by (simp add: div_pos_pos_trivial)
    with False show ?thesis by simp
  qed
  ultimately show ?thesis by (simp add: signed_take_bit_negative_iff bit_iff_odd)
qed

lemma expired_elapsed:
  assumes "0 < v" "v < 2 ^ 31" "e < 2 ^ 31"
  shows "TIMER_timeoutIsExpired t v (t + word_of_nat e) = (if v < int e then 1 else 0)"
proof -
  have eq: "t + word_of_int v - (t + word_of_nat e) = (word_of_int (v - int e) :: u32)"
    by simp
  have "uint (word_of_int (v - int e) :: u32) = (v - int e) mod 2 ^ 32"
    by (simp add: unsigned_of_int take_bit_eq_mod del: of_int_diff)
  also have "\<dots> = (if v < int e then v - int e + 2 ^ 32 else v - int e)"
  proof (cases "v < int e")
    case True
    then have "(v - int e + 2 ^ 32) mod 2 ^ 32 = v - int e + 2 ^ 32"
      using assms by (intro mod_pos_pos_trivial) auto
    then show ?thesis using True by simp
  next
    case False
    then show ?thesis using assms by (simp add: mod_pos_pos_trivial)
  qed
  finally have "sint (word_of_int (v - int e) :: u32) < 0 \<longleftrightarrow> v < int e"
    unfolding sint_neg_iff using assms by simp
  then show ?thesis using assms by (simp add: TIMER_timeoutIsExpired_def eq)
qed

lemma getNow_later:
  "e \<noteq> 0 \<Longrightarrow> fst (TIMER_getNow e i (t + word_of_nat d)) = fst (TIMER_getNow e i' t) + word_of_nat d"
proof -
  have "ucast (t + word_of_nat d - e) = (ucast (t - e) + word_of_nat d :: u32)"
  proof -
    have "ucast (x + word_of_nat d) = (ucast x + word_of_nat d :: u32)" for x :: u64
    proof -
      have "int (d mod 2 ^ 64) mod 2 ^ 32 = int (d mod 2 ^ 32) mod 2 ^ 32"
        by (simp add: zmod_int mod_mod_cancel)
      then have "(uint x + int (d mod 2 ^ 64)) mod 2 ^ 32 = (uint x + int (d mod 2 ^ 32)) mod 2 ^ 32"
        by (rule mod_add_cong[OF refl])
      then show ?thesis
        by (simp add: word_uint_eq_iff unsigned_ucast_eq uint_word_ariths take_bit_eq_mod
            unsigned_of_nat mod_mod_cancel mod_simps)
    qed
    then have "ucast (t - e + word_of_nat d) = (ucast (t - e) + word_of_nat d :: u32)" .
    then show ?thesis by (simp only: add_diff_eq diff_add_eq)
  qed
  then show "e \<noteq> 0 \<Longrightarrow> ?thesis" by (simp add: TIMER_getNow_def)
qed

section \<open>Properties\<close>

text \<open>C26: A timeout started at the clock reading \<open>t\<close> and polled \<open>d\<close> milliseconds later has expired
  exactly when \<open>d\<close> exceeds the timeout, also when the 32 bit millisecond counter, or the clock
  itself, rolls over in between; timeout and delay below \<open>2^31\<close> ms, the limit \<^verbatim>\<open>timer.h\<close> states.\<close>

theorem timeout_expires_on_time:
  assumes "epoch \<noteq> 0" and "0 < v" and "v < 2 ^ 31" and "d < 2 ^ 31"
  shows "TIMER_timeoutIsExpired (fst (TIMER_timeoutStart epoch i t)) v
           (fst (TIMER_getNow epoch i' (t + word_of_nat d))) = (if v < int d then 1 else 0)"
  unfolding TIMER_timeoutStart_def getNow_later[OF assms(1), of i' t d i]
  by (rule expired_elapsed[OF assms(2-4)])

theorem timeout_expires_on_time_witness:
  "TIMER_timeoutIsExpired (fst (TIMER_timeoutStart 1 0 0xFFFFFFFF)) 5
     (fst (TIMER_getNow 1 0 (0xFFFFFFFF + word_of_nat 6))) = 1"
  using timeout_expires_on_time[of 1 5 6 0 "0xFFFFFFFF" 0] by simp

text \<open>\<^verbatim>\<open>make_timespec\<close> denotes the instant \<open>timeout\<close> milliseconds after the clock reading, and
  its nanosecond field stays below \<open>10^9\<close>, as \<^verbatim>\<open>sem_timedwait\<close> demands, except in the one
  case where the sum of the nanoseconds is exactly \<open>10^9\<close>: the carry loop tests \<^verbatim>\<open>>\<close>, not
  \<^verbatim>\<open>>=\<close>, and leaves the invalid value.\<close>

theorem make_timespec_instant:
  assumes "0 \<le> nsec" and "nsec < 10 ^ 9" and "0 \<le> timeout"
    and "make_timespec sec nsec timeout = (s, n)"
  shows "s * 10 ^ 9 + n = sec * 10 ^ 9 + nsec + timeout * 10 ^ 6 \<and> 0 \<le> n \<and>
         (n < 10 ^ 9 \<longleftrightarrow> nsec + timeout mod 1000 * 10 ^ 6 \<noteq> 10 ^ 9)"
proof -
  let ?r = "timeout mod 1000 * 10 ^ 6"
  have r: "0 \<le> ?r" "?r \<le> 999 * 10 ^ 6" by auto
  have split: "timeout * 10 ^ 6 = timeout div 1000 * 10 ^ 9 + ?r"
    by simp presburger
  have "ts_carry (sec + timeout div 1000) (nsec + ?r) = (s, n)"
    using assms(3,4) c_div_mod_nonneg[of timeout 1000] by (simp add: make_timespec_def Let_def mult.assoc)
  then have "(s, n) = (if nsec + ?r > 10 ^ 9 then (sec + timeout div 1000 + 1, nsec + ?r - 10 ^ 9)
                       else (sec + timeout div 1000, nsec + ?r))"
    using assms(1,2) r ts_carry_once[of "nsec + ?r" "sec + timeout div 1000"] by simp
  then show ?thesis using assms(1,2) r split by (auto split: if_splits)
qed

theorem make_timespec_instant_witness:
  "make_timespec 7 500000000 1500 = (8, 10 ^ 9) \<and> \<not> (10 ^ 9 < (10 ^ 9 :: int)) \<and>
   8 * 10 ^ 9 + 10 ^ 9 = 7 * 10 ^ 9 + 500000000 + 1500 * (10 ^ 6 :: int)"
proof -
  have e: "make_timespec 7 500000000 1500 = (8, 10 ^ 9)"
    by (simp add: make_timespec_def c_mod_def c_div_def ts_carry.simps)
  show ?thesis using e make_timespec_instant[OF _ _ _ e] by simp
qed

end
