(* ===== verification/Os_Sync.thy ===== *)
theory Os_Sync
  imports Os_Time
begin

text \<open>
  Synchronisation in the gateway library: the counting semaphores of \<^verbatim>\<open>ti_semaphore.c\<close> and the
  recursive mutexes of \<^verbatim>\<open>mutex.c\<close>, with the primitives of \<^verbatim>\<open>linux_specific.c\<close> below them
  (\<^verbatim>\<open>_ATOMIC_sem_*\<close>, \<^verbatim>\<open>_ATOMIC_local_*\<close>). The POSIX semaphore is its counter. What other threads
  do while a call blocks is an argument: the number of posts that arrive before a wait ends, or
  the state of the lock each time the condition variable wakes the caller. The mutex is also
  given as a step relation between threads, one step per shared access of the code.
\<close>

section \<open>Semaphores\<close>

text \<open>A handle is null, points to something without the semaphore mark, or to a semaphore.\<close>

record semaphore_details =
  dbg_name :: "string option"
  sem_cnt :: nat

datatype sem_handle = SemNull | SemForeign | SemH semaphore_details

definition sem_h2pS :: "sem_handle \<Rightarrow> semaphore_details option" where
  "sem_h2pS h = (case h of SemH pS \<Rightarrow> Some pS | _ \<Rightarrow> None)"

definition SEM_VALUE_MAX :: nat where
  "SEM_VALUE_MAX = 2 ^ 31 - 1"

text \<open>\<^verbatim>\<open>sem_post\<close> fails at the maximal value and leaves it; the result is ignored.\<close>

definition ATOMIC_sem_put :: "nat \<Rightarrow> nat" where
  "ATOMIC_sem_put s = (if s = SEM_VALUE_MAX then s else Suc s)"

definition ATOMIC_sem_get :: "nat \<Rightarrow> int \<Rightarrow> nat \<Rightarrow> int \<times> nat" where
  "ATOMIC_sem_get s timeout_mSecs posts =
     (if 0 < s then (1, s - 1)
      else if timeout_mSecs = 0 then (0, s)
      else let s' = (ATOMIC_sem_put ^^ posts) s in if 0 < s' then (1, s' - 1) else (0, s'))"

fun sem_put_loop :: "nat \<Rightarrow> nat \<Rightarrow> nat" where
  "sem_put_loop 0 s = s"
| "sem_put_loop (Suc n) s = sem_put_loop n (ATOMIC_sem_put s)"

text \<open>The oracle answers for the structure; a missing copy of the name is only reported.\<close>

definition SEMAPHORE_create :: "bool \<Rightarrow> bool \<Rightarrow> string option \<Rightarrow> nat \<Rightarrow> sem_handle" where
  "SEMAPHORE_create calloc_ok strdup_ok name initial_value =
     (if \<not> calloc_ok then SemNull
      else let nm = (case name of None \<Rightarrow> ''sem-no-name'' | Some nm \<Rightarrow> nm)
           in SemH \<lparr>dbg_name = (if strdup_ok then Some nm else None),
                    sem_cnt = sem_put_loop initial_value 0\<rparr>)"

text \<open>After destruction the memory is released: the handle is dangling and marks nothing.\<close>

definition SEMAPHORE_destroy :: "sem_handle \<Rightarrow> sem_handle" where
  "SEMAPHORE_destroy h = (case sem_h2pS h of None \<Rightarrow> h | Some pS \<Rightarrow> SemForeign)"

definition SEMAPHORE_putN :: "sem_handle \<Rightarrow> nat \<Rightarrow> int \<times> sem_handle" where
  "SEMAPHORE_putN h n =
     (case sem_h2pS h of None \<Rightarrow> (-1, h)
      | Some pS \<Rightarrow> (0, SemH (pS\<lparr>sem_cnt := sem_put_loop n (sem_cnt pS)\<rparr>)))"

fun sem_wait_loop :: "nat list \<Rightarrow> int \<Rightarrow> int \<Rightarrow> nat \<Rightarrow> int \<times> nat" where
  "sem_wait_loop [] timeout_mSec r s = (r, s)"
| "sem_wait_loop (posts # rest) timeout_mSec r s =
     (let (r', s') = ATOMIC_sem_get s timeout_mSec posts in sem_wait_loop rest timeout_mSec r' s')"

text \<open>\<open>waits\<close> holds, for each of the \<open>n\<close> waits, the posts that arrive while it blocks.\<close>

definition SEMAPHORE_waitNWithTimeout :: "sem_handle \<Rightarrow> nat list \<Rightarrow> int \<Rightarrow> int \<times> sem_handle" where
  "SEMAPHORE_waitNWithTimeout h waits timeout_mSec =
     (case sem_h2pS h of None \<Rightarrow> (-1, h)
      | Some pS \<Rightarrow>
          let (r, s) = sem_wait_loop waits timeout_mSec 1 (sem_cnt pS) in (r, SemH (pS\<lparr>sem_cnt := s\<rparr>)))"

definition SEMAPHORE_inspect :: "sem_handle \<Rightarrow> int" where
  "SEMAPHORE_inspect h = (case sem_h2pS h of None \<Rightarrow> -1 | Some pS \<Rightarrow> int (sem_cnt pS))"

section \<open>The lock of the platform layer\<close>

text \<open>\<open>owner\<close> is the thread id, 0 once cleared; no thread has id 0.\<close>

record p_atomic =
  a_owner :: nat
  lock_depth :: int

datatype 'a fatal = Ok 'a | Fatal string

definition ATOMIC_local_create :: p_atomic where
  "ATOMIC_local_create = \<lparr>a_owner = 0, lock_depth = 0\<rparr>"

text \<open>The code after \<^verbatim>\<open>done:\<close>, reached with success.\<close>

definition atomic_acquire :: "nat \<Rightarrow> p_atomic \<Rightarrow> p_atomic" where
  "atomic_acquire self pA =
     (let d = lock_depth pA + 1
      in if d = 1 then pA\<lparr>lock_depth := d, a_owner := self\<rparr> else pA\<lparr>lock_depth := d\<rparr>)"

text \<open>
  The loop of \<^verbatim>\<open>_ATOMIC_local_lock\<close>. Each element of \<open>wakes\<close> is one return from the condition
  variable: the lock as the caller then finds it and the milliseconds waited in all. \<open>None\<close>: the
  call is still blocked when the schedule ends.
\<close>

fun atomic_wait :: "nat \<Rightarrow> int \<Rightarrow> int \<Rightarrow> (p_atomic \<times> int) list \<Rightarrow> p_atomic \<Rightarrow> (int \<times> p_atomic) option"
where
  "atomic_wait self timeout_mSecs twaited wakes pA =
     (if lock_depth pA = 0 then Some (0, atomic_acquire self pA)
      else if timeout_mSecs = 0 then Some (-1, pA)
      else if 0 < timeout_mSecs \<and> timeout_mSecs - twaited \<le> 0 then Some (-1, pA)
      else case wakes of [] \<Rightarrow> None
           | (pA', t) # rest \<Rightarrow> atomic_wait self timeout_mSecs t rest pA')"

definition ATOMIC_local_lock ::
  "nat \<Rightarrow> int \<Rightarrow> (p_atomic \<times> int) list \<Rightarrow> p_atomic \<Rightarrow> (int \<times> p_atomic) option" where
  "ATOMIC_local_lock self timeout_mSecs wakes pA =
     (if a_owner pA = self then Some (0, atomic_acquire self pA)
      else atomic_wait self timeout_mSecs 0 wakes pA)"

definition ATOMIC_local_unlock :: "nat \<Rightarrow> p_atomic \<Rightarrow> p_atomic fatal" where
  "ATOMIC_local_unlock self pA =
     (if a_owner pA \<noteq> self then Fatal ''unlock by non-owning thread''
      else if lock_depth pA \<le> 0 then Fatal ''unlock underflow''
      else let d = lock_depth pA - 1
           in Ok (if d = 0 then pA\<lparr>lock_depth := d, a_owner := 0\<rparr> else pA\<lparr>lock_depth := d\<rparr>))"

section \<open>Mutexes\<close>

record mutex =
  m :: p_atomic
  owner :: nat
  recursive_lock :: int

definition MUTEX_create :: mutex where
  "MUTEX_create = \<lparr>m = ATOMIC_local_create, owner = 0, recursive_lock = 0\<rparr>"

definition need_lock :: "nat \<Rightarrow> mutex \<Rightarrow> bool" where
  "need_lock whoami pM = (\<not> (recursive_lock pM \<noteq> 0 \<and> owner pM = whoami))"

text \<open>The two functions as one thread runs them with no other thread between its accesses.\<close>

definition MUTEX_lock :: "nat \<Rightarrow> int \<Rightarrow> mutex \<Rightarrow> (int \<times> mutex) option" where
  "MUTEX_lock whoami timeout_mSecs pM =
     do {
       (r, a) \<leftarrow> (if need_lock whoami pM then ATOMIC_local_lock whoami timeout_mSecs [] (m pM)
                  else Some (0, m pM));
       Some (if r = 0
             then (r, pM\<lparr>m := a, owner := whoami, recursive_lock := recursive_lock pM + 1\<rparr>)
             else (r, pM\<lparr>m := a\<rparr>))
     }"

definition MUTEX_unLock :: "nat \<Rightarrow> mutex \<Rightarrow> (int \<times> mutex) fatal" where
  "MUTEX_unLock self pM =
     (let r = recursive_lock pM - 1; pM1 = pM\<lparr>recursive_lock := r\<rparr>
      in if r = 0
         then case ATOMIC_local_unlock self (m pM1) of
                Fatal e \<Rightarrow> Fatal e
              | Ok a \<Rightarrow> Ok (0, pM1\<lparr>owner := 0, m := a\<rparr>)
         else Ok (0, pM1))"

definition MUTEX_isLocked :: "mutex \<Rightarrow> bool" where
  "MUTEX_isLocked pM = (recursive_lock pM \<noteq> 0)"

subsection \<open>Threads\<close>

text \<open>
  Where a thread stands in \<^verbatim>\<open>MUTEX_lock\<close> or \<^verbatim>\<open>MUTEX_unLock\<close>: outside both; past the
  inspection, with the value of \<^verbatim>\<open>need_lock\<close>; with the lock taken; with \<^verbatim>\<open>owner\<close> stored;
  in the unlock with the counter at zero; with the owner cleared. \<open>held\<close> counts the calls of
  \<^verbatim>\<open>MUTEX_lock\<close> that returned 0 and are not yet released.
\<close>

datatype mpc = Outside | Inspected bool | Taken | Owned | Dropped | Cleared

record threads =
  mtx :: mutex
  pc :: "nat \<Rightarrow> mpc"
  held :: "nat \<Rightarrow> nat"

definition threads_init :: "threads \<Rightarrow> bool" where
  "threads_init s = (s = \<lparr>mtx = MUTEX_create, pc = \<lambda>_. Outside, held = \<lambda>_. 0\<rparr>)"

inductive mutex_step :: "threads \<Rightarrow> threads \<Rightarrow> bool" where
  inspect: "t \<noteq> 0 \<Longrightarrow> pc s t = Outside \<Longrightarrow>
    mutex_step s (s\<lparr>pc := (pc s)(t := Inspected (need_lock t (mtx s)))\<rparr>)"
| take_lock: "pc s t = Inspected True \<Longrightarrow>
    ATOMIC_local_lock t timeout [] (m (mtx s)) = Some (0, a) \<Longrightarrow>
    mutex_step s (s\<lparr>mtx := (mtx s)\<lparr>m := a\<rparr>, pc := (pc s)(t := Taken)\<rparr>)"
| give_up: "pc s t = Inspected True \<Longrightarrow>
    ATOMIC_local_lock t timeout [] (m (mtx s)) = Some (-1, a) \<Longrightarrow>
    mutex_step s (s\<lparr>mtx := (mtx s)\<lparr>m := a\<rparr>, pc := (pc s)(t := Outside)\<rparr>)"
| recursive: "pc s t = Inspected False \<Longrightarrow>
    mutex_step s (s\<lparr>pc := (pc s)(t := Taken)\<rparr>)"
| set_owner: "pc s t = Taken \<Longrightarrow>
    mutex_step s (s\<lparr>mtx := (mtx s)\<lparr>owner := t\<rparr>, pc := (pc s)(t := Owned)\<rparr>)"
| count_up: "pc s t = Owned \<Longrightarrow>
    mutex_step s (s\<lparr>mtx := (mtx s)\<lparr>recursive_lock := recursive_lock (mtx s) + 1\<rparr>,
                    pc := (pc s)(t := Outside), held := (held s)(t := held s t + 1)\<rparr>)"
| count_down: "pc s t = Outside \<Longrightarrow> 0 < held s t \<Longrightarrow> r = recursive_lock (mtx s) - 1 \<Longrightarrow>
    mutex_step s (s\<lparr>mtx := (mtx s)\<lparr>recursive_lock := r\<rparr>,
                    pc := (pc s)(t := (if r = 0 then Dropped else Outside)),
                    held := (held s)(t := held s t - 1)\<rparr>)"
| clear_owner: "pc s t = Dropped \<Longrightarrow>
    mutex_step s (s\<lparr>mtx := (mtx s)\<lparr>owner := 0\<rparr>, pc := (pc s)(t := Cleared)\<rparr>)"
| release: "pc s t = Cleared \<Longrightarrow> ATOMIC_local_unlock t (m (mtx s)) = Ok a \<Longrightarrow>
    mutex_step s (s\<lparr>mtx := (mtx s)\<lparr>m := a\<rparr>, pc := (pc s)(t := Outside)\<rparr>)"

section \<open>Lemmas\<close>

definition idle :: "threads \<Rightarrow> nat \<Rightarrow> bool" where
  "idle s t \<longleftrightarrow> held s t = 0 \<and> (pc s t = Outside \<or> pc s t = Inspected True)"

definition lock_owner_inv :: "threads \<Rightarrow> nat \<Rightarrow> bool" where
  "lock_owner_inv s t \<longleftrightarrow>
     lock_depth (m (mtx s)) = 1 \<and> \<not> idle s t \<and> pc s t \<noteq> Inspected True \<and>
     recursive_lock (mtx s) = int (held s t) \<and>
     (pc s t = Inspected False \<longrightarrow> 0 < held s t) \<and>
     (pc s t = Dropped \<or> pc s t = Cleared \<longrightarrow> held s t = 0) \<and>
     owner (mtx s) = (if pc s t = Cleared \<or> pc s t = Taken \<and> held s t = 0 then 0 else t)"

definition mutex_inv :: "threads \<Rightarrow> bool" where
  "mutex_inv s \<longleftrightarrow>
     (let h = a_owner (m (mtx s)) in
      (\<forall>t. t \<noteq> h \<longrightarrow> idle s t) \<and> pc s 0 = Outside \<and> held s 0 = 0 \<and>
      (if h = 0
       then lock_depth (m (mtx s)) = 0 \<and> owner (mtx s) = 0 \<and> recursive_lock (mtx s) = 0
       else lock_owner_inv s h))"

lemma local_lock_now:
  "ATOMIC_local_lock t timeout [] a = Some (r, a') \<Longrightarrow> a_owner a \<noteq> t \<Longrightarrow>
   (r = 0 \<and> lock_depth a = 0 \<and> a' = a\<lparr>lock_depth := 1, a_owner := t\<rparr>) \<or>
   (r = -1 \<and> lock_depth a \<noteq> 0 \<and> a' = a)"
  by (auto simp: ATOMIC_local_lock_def atomic_acquire_def split: if_splits)

lemma mutex_inv_start: "threads_init s \<Longrightarrow> mutex_inv s"
  by (simp add: threads_init_def mutex_inv_def idle_def MUTEX_create_def ATOMIC_local_create_def)

lemma mutex_inv_waiting:
  assumes "mutex_inv s" "idle s t" "t \<noteq> 0"
  shows "a_owner (m (mtx s)) \<noteq> t"
  using assms by (auto simp: mutex_inv_def Let_def lock_owner_inv_def)

lemma mutex_inv_active:
  assumes "mutex_inv s" "\<not> idle s t"
  shows "t \<noteq> 0" "a_owner (m (mtx s)) = t" "lock_owner_inv s t" "u \<noteq> t \<Longrightarrow> idle s u"
    "pc s 0 = Outside" "held s 0 = 0"
proof -
  show z: "pc s 0 = Outside" "held s 0 = 0" using assms(1) by (simp_all add: mutex_inv_def Let_def)
  then show "t \<noteq> 0" using assms(2) by (cases "t = 0") (simp_all add: idle_def)
  moreover show t: "a_owner (m (mtx s)) = t" using assms by (metis mutex_inv_def)
  ultimately show "lock_owner_inv s t" "u \<noteq> t \<Longrightarrow> idle s u"
    using assms(1) by (simp_all add: mutex_inv_def Let_def)
qed

lemma mutex_inv_activeI:
  assumes "a_owner (m (mtx s)) = t" "t \<noteq> 0" "lock_owner_inv s t" "\<And>u. u \<noteq> t \<Longrightarrow> idle s u"
    "pc s 0 = Outside" "held s 0 = 0"
  shows "mutex_inv s"
  using assms by (simp add: mutex_inv_def)

lemma inspected_idle:
  assumes "mutex_inv s" "pc s t = Inspected True"
  shows "t \<noteq> 0 \<and> idle s t \<and> a_owner (m (mtx s)) \<noteq> t"
proof -
  have "idle s t"
    using mutex_inv_active(3)[OF assms(1), of t] assms(2) by (auto simp: lock_owner_inv_def)
  moreover have "t \<noteq> 0" using assms by (cases "t = 0") (simp_all add: mutex_inv_def Let_def)
  ultimately show ?thesis using mutex_inv_waiting[OF assms(1)] by blast
qed

text \<open>The steps of the thread inside the lock that leave it inside.\<close>

lemma mutex_inv_inside:
  assumes "mutex_inv s" "\<not> idle s t" "lock_owner_inv s' t"
    and "a_owner (m (mtx s')) = a_owner (m (mtx s))"
    and "\<And>u. u \<noteq> t \<Longrightarrow> pc s' u = pc s u \<and> held s' u = held s u"
  shows "mutex_inv s'"
proof (rule mutex_inv_activeI[where t = t])
  show "idle s' u" if "u \<noteq> t" for u
    using mutex_inv_active(4)[OF assms(1,2) that] assms(5)[OF that] by (simp add: idle_def)
qed (use mutex_inv_active[OF assms(1,2)] assms(3-5) in auto)

lemma mutex_inv_step: "mutex_step s s' \<Longrightarrow> mutex_inv s \<Longrightarrow> mutex_inv s'"
proof (induction rule: mutex_step.induct)
  case (inspect t s)
  show ?case
  proof (cases "idle s t")
    case True
    have "need_lock t (mtx s)"
    proof (cases "a_owner (m (mtx s)) = 0")
      case False
      then have "owner (mtx s) \<noteq> t"
        using mutex_inv_waiting[OF inspect(3) True inspect(1)] inspect(1,3)
        by (auto simp: mutex_inv_def Let_def lock_owner_inv_def split: if_splits)
      then show ?thesis by (simp add: need_lock_def)
    qed (use inspect in \<open>auto simp: mutex_inv_def need_lock_def\<close>)
    with True inspect mutex_inv_waiting[OF inspect(3) True inspect(1)] show ?thesis
      by (auto simp: mutex_inv_def Let_def lock_owner_inv_def idle_def split: if_splits)
  next
    case False
    have nl: "need_lock t (mtx s) = False" "0 < held s t"
      using mutex_inv_active(3)[OF inspect(3) False] inspect(2) False
      by (auto simp: lock_owner_inv_def need_lock_def idle_def)
    show ?thesis
      by (rule mutex_inv_inside[OF inspect(3) False])
        (use mutex_inv_active(3)[OF inspect(3) False] inspect(2) nl in
          \<open>auto simp: lock_owner_inv_def idle_def\<close>)
  qed
next
  case (take_lock s t timeout a)
  from inspected_idle[OF take_lock(3,1)] local_lock_now[OF take_lock(2)]
  have t: "t \<noteq> 0" "idle s t" "lock_depth (m (mtx s)) = 0"
    "a = (m (mtx s))\<lparr>lock_depth := 1, a_owner := t\<rparr>" by auto
  then have "a_owner (m (mtx s)) = 0"
    using take_lock(3) by (auto simp: mutex_inv_def Let_def lock_owner_inv_def split: if_splits)
  with take_lock(3) have free: "idle s u" "owner (mtx s) = 0" "recursive_lock (mtx s) = 0"
    "pc s 0 = Outside" "held s 0 = 0" for u
    by (cases "u = 0"; simp add: mutex_inv_def Let_def idle_def)+
  show ?case
    by (rule mutex_inv_activeI[where t = t])
      (use t free take_lock(1) in \<open>auto simp: lock_owner_inv_def idle_def\<close>)
next
  case (give_up s t timeout a)
  from inspected_idle[OF give_up(3,1)] local_lock_now[OF give_up(2)]
  have "a = m (mtx s)" "a_owner (m (mtx s)) \<noteq> t" by auto
  with give_up(1,3) show ?case
    by (auto simp: mutex_inv_def Let_def lock_owner_inv_def idle_def split: if_splits)
next
  case (recursive s t)
  then have act: "\<not> idle s t" by (simp add: idle_def)
  show ?case
    by (rule mutex_inv_inside[OF recursive(2) act])
      (use recursive mutex_inv_active(3)[OF recursive(2) act] in \<open>auto simp: lock_owner_inv_def idle_def\<close>)
next
  case (set_owner s t)
  then have act: "\<not> idle s t" by (simp add: idle_def)
  show ?case
    by (rule mutex_inv_inside[OF set_owner(2) act])
      (use set_owner mutex_inv_active(3)[OF set_owner(2) act] in \<open>auto simp: lock_owner_inv_def idle_def\<close>)
next
  case (count_up s t)
  then have act: "\<not> idle s t" by (simp add: idle_def)
  show ?case
    by (rule mutex_inv_inside[OF count_up(2) act])
      (use count_up mutex_inv_active(3)[OF count_up(2) act] in \<open>auto simp: lock_owner_inv_def idle_def\<close>)
next
  case (count_down s t r)
  then have act: "\<not> idle s t" by (simp add: idle_def)
  show ?case
    by (rule mutex_inv_inside[OF count_down(4) act])
      (use count_down mutex_inv_active(3)[OF count_down(4) act] in \<open>auto simp: lock_owner_inv_def idle_def\<close>)
next
  case (clear_owner s t)
  then have act: "\<not> idle s t" by (simp add: idle_def)
  show ?case
    by (rule mutex_inv_inside[OF clear_owner(2) act])
      (use clear_owner mutex_inv_active(3)[OF clear_owner(2) act] in \<open>auto simp: lock_owner_inv_def idle_def\<close>)
next
  case (release s t a)
  then have act: "\<not> idle s t" by (simp add: idle_def)
  note inv = mutex_inv_active[OF release(3) act]
  from inv(3) release(1,2) have a: "a = (m (mtx s))\<lparr>lock_depth := 0, a_owner := 0\<rparr>"
    "held s t = 0" "recursive_lock (mtx s) = 0" "owner (mtx s) = 0"
    by (auto simp: lock_owner_inv_def ATOMIC_local_unlock_def inv(2))
  with inv(1,4,5,6) show ?case by (auto simp: mutex_inv_def idle_def)
qed

interpretation mx: step_invariant threads_init mutex_step mutex_inv
  by unfold_locales (auto intro: mutex_inv_start mutex_inv_step)

text \<open>Two states on the way of one thread through the lock.\<close>

definition locked_by :: "nat \<Rightarrow> threads" where
  "locked_by t = \<lparr>mtx = \<lparr>m = \<lparr>a_owner = t, lock_depth = 1\<rparr>, owner = t, recursive_lock = 1\<rparr>,
                  pc = (\<lambda>_. Outside), held = (\<lambda>_. 0)(t := 1)\<rparr>"

definition releasing :: "nat \<Rightarrow> threads" where
  "releasing t = \<lparr>mtx = \<lparr>m = \<lparr>a_owner = t, lock_depth = 1\<rparr>, owner = 0, recursive_lock = 0\<rparr>,
                  pc = (\<lambda>_. Outside)(t := Cleared), held = (\<lambda>_. 0)\<rparr>"

lemma reach_locked_by: "t \<noteq> 0 \<Longrightarrow> reachable threads_init mutex_step (locked_by t)"
proof -
  assume t: "t \<noteq> 0"
  let ?s = "\<lparr>mtx = MUTEX_create, pc = \<lambda>_. Outside, held = \<lambda>_. 0\<rparr>"
  have "reachable threads_init mutex_step ?s" by (rule reach_start) (simp add: threads_init_def)
  note reach_step[OF this inspect[OF t]]
  note reach_step[OF this take_lock[where t = t and timeout = 0 and a = "\<lparr>a_owner = t, lock_depth = 1\<rparr>"]]
  note reach_step[OF this set_owner[where t = t]]
  note reach_step[OF this count_up[where t = t]]
  then show ?thesis
    using t by (simp add: need_lock_def MUTEX_create_def ATOMIC_local_create_def
        ATOMIC_local_lock_def atomic_acquire_def locked_by_def fun_upd_idem)
qed

lemma reach_releasing: "t \<noteq> 0 \<Longrightarrow> reachable threads_init mutex_step (releasing t)"
proof -
  assume t: "t \<noteq> 0"
  note reach_step[OF reach_locked_by[OF t] count_down[where t = t and r = 0]]
  note reach_step[OF this clear_owner[where t = t]]
  then show ?thesis by (simp add: locked_by_def releasing_def fun_upd_idem)
qed

lemma sem_put_loop_cnt:
  "s \<le> SEM_VALUE_MAX \<Longrightarrow> sem_put_loop n s = min (s + n) SEM_VALUE_MAX"
  by (induction n arbitrary: s) (auto simp: ATOMIC_sem_put_def min_def)

lemma sem_get_available: "0 < s \<Longrightarrow> ATOMIC_sem_get s timeout posts = (1, s - 1)"
  by (simp add: ATOMIC_sem_get_def)

lemma sem_wait_available:
  "length waits \<le> s \<Longrightarrow> sem_wait_loop waits timeout 1 s = (1, s - length waits)"
  by (induction waits arbitrary: s) (auto simp: sem_get_available)

section \<open>Properties\<close>



text \<open>A thread that releases only what it holds never meets the fatal exits of
  \<^verbatim>\<open>_ATOMIC_local_unlock\<close>: in every reachable state a thread at that call owns the lock with
  depth one, and the call clears the owner.\<close>

theorem mutex_release_not_fatal:
  assumes "reachable threads_init mutex_step s" and "pc s t = Cleared"
  shows "ATOMIC_local_unlock t (m (mtx s)) = Ok ((m (mtx s))\<lparr>lock_depth := 0, a_owner := 0\<rparr>)"
proof -
  have inv: "mutex_inv s" by (rule mx.holds_reachable[OF assms(1)])
  have "\<not> idle s t" using assms(2) by (simp add: idle_def)
  from mutex_inv_active[OF inv this] show ?thesis
    by (simp add: lock_owner_inv_def ATOMIC_local_unlock_def)
qed

theorem mutex_release_not_fatal_witness:
  "ATOMIC_local_unlock 7 \<lparr>a_owner = 7, lock_depth = 1\<rparr> = Ok \<lparr>a_owner = 0, lock_depth = 0\<rparr>"
  using mutex_release_not_fatal[OF reach_releasing[of 7], of 7] by (simp add: releasing_def)

text \<open>\<^verbatim>\<open>SEMAPHORE_putN\<close> followed by a wait for as many units never blocks and restores the
  count, as long as the sum stays below the limit of the platform.\<close>

theorem semaphore_put_then_wait:
  assumes "sem_cnt pS + length waits \<le> SEM_VALUE_MAX" and "0 < length waits"
    and "SEMAPHORE_putN (SemH pS) (length waits) = (r, h)"
  shows "r = 0 \<and> SEMAPHORE_waitNWithTimeout h waits timeout = (1, SemH pS)"
proof -
  have "h = SemH (pS\<lparr>sem_cnt := sem_cnt pS + length waits\<rparr>)" "r = 0"
    using assms(1,3) by (auto simp: SEMAPHORE_putN_def sem_h2pS_def sem_put_loop_cnt)
  then show ?thesis
    by (simp add: SEMAPHORE_waitNWithTimeout_def sem_h2pS_def sem_wait_available)
qed

theorem semaphore_put_then_wait_witness:
  "SEMAPHORE_putN (SemH \<lparr>dbg_name = None, sem_cnt = 1\<rparr>) 2 = (0, SemH \<lparr>dbg_name = None, sem_cnt = 3\<rparr>) \<and>
   SEMAPHORE_waitNWithTimeout (SemH \<lparr>dbg_name = None, sem_cnt = 3\<rparr>) [0, 0] 5 =
     (1, SemH \<lparr>dbg_name = None, sem_cnt = 1\<rparr>)"
proof -
  have p: "SEMAPHORE_putN (SemH \<lparr>dbg_name = None, sem_cnt = 1\<rparr>) (length [0 :: nat, 0]) =
      (0, SemH \<lparr>dbg_name = None, sem_cnt = 3\<rparr>)"
    by (simp add: SEMAPHORE_putN_def sem_h2pS_def ATOMIC_sem_put_def SEM_VALUE_MAX_def)
  have "length [0 :: nat, 0] = 2" by simp
  moreover have "sem_cnt \<lparr>dbg_name = None, sem_cnt = 1\<rparr> + length [0 :: nat, 0] \<le> SEM_VALUE_MAX"
    by (simp add: SEM_VALUE_MAX_def)
  ultimately show ?thesis using p semaphore_put_then_wait[OF _ _ p, of 5] by (metis zero_less_numeral)
qed

text \<open>\<^verbatim>\<open>SEMAPHORE_waitNWithTimeout\<close> reports only the last of its \<open>n\<close> waits: a wait for two
  units whose first wait times out and whose second succeeds returns 1, success, with one unit
  taken.\<close>

theorem semaphore_waitN_masks_timeout:
  "SEMAPHORE_waitNWithTimeout (SemH \<lparr>dbg_name = nm, sem_cnt = 0\<rparr>) [0, 1] 10 =
     (1, SemH \<lparr>dbg_name = nm, sem_cnt = 0\<rparr>)"
  by (simp add: SEMAPHORE_waitNWithTimeout_def sem_h2pS_def ATOMIC_sem_get_def ATOMIC_sem_put_def
      SEM_VALUE_MAX_def)

end
