(* ===== verification/Fifo.thy ===== *)
theory Fifo
  imports Queue_Iface Os_Sync
begin

text \<open>
  The item queue of \<^verbatim>\<open>fifo.c\<close>. The buffer is a list of bytes, a pointer into it is an offset, and
  \<^verbatim>\<open>size_t\<close> values are naturals reduced modulo \<open>2^64\<close> where the code adds, subtracts or
  multiplies them. A copy that leaves the fifo buffer or the caller's memory, or the division by a
  depth of zero, is \<open>None\<close>. The mutex makes each of the four DMA functions one atomic step; what
  other threads do while the caller waits on a semaphore is a list of state changes, one per wait.
\<close>

section \<open>Definitions\<close>

definition sz :: "nat \<Rightarrow> nat" where
  "sz n = n mod 2 ^ 64"

definition sz_sub :: "nat \<Rightarrow> nat \<Rightarrow> nat" where
  "sz_sub a b = (a + 2 ^ 64 - b) mod 2 ^ 64"

record fifo =
  fname :: "string option"
  pBuf :: bytes
  item_size :: nat
  fifo_depth :: nat
  cnt :: nat
  wr_idx :: nat
  rd_idx :: nat
  has_mutex :: bool
  in_sem :: sem_handle
  rm_sem :: sem_handle

text \<open>A handle is null, points to memory without the fifo mark, or to a fifo.\<close>

datatype fifo_handle = FifoNull | FifoForeign | FifoH fifo

definition h2f :: "fifo_handle \<Rightarrow> fifo option" where
  "h2f h = (case h of FifoH pF \<Rightarrow> Some pF | _ \<Rightarrow> None)"

definition fifo_name :: "fifo option \<Rightarrow> string" where
  "fifo_name pF =
     (case pF of None \<Rightarrow> ''not-a-fifo''
      | Some f \<Rightarrow> (case fname f of None \<Rightarrow> ''fifo-no-name'' | Some cp \<Rightarrow> cp))"

text \<open>The structure is cleared and not released: the handle stays readable and has lost its mark.\<close>

definition FIFO_destroy :: "fifo_handle \<Rightarrow> fifo_handle" where
  "FIFO_destroy h = (case h2f h of None \<Rightarrow> h | Some pF \<Rightarrow> FifoForeign)"

text \<open>
  The oracle answers the allocations: 0 the structure, 1 the name, 2 the buffer (\<^verbatim>\<open>calloc\<close> also
  fails when the product overflows), 3 the mutex, 4 and 5 the semaphores.
\<close>

definition FIFO_create :: "(nat \<Rightarrow> bool) \<Rightarrow> string option \<Rightarrow> nat \<Rightarrow> nat \<Rightarrow> bool \<Rightarrow> fifo_handle" where
  "FIFO_create alloc name isize depth use_mutex =
     (if \<not> alloc 0 then FifoNull
      else let nm = (case name of None \<Rightarrow> None | Some n \<Rightarrow> if alloc 1 then Some n else None) in
        if \<not> alloc 2 \<or> depth * isize \<ge> 2 ^ 64 then FifoNull
        else let is = (if use_mutex then SEMAPHORE_create (alloc 4) True nm 0 else SemNull);
                 rs = (if use_mutex then SEMAPHORE_create (alloc 5) True nm 0 else SemNull) in
          if use_mutex \<and> (\<not> alloc 3 \<or> is = SemNull \<or> rs = SemNull) then FifoNull
          else FifoH \<lparr>fname = nm, pBuf = replicate (depth * isize) 0, item_size = isize,
                      fifo_depth = depth, cnt = 0, wr_idx = 0, rd_idx = 0,
                      has_mutex = use_mutex, in_sem = is, rm_sem = rs\<rparr>)"

definition FIFO_getSpaceAvail :: "fifo_handle \<Rightarrow> int" where
  "FIFO_getSpaceAvail h =
     (case h2f h of None \<Rightarrow> 0 | Some pF \<Rightarrow> c_int (sz_sub (fifo_depth pF) (cnt pF)))"

definition FIFO_getItemsAvail :: "fifo_handle \<Rightarrow> int" where
  "FIFO_getItemsAvail h = (case h2f h of None \<Rightarrow> 0 | Some pF \<Rightarrow> c_int (cnt pF))"

text \<open>The result, the write offset (\<open>None\<close> the null pointer), the item count and the item size.\<close>

definition FIFO_insertDMA_setup :: "fifo_handle \<Rightarrow> int \<times> nat option \<times> nat \<times> nat" where
  "FIFO_insertDMA_setup h =
     (case h2f h of None \<Rightarrow> (-1, None, 0, 0)
      | Some pF \<Rightarrow>
          (0, Some (sz (wr_idx pF * item_size pF)),
           (if cnt pF = fifo_depth pF then 0
            else if rd_idx pF \<le> wr_idx pF then sz_sub (fifo_depth pF) (wr_idx pF)
            else sz_sub (rd_idx pF) (wr_idx pF)),
           item_size pF))"

definition FIFO_insertDMA_update :: "fifo_handle \<Rightarrow> nat \<Rightarrow> fifo_handle option" where
  "FIFO_insertDMA_update h n_items =
     (case h2f h of None \<Rightarrow> Some h
      | Some pF \<Rightarrow>
          if fifo_depth pF = 0 then None
          else Some (FifoH (pF\<lparr>cnt := sz (cnt pF + n_items),
                               wr_idx := sz (wr_idx pF + n_items) mod fifo_depth pF,
                               in_sem := snd (SEMAPHORE_putN (in_sem pF) 1)\<rparr>)))"

definition FIFO_removeDMA_setup :: "fifo_handle \<Rightarrow> int \<times> nat option \<times> nat \<times> nat" where
  "FIFO_removeDMA_setup h =
     (case h2f h of None \<Rightarrow> (-1, None, 0, 0)
      | Some pF \<Rightarrow>
          (0, Some (sz (rd_idx pF * item_size pF)),
           (if cnt pF = 0 then 0
            else if rd_idx pF < wr_idx pF then sz_sub (wr_idx pF) (rd_idx pF)
            else sz_sub (fifo_depth pF) (rd_idx pF)),
           item_size pF))"

definition FIFO_removeDMA_update :: "fifo_handle \<Rightarrow> nat \<Rightarrow> fifo_handle option" where
  "FIFO_removeDMA_update h actual =
     (case h2f h of None \<Rightarrow> Some h
      | Some pF \<Rightarrow>
          if fifo_depth pF = 0 then None
          else Some (FifoH (pF\<lparr>rd_idx := sz (rd_idx pF + actual) mod fifo_depth pF,
                               cnt := sz_sub (cnt pF) actual,
                               rm_sem := snd (SEMAPHORE_putN (rm_sem pF) 1)\<rparr>)))"

text \<open>
  \<^verbatim>\<open>SEMAPHORE_waitWithTimeout\<close> on one of the two semaphores. A unit that is there is taken at
  once; otherwise the next element of \<open>evs\<close> is what other threads do to the fifo before the
  wait ends. With no element left the wait runs into its timeout.
\<close>

definition fifo_wait ::
  "(fifo \<Rightarrow> sem_handle) \<Rightarrow> (sem_handle \<Rightarrow> fifo \<Rightarrow> fifo) \<Rightarrow> int \<Rightarrow> (fifo \<Rightarrow> fifo) list \<Rightarrow> fifo \<Rightarrow>
     int \<times> (fifo \<Rightarrow> fifo) list \<times> fifo" where
  "fifo_wait sem upd timeout_mSecs evs pF =
     (case SEMAPHORE_waitNWithTimeout (sem pF) [0] 0 of (r, h) \<Rightarrow>
        if r \<noteq> 0 \<or> timeout_mSecs = 0 then (r, evs, upd h pF)
        else (case evs of [] \<Rightarrow> (0, [], pF)
              | e # evs' \<Rightarrow>
                  (case SEMAPHORE_waitNWithTimeout (sem (e pF)) [0] 0 of (r', h') \<Rightarrow>
                     (r', evs', upd h' (e pF)))))"

definition wait_rm :: "int \<Rightarrow> (fifo \<Rightarrow> fifo) list \<Rightarrow> fifo \<Rightarrow> int \<times> (fifo \<Rightarrow> fifo) list \<times> fifo" where
  "wait_rm = fifo_wait rm_sem (\<lambda>h pF. pF\<lparr>rm_sem := h\<rparr>)"

definition wait_in :: "int \<Rightarrow> (fifo \<Rightarrow> fifo) list \<Rightarrow> fifo \<Rightarrow> int \<times> (fifo \<Rightarrow> fifo) list \<times> fifo" where
  "wait_in = fifo_wait in_sem (\<lambda>h pF. pF\<lparr>in_sem := h\<rparr>)"

text \<open>Units a wait can take without blocking: bounds the spurious turns of the loops.\<close>

definition sem_units :: "sem_handle \<Rightarrow> nat" where
  "sem_units h = (case h of SemH pS \<Rightarrow> sem_cnt pS | _ \<Rightarrow> 0)"

lemma sem_try: "SEMAPHORE_waitNWithTimeout h [0] 0 = (r, h') \<Longrightarrow> 0 < r \<Longrightarrow> sem_units h' < sem_units h"
  by (auto simp: SEMAPHORE_waitNWithTimeout_def sem_h2pS_def sem_units_def ATOMIC_sem_get_def
      split: sem_handle.splits if_splits)

lemma wait_rm_progress:
  assumes "wait_rm timeout evs pF = (r, evs', pF')" "0 < r"
  shows "length evs' < length evs \<or> length evs' = length evs \<and> sem_units (rm_sem pF') < sem_units (rm_sem pF)"
  using assms by (auto simp: wait_rm_def fifo_wait_def dest: sem_try split: prod.splits if_splits list.splits)

lemma wait_in_progress:
  assumes "wait_in timeout evs pF = (r, evs', pF')" "0 < r"
  shows "length evs' < length evs \<or> length evs' = length evs \<and> sem_units (in_sem pF') < sem_units (in_sem pF)"
  using assms by (auto simp: wait_in_def fifo_wait_def dest: sem_try split: prod.splits if_splits list.splits)

text \<open>The loop of \<^verbatim>\<open>FIFO_insertWithTimeout\<close>; \<open>pos\<close> is how far \<^verbatim>\<open>pData\<close> has advanced.\<close>

function insert_loop ::
  "(fifo \<Rightarrow> fifo) list \<Rightarrow> int \<Rightarrow> bytes \<Rightarrow> nat \<Rightarrow> nat \<Rightarrow> nat \<Rightarrow> fifo \<Rightarrow> (nat \<times> fifo) option"
where
  "insert_loop evs timeout_mSecs pData pos n_todo n_done pF =
     (let n_remain = n_todo - n_done in
      if n_remain = 0 then Some (n_done, pF)
      else case FIFO_insertDMA_setup (FifoH pF) of (_, pMem, n_avail, isize) \<Rightarrow>
        if n_avail = 0
        then if timeout_mSecs = 0 then Some (n_done, pF)
             else if rm_sem pF = SemNull then Some (n_done, pF)
             else case wait_rm timeout_mSecs evs pF of (r, evs', pF') \<Rightarrow>
                    if 0 < r then insert_loop evs' timeout_mSecs pData pos n_todo n_done pF'
                    else Some (n_done, pF')
        else let n_this = min n_avail n_remain; n_bytes = sz (isize * n_this) in
          do {
            off \<leftarrow> pMem;
            src \<leftarrow> mem_rd pos n_bytes pData;
            b \<leftarrow> mem_wr off src (pBuf pF);
            h \<leftarrow> FIFO_insertDMA_update (FifoH (pF\<lparr>pBuf := b\<rparr>)) n_this;
            pF' \<leftarrow> h2f h;
            insert_loop evs timeout_mSecs pData (pos + n_bytes) n_todo (n_done + n_this) pF'
          })"
  by pat_completeness auto
termination
  by (relation "measures [\<lambda>(evs, t, d, p, n, k, f). length evs, \<lambda>(evs, t, d, p, n, k, f). n - k,
        \<lambda>(evs, t, d, p, n, k, f). sem_units (rm_sem f)]")
    (auto dest!: wait_rm_progress[OF sym])

text \<open>The loop of \<^verbatim>\<open>FIFO_removeWithTimeout\<close>; the caller's memory \<open>dst\<close> is written at \<open>pos\<close>.\<close>

function remove_loop ::
  "(fifo \<Rightarrow> fifo) list \<Rightarrow> int \<Rightarrow> bytes \<Rightarrow> nat \<Rightarrow> nat \<Rightarrow> nat \<Rightarrow> fifo \<Rightarrow> (nat \<times> bytes \<times> fifo) option"
where
  "remove_loop evs timeout_mSecs dst pos n_todo n_done pF =
     (let n_remain = n_todo - n_done in
      if n_remain = 0 then Some (n_done, dst, pF)
      else case FIFO_removeDMA_setup (FifoH pF) of (_, pMem, n_avail, isize) \<Rightarrow>
        if n_avail = 0
        then if timeout_mSecs = 0 then Some (n_done, dst, pF)
             else if in_sem pF = SemNull then Some (n_done, dst, pF)
             else case wait_in timeout_mSecs evs pF of (r, evs', pF') \<Rightarrow>
                    if 0 < r then remove_loop evs' timeout_mSecs dst pos n_todo n_done pF'
                    else Some (n_done, dst, pF')
        else let n_this = min n_remain n_avail; n_bytes = sz (isize * n_this) in
          do {
            off \<leftarrow> pMem;
            src \<leftarrow> mem_rd off n_bytes (pBuf pF);
            dst' \<leftarrow> mem_wr pos src dst;
            h \<leftarrow> FIFO_removeDMA_update (FifoH pF) n_this;
            pF' \<leftarrow> h2f h;
            remove_loop evs timeout_mSecs dst' (pos + n_bytes) n_todo (n_done + n_this) pF'
          })"
  by pat_completeness auto
termination
  by (relation "measures [\<lambda>(evs, t, d, p, n, k, f). length evs, \<lambda>(evs, t, d, p, n, k, f). n - k,
        \<lambda>(evs, t, d, p, n, k, f). sem_units (in_sem f)]")
    (auto dest!: wait_in_progress[OF sym])

declare insert_loop.simps [simp del] remove_loop.simps [simp del]

definition FIFO_insertWithTimeout ::
  "(fifo \<Rightarrow> fifo) list \<Rightarrow> fifo_handle \<Rightarrow> bytes \<Rightarrow> nat \<Rightarrow> int \<Rightarrow> (int \<times> fifo_handle) option" where
  "FIFO_insertWithTimeout evs h pData n_todo timeout_mSecs =
     (case h2f h of None \<Rightarrow> Some (-1, h)
      | Some pF \<Rightarrow>
          do {
            (n_done, pF') \<leftarrow> insert_loop evs timeout_mSecs pData 0 n_todo 0 pF;
            Some (c_int n_done, FifoH pF')
          })"

definition FIFO_insert :: "fifo_handle \<Rightarrow> bytes \<Rightarrow> nat \<Rightarrow> (int \<times> fifo_handle) option" where
  "FIFO_insert h pData n_todo = FIFO_insertWithTimeout [] h pData n_todo 0"

definition FIFO_removeWithTimeout ::
  "(fifo \<Rightarrow> fifo) list \<Rightarrow> fifo_handle \<Rightarrow> bytes \<Rightarrow> nat \<Rightarrow> int \<Rightarrow> (int \<times> bytes \<times> fifo_handle) option" where
  "FIFO_removeWithTimeout evs h dst n_todo timeout_mSecs =
     (case h2f h of None \<Rightarrow> Some (-1, dst, h)
      | Some pF \<Rightarrow>
          do {
            (n_done, dst', pF') \<leftarrow> remove_loop evs timeout_mSecs dst 0 n_todo 0 pF;
            Some (c_int n_done, dst', FifoH pF')
          })"

definition FIFO_remove :: "fifo_handle \<Rightarrow> bytes \<Rightarrow> nat \<Rightarrow> (int \<times> bytes \<times> fifo_handle) option" where
  "FIFO_remove h dst n_todo = FIFO_removeWithTimeout [] h dst n_todo 0"

definition FIFO_fputc :: "int \<Rightarrow> fifo_handle \<Rightarrow> (int \<times> fifo_handle) option" where
  "FIFO_fputc c h =
     (let b = word_of_int c :: u8 in
      do {
        (r, h') \<leftarrow> FIFO_insert h [b] 1;
        Some (if r \<noteq> 1 then -1 else sint b AND 0xff, h')
      })"

text \<open>\<open>b0\<close> is the uninitialised local byte.\<close>

definition FIFO_fgetc :: "u8 \<Rightarrow> fifo_handle \<Rightarrow> (int \<times> fifo_handle) option" where
  "FIFO_fgetc b0 h =
     do {
       (c, dst, h') \<leftarrow> FIFO_remove h [b0] 1;
       Some (if c = 1 then sint (dst ! 0) AND 0xff else -1, h')
     }"

definition FIFO_waitForInsert :: "(fifo \<Rightarrow> fifo) list \<Rightarrow> fifo_handle \<Rightarrow> int \<Rightarrow> int \<times> fifo_handle" where
  "FIFO_waitForInsert evs h timeout_mSecs =
     (case h2f h of None \<Rightarrow> (-1, h)
      | Some pF \<Rightarrow>
          if in_sem pF = SemNull then (1, h)
          else case wait_in timeout_mSecs evs pF of (r, _, pF') \<Rightarrow> (r, FifoH pF'))"

definition FIFO_waitForRemove :: "(fifo \<Rightarrow> fifo) list \<Rightarrow> fifo_handle \<Rightarrow> int \<Rightarrow> int \<times> fifo_handle" where
  "FIFO_waitForRemove evs h timeout_mSecs =
     (case h2f h of None \<Rightarrow> (-1, h)
      | Some pF \<Rightarrow>
          if rm_sem pF = SemNull then (1, h)
          else case wait_rm timeout_mSecs evs pF of (r, _, pF') \<Rightarrow> (r, FifoH pF'))"

section \<open>Invariant and abstraction\<close>

definition fifo_inv :: "fifo \<Rightarrow> bool" where
  "fifo_inv pF \<longleftrightarrow>
     0 < item_size pF \<and> length (pBuf pF) = fifo_depth pF * item_size pF \<and>
     length (pBuf pF) < 2 ^ 63 \<and>
     cnt pF \<le> fifo_depth pF \<and> rd_idx pF < fifo_depth pF \<and>
     wr_idx pF = (rd_idx pF + cnt pF) mod fifo_depth pF"

definition fifo_contents :: "fifo \<Rightarrow> bytes" where
  "fifo_contents pF = ring_contents (rd_idx pF * item_size pF) (cnt pF * item_size pF) (pBuf pF)"

definition fifo_space :: "fifo \<Rightarrow> nat" where
  "fifo_space pF = fifo_depth pF - cnt pF"

definition same_shape :: "fifo \<Rightarrow> fifo \<Rightarrow> bool" where
  "same_shape f g \<longleftrightarrow> item_size f = item_size g \<and> fifo_depth f = fifo_depth g"

lemma sz_small: "n < 2 ^ 64 \<Longrightarrow> sz n = n"
  by (simp add: sz_def)

lemma sz_sub_small: "b \<le> a \<Longrightarrow> a < 2 ^ 64 \<Longrightarrow> sz_sub a b = a - b"
proof -
  assume ab: "b \<le> a" "a < 2 ^ 64"
  have "a + 2 ^ 64 - b = (a - b) + 2 ^ 64" using ab(1) by (rule add_diff_assoc2[symmetric])
  then show ?thesis using le_less_trans[OF diff_le_self ab(2), of b] by (simp only: sz_sub_def mod_add_self2 mod_less)
qed

lemma fifo_bounds:
  assumes "fifo_inv pF"
  shows "fifo_depth pF < 2 ^ 63" "wr_idx pF < fifo_depth pF"
    "n \<le> fifo_depth pF \<Longrightarrow> n * item_size pF < 2 ^ 64"
    "n \<le> fifo_depth pF \<Longrightarrow> item_size pF * n < 2 ^ 64"
proof -
  have le: "n * item_size pF \<le> length (pBuf pF)" if "n \<le> fifo_depth pF" for n
    using assms that by (simp add: fifo_inv_def)
  have pos: "0 < item_size pF" "0 < fifo_depth pF" using assms by (auto simp: fifo_inv_def)
  have "fifo_depth pF \<le> fifo_depth pF * item_size pF" using pos by simp
  also have "\<dots> < 2 ^ 63" using assms by (simp add: fifo_inv_def)
  finally show "fifo_depth pF < 2 ^ 63" .
  show "wr_idx pF < fifo_depth pF" using assms pos by (simp add: fifo_inv_def)
  show n: "n * item_size pF < 2 ^ 64" if "n \<le> fifo_depth pF"
    using le_less_trans[OF le[OF that], of "2 ^ 64"] assms by (simp add: fifo_inv_def)
  then show "n \<le> fifo_depth pF \<Longrightarrow> item_size pF * n < 2 ^ 64" by (simp add: mult.commute)
qed

text \<open>Where the free run at the write index ends, and the used run at the read index.\<close>

lemma wr_idx_cases:
  assumes "fifo_inv pF"
  shows "(rd_idx pF + cnt pF < fifo_depth pF \<and> wr_idx pF = rd_idx pF + cnt pF) \<or>
         (fifo_depth pF \<le> rd_idx pF + cnt pF \<and> wr_idx pF = rd_idx pF + cnt pF - fifo_depth pF)"
proof (cases "rd_idx pF + cnt pF < fifo_depth pF")
  case True
  then show ?thesis using assms by (simp add: fifo_inv_def)
next
  case False
  moreover from this have "rd_idx pF + cnt pF - fifo_depth pF < fifo_depth pF"
    using assms by (auto simp: fifo_inv_def)
  ultimately show ?thesis using assms by (simp add: fifo_inv_def le_mod_geq)
qed

definition free_run :: "fifo \<Rightarrow> nat" where
  "free_run pF = (if cnt pF = fifo_depth pF then 0
     else if rd_idx pF \<le> wr_idx pF then fifo_depth pF - wr_idx pF else rd_idx pF - wr_idx pF)"

definition used_run :: "fifo \<Rightarrow> nat" where
  "used_run pF = (if cnt pF = 0 then 0
     else if rd_idx pF < wr_idx pF then wr_idx pF - rd_idx pF else fifo_depth pF - rd_idx pF)"

lemma insert_setup:
  assumes "fifo_inv pF"
  shows "FIFO_insertDMA_setup (FifoH pF) = (0, Some (wr_idx pF * item_size pF), free_run pF, item_size pF)"
    and "free_run pF \<le> fifo_space pF" and "wr_idx pF + free_run pF \<le> fifo_depth pF"
    and "free_run pF = 0 \<longleftrightarrow> fifo_space pF = 0"
proof -
  note b = fifo_bounds[OF assms]
  have w: "wr_idx pF * item_size pF < 2 ^ 64" using b(2,3) by (meson less_imp_le)
  have r: "rd_idx pF < fifo_depth pF" "cnt pF \<le> fifo_depth pF" using assms by (simp_all add: fifo_inv_def)
  show "FIFO_insertDMA_setup (FifoH pF) = (0, Some (wr_idx pF * item_size pF), free_run pF, item_size pF)"
    using b(1,2) w r by (auto simp: FIFO_insertDMA_setup_def h2f_def free_run_def sz_small sz_sub_small)
  show "free_run pF \<le> fifo_space pF" "wr_idx pF + free_run pF \<le> fifo_depth pF"
    "free_run pF = 0 \<longleftrightarrow> fifo_space pF = 0"
    using wr_idx_cases[OF assms] b(2) r by (auto simp: free_run_def fifo_space_def)
qed

lemma remove_setup:
  assumes "fifo_inv pF"
  shows "FIFO_removeDMA_setup (FifoH pF) = (0, Some (rd_idx pF * item_size pF), used_run pF, item_size pF)"
    and "used_run pF \<le> cnt pF" and "rd_idx pF + used_run pF \<le> fifo_depth pF"
    and "used_run pF = 0 \<longleftrightarrow> cnt pF = 0"
proof -
  note b = fifo_bounds[OF assms]
  have r: "rd_idx pF < fifo_depth pF" "cnt pF \<le> fifo_depth pF" using assms by (simp_all add: fifo_inv_def)
  have w: "rd_idx pF * item_size pF < 2 ^ 64" using b(3) r(1) by (meson less_imp_le)
  show "FIFO_removeDMA_setup (FifoH pF) = (0, Some (rd_idx pF * item_size pF), used_run pF, item_size pF)"
    using b(1,2) w r by (auto simp: FIFO_removeDMA_setup_def h2f_def used_run_def sz_small sz_sub_small)
  show "used_run pF \<le> cnt pF" "rd_idx pF + used_run pF \<le> fifo_depth pF"
    "used_run pF = 0 \<longleftrightarrow> cnt pF = 0"
    using wr_idx_cases[OF assms] b(2) r by (auto simp: used_run_def)
qed

section \<open>One transfer\<close>

lemma insert_once:
  assumes inv: "fifo_inv pF" and n: "n \<le> free_run pF" and len: "length src = n * item_size pF"
  obtains b pF' where "mem_wr (wr_idx pF * item_size pF) src (pBuf pF) = Some b"
    and "FIFO_insertDMA_update (FifoH (pF\<lparr>pBuf := b\<rparr>)) n = Some (FifoH pF')"
    and "fifo_inv pF'" "same_shape pF' pF" "cnt pF' = cnt pF + n"
    and "fifo_contents pF' = fifo_contents pF @ src"
proof -
  note run = insert_setup[OF inv] and bnd = fifo_bounds[OF inv]
  let ?s = "item_size pF" and ?d = "fifo_depth pF"
  have i: "0 < ?s" "length (pBuf pF) = ?d * ?s" "cnt pF \<le> ?d" "rd_idx pF < ?d"
    "wr_idx pF = (rd_idx pF + cnt pF) mod ?d" "length (pBuf pF) < 2 ^ 63" using inv by (simp_all add: fifo_inv_def)
  have le: "wr_idx pF + n \<le> ?d" "cnt pF + n \<le> ?d" using n run(2,3) i(3) by (auto simp: fifo_space_def)
  have off: "wr_idx pF * ?s + length src \<le> length (pBuf pF)"
    using mult_le_mono1[OF le(1), of ?s] by (simp add: i(2) len add_mult_distrib)
  then obtain b where b: "mem_wr (wr_idx pF * ?s) src (pBuf pF) = Some b" using mem_wr_total by blast
  have lb: "length b = length (pBuf pF)" using b by (rule mem_wr_length)
  let ?F = "pF\<lparr>pBuf := b, cnt := cnt pF + n, wr_idx := (wr_idx pF + n) mod ?d,
                in_sem := snd (SEMAPHORE_putN (in_sem pF) 1)\<rparr>"
  have "FIFO_insertDMA_update (FifoH (pF\<lparr>pBuf := b\<rparr>)) n = Some (FifoH ?F)"
    using le bnd(1) i(4) by (simp add: FIFO_insertDMA_update_def h2f_def sz_small)
  moreover have "fifo_inv ?F"
    using i lb le by (simp add: fifo_inv_def mod_add_left_eq add.assoc)
  moreover have "fifo_contents ?F = fifo_contents pF @ src"
  proof -
    have "wr_idx pF * ?s = (rd_idx pF * ?s + cnt pF * ?s) mod length (pBuf pF)"
      by (simp add: i(2,5) flip: add_mult_distrib)
    moreover have "cnt pF * ?s + length src \<le> length (pBuf pF)"
      using mult_le_mono1[OF le(2), of ?s] by (simp add: i(2) len add_mult_distrib)
    moreover have "rd_idx pF * ?s < length (pBuf pF)" using i by simp
    ultimately have "ring_contents (rd_idx pF * ?s) (cnt pF * ?s + length src) b =
        ring_contents (rd_idx pF * ?s) (cnt pF * ?s) (pBuf pF) @ src"
      using ring_write[OF _ _ _ off b] by blast
    then show ?thesis by (simp add: fifo_contents_def len add_mult_distrib)
  qed
  ultimately show thesis using that[OF b] by (simp add: same_shape_def)
qed

lemma remove_once:
  assumes inv: "fifo_inv pF" and n: "n \<le> used_run pF"
  obtains pF' where "mem_rd (rd_idx pF * item_size pF) (n * item_size pF) (pBuf pF) =
      Some (take (n * item_size pF) (fifo_contents pF))"
    and "FIFO_removeDMA_update (FifoH pF) n = Some (FifoH pF')"
    and "fifo_inv pF'" "same_shape pF' pF" "cnt pF' = cnt pF - n"
    and "fifo_contents pF' = drop (n * item_size pF) (fifo_contents pF)"
proof -
  note run = remove_setup[OF inv] and bnd = fifo_bounds[OF inv]
  let ?s = "item_size pF" and ?d = "fifo_depth pF"
  have i: "0 < ?s" "length (pBuf pF) = ?d * ?s" "cnt pF \<le> ?d" "rd_idx pF < ?d"
    "wr_idx pF = (rd_idx pF + cnt pF) mod ?d" "length (pBuf pF) < 2 ^ 63" using inv by (simp_all add: fifo_inv_def)
  have le: "rd_idx pF + n \<le> ?d" "n \<le> cnt pF" using n run(2,3) by auto
  have pre: "rd_idx pF * ?s < length (pBuf pF)" "n * ?s \<le> cnt pF * ?s" "cnt pF * ?s \<le> length (pBuf pF)"
    "rd_idx pF * ?s + n * ?s \<le> length (pBuf pF)"
    using i le mult_le_mono1[OF le(1), of ?s] by (simp_all add: add_mult_distrib)
  let ?F = "pF\<lparr>rd_idx := (rd_idx pF + n) mod ?d, cnt := cnt pF - n,
                rm_sem := snd (SEMAPHORE_putN (rm_sem pF) 1)\<rparr>"
  have "FIFO_removeDMA_update (FifoH pF) n = Some (FifoH ?F)"
    using le i(3,4) bnd(1) by (simp add: FIFO_removeDMA_update_def h2f_def sz_small sz_sub_small)
  moreover have "((rd_idx pF + n) mod ?d + (cnt pF - n)) mod ?d = (rd_idx pF + cnt pF) mod ?d"
    unfolding mod_add_left_eq using le(2) by simp
  then have "fifo_inv ?F"
    using i le(2) by (simp add: fifo_inv_def)
  moreover have "fifo_contents ?F = drop (n * ?s) (fifo_contents pF)"
  proof -
    have "(rd_idx pF + n) mod ?d * ?s = (rd_idx pF * ?s + n * ?s) mod length (pBuf pF)"
      by (simp add: i(2) flip: add_mult_distrib)
    then show ?thesis
      using ring_read(2)[OF pre] by (simp add: fifo_contents_def diff_mult_distrib)
  qed
  moreover have "mem_rd (rd_idx pF * ?s) (n * ?s) (pBuf pF) = Some (take (n * ?s) (fifo_contents pF))"
    using ring_read(1)[OF pre] by (simp add: fifo_contents_def)
  ultimately show thesis using that by (simp add: same_shape_def)
qed

section \<open>The loops without blocking\<close>

lemma insert_loop_step:
  assumes inv: "fifo_inv pF" and todo: "n_todo - n_done \<noteq> 0" "free_run pF \<noteq> 0"
    and fits: "pos + (n_todo - n_done) * item_size pF \<le> length pData"
  obtains n pF' where "0 < n" "n \<le> free_run pF" "n \<le> n_todo - n_done"
    and "insert_loop evs timeout pData pos n_todo n_done pF =
         insert_loop evs timeout pData (pos + n * item_size pF) n_todo (n_done + n) pF'"
    and "fifo_inv pF'" "same_shape pF' pF" "cnt pF' = cnt pF + n" "rm_sem pF' = rm_sem pF"
    and "fifo_contents pF' = fifo_contents pF @ take (n * item_size pF) (drop pos pData)"
    and "pos + n * item_size pF + (n_todo - (n_done + n)) * item_size pF \<le> length pData"
proof -
  note su = insert_setup[OF inv] and bnd = fifo_bounds[OF inv]
  let ?s = "item_size pF"
  define n where "n = min (free_run pF) (n_todo - n_done)"
  have n: "0 < n" "n \<le> free_run pF" "n \<le> n_todo - n_done" "n \<le> fifo_depth pF"
    using todo su(3) by (auto simp: n_def)
  have nb: "sz (?s * n) = n * ?s" using bnd(4)[OF n(4)] by (simp add: sz_small mult.commute)
  have room: "pos + n * ?s \<le> length pData"
    using fits mult_le_mono1[OF n(3), of ?s] by linarith
  let ?src = "take (n * ?s) (drop pos pData)"
  have rd: "mem_rd pos (n * ?s) pData = Some ?src" "length ?src = n * ?s"
    using room by (auto simp: mem_rd_def)
  obtain b pF1 where o: "mem_wr (wr_idx pF * ?s) ?src (pBuf pF) = Some b"
    "FIFO_insertDMA_update (FifoH (pF\<lparr>pBuf := b\<rparr>)) n = Some (FifoH pF1)"
    "fifo_inv pF1" "same_shape pF1 pF" "cnt pF1 = cnt pF + n" "fifo_contents pF1 = fifo_contents pF @ ?src"
    by (rule insert_once[OF inv n(2) rd(2)])
  have "rm_sem pF1 = rm_sem pF"
    using o(2) by (auto simp: FIFO_insertDMA_update_def h2f_def split: if_splits)
  moreover have "insert_loop evs timeout pData pos n_todo n_done pF =
      insert_loop evs timeout pData (pos + n * ?s) n_todo (n_done + n) pF1"
    using todo by (subst insert_loop.simps) (simp add: su(1) n_def[symmetric] nb rd(1) o(1,2) h2f_def)
  moreover have "n * ?s + (n_todo - (n_done + n)) * ?s = (n_todo - n_done) * ?s"
    using n(3) todo(1) by (simp flip: add_mult_distrib)
  then have "pos + n * ?s + (n_todo - (n_done + n)) * ?s \<le> length pData" using fits by simp
  ultimately show thesis using that[OF n(1-3)] o(3-6) by blast
qed

lemma insert_loop_now:
  assumes "fifo_inv pF" and "n_done \<le> n_todo"
    and "pos + (n_todo - n_done) * item_size pF \<le> length pData"
  shows "\<exists>pF'. insert_loop evs 0 pData pos n_todo n_done pF =
             Some (n_done + min (n_todo - n_done) (fifo_space pF), pF') \<and>
           fifo_inv pF' \<and> same_shape pF' pF \<and>
           cnt pF' = cnt pF + min (n_todo - n_done) (fifo_space pF) \<and>
           fifo_contents pF' =
             fifo_contents pF @ take (min (n_todo - n_done) (fifo_space pF) * item_size pF) (drop pos pData)"
  using assms
proof (induction "n_todo - n_done" arbitrary: pos n_done pF rule: less_induct)
  case less
  note inv = less.prems(1)
  note su = insert_setup[OF inv] and bnd = fifo_bounds[OF inv]
  let ?s = "item_size pF"
  show ?case
  proof (cases "n_todo - n_done = 0 \<or> free_run pF = 0")
    case True
    then have "insert_loop evs 0 pData pos n_todo n_done pF = Some (n_done, pF)"
      by (subst insert_loop.simps) (auto simp: su(1))
    moreover have "min (n_todo - n_done) (fifo_space pF) = 0" using True su(4) by auto
    ultimately show ?thesis using inv by (simp add: same_shape_def)
  next
    case False
    then obtain n pF1 where n: "0 < n" "n \<le> free_run pF" "n \<le> n_todo - n_done"
      and step: "insert_loop evs 0 pData pos n_todo n_done pF =
        insert_loop evs 0 pData (pos + n * ?s) n_todo (n_done + n) pF1"
      and o: "fifo_inv pF1" "same_shape pF1 pF" "cnt pF1 = cnt pF + n" "rm_sem pF1 = rm_sem pF"
        "fifo_contents pF1 = fifo_contents pF @ take (n * ?s) (drop pos pData)"
        "pos + n * ?s + (n_todo - (n_done + n)) * ?s \<le> length pData"
      using insert_loop_step[OF inv _ _ less.prems(3), of evs 0] by metis
    have dec: "n_todo - (n_done + n) < n_todo - n_done" "n_done + n \<le> n_todo"
      using n(1,3) less.prems(2) by linarith+
    have sh: "item_size pF1 = ?s" "fifo_depth pF1 = fifo_depth pF" using o(2) by (simp_all add: same_shape_def)
    define k where "k = min (n_todo - (n_done + n)) (fifo_space pF1)"
    have k: "min (n_todo - n_done) (fifo_space pF) = n + k"
      using n su(2) o(3) sh by (auto simp: k_def fifo_space_def)
    obtain pF2 where r: "insert_loop evs 0 pData (pos + n * ?s) n_todo (n_done + n) pF1 =
          Some (n_done + n + k, pF2)" "fifo_inv pF2" "same_shape pF2 pF1" "cnt pF2 = cnt pF1 + k"
        "fifo_contents pF2 = fifo_contents pF1 @ take (k * ?s) (drop (pos + n * ?s) pData)"
      using less.hyps[OF dec(1) o(1) dec(2), of "pos + n * ?s"] o(6) sh k_def by auto
    have "take (n * ?s) (drop pos pData) @ take (k * ?s) (drop (pos + n * ?s) pData) =
        take ((n + k) * ?s) (drop pos pData)"
      unfolding add_mult_distrib by (rule take_take_drop)
    then show ?thesis
      using step r k o(2,3,5) by (auto simp: same_shape_def)
  qed
qed

lemma remove_loop_now:
  assumes "fifo_inv pF" and "n_done \<le> n_todo"
    and "pos + (n_todo - n_done) * item_size pF \<le> length dst"
  shows "\<exists>dst' pF'. remove_loop evs 0 dst pos n_todo n_done pF =
             Some (n_done + min (n_todo - n_done) (cnt pF), dst', pF') \<and>
           fifo_inv pF' \<and> same_shape pF' pF \<and> cnt pF' = cnt pF - min (n_todo - n_done) (cnt pF) \<and>
           fifo_contents pF' = drop (min (n_todo - n_done) (cnt pF) * item_size pF) (fifo_contents pF) \<and>
           length dst' = length dst \<and> take pos dst' = take pos dst \<and>
           mem_rd pos (min (n_todo - n_done) (cnt pF) * item_size pF) dst' =
             Some (take (min (n_todo - n_done) (cnt pF) * item_size pF) (fifo_contents pF))"
  using assms
proof (induction "n_todo - n_done" arbitrary: pos n_done pF dst rule: less_induct)
  case less
  note inv = less.prems(1)
  note su = remove_setup[OF inv] and bnd = fifo_bounds[OF inv]
  let ?s = "item_size pF"
  show ?case
  proof (cases "n_todo - n_done = 0 \<or> used_run pF = 0")
    case True
    then have "remove_loop evs 0 dst pos n_todo n_done pF = Some (n_done, dst, pF)"
      by (subst remove_loop.simps) (auto simp: su(1))
    moreover have "min (n_todo - n_done) (cnt pF) = 0" using True su(4) by auto
    moreover have "pos \<le> length dst" using less.prems(3) by simp
    ultimately show ?thesis using inv by (simp add: same_shape_def mem_rd_def)
  next
    case False
    define n where "n = min (n_todo - n_done) (used_run pF)"
    have n: "0 < n" "n \<le> used_run pF" "n \<le> n_todo - n_done" "n \<le> fifo_depth pF"
      using False su(3) by (auto simp: n_def)
    have dec: "n_todo - (n_done + n) < n_todo - n_done" "n_done + n \<le> n_todo"
      using n(1,3) less.prems(2) by linarith+
    have nb: "sz (?s * n) = n * ?s" using bnd(4)[OF n(4)] by (simp add: sz_small mult.commute)
    have room: "pos + n * ?s \<le> length dst"
      using less.prems(3) mult_le_mono1[OF n(3), of ?s] by linarith
    let ?src = "take (n * ?s) (fifo_contents pF)"
    obtain pF1 where o: "mem_rd (rd_idx pF * ?s) (n * ?s) (pBuf pF) = Some ?src"
      "FIFO_removeDMA_update (FifoH pF) n = Some (FifoH pF1)"
      "fifo_inv pF1" "same_shape pF1 pF" "cnt pF1 = cnt pF - n"
      "fifo_contents pF1 = drop (n * ?s) (fifo_contents pF)"
      by (rule remove_once[OF inv n(2)])
    have ls: "length ?src = n * ?s" using o(1) by (rule mem_rd_length)
    obtain dst1 where d: "mem_wr pos ?src dst = Some dst1"
      using mem_wr_total[of pos ?src dst] room ls by auto
    have step: "remove_loop evs 0 dst pos n_todo n_done pF =
        remove_loop evs 0 dst1 (pos + n * ?s) n_todo (n_done + n) pF1"
      using False by (subst remove_loop.simps) (simp add: su(1) n_def[symmetric] nb o(1,2) d h2f_def)
    have sh: "item_size pF1 = ?s" using o(4) by (simp add: same_shape_def)
    define k where "k = min (n_todo - (n_done + n)) (cnt pF1)"
    have k: "min (n_todo - n_done) (cnt pF) = n + k" using n su(2) o(5) by (auto simp: k_def)
    have fits: "pos + n * ?s + (n_todo - (n_done + n)) * ?s \<le> length dst1"
    proof -
      have "n * ?s + (n_todo - (n_done + n)) * ?s = (n_todo - n_done) * ?s"
        using n(3) less.prems(2) by (simp flip: add_mult_distrib)
      then show ?thesis using less.prems(3) mem_wr_length[OF d] by simp
    qed
    obtain dst2 pF2 where r: "remove_loop evs 0 dst1 (pos + n * ?s) n_todo (n_done + n) pF1 =
          Some (n_done + n + k, dst2, pF2)" "fifo_inv pF2" "same_shape pF2 pF1" "cnt pF2 = cnt pF1 - k"
        "fifo_contents pF2 = drop (k * ?s) (fifo_contents pF1)" "length dst2 = length dst1"
        "take (pos + n * ?s) dst2 = take (pos + n * ?s) dst1"
        "mem_rd (pos + n * ?s) (k * ?s) dst2 = Some (take (k * ?s) (fifo_contents pF1))"
      using less.hyps[OF dec(1) o(3) dec(2), of "pos + n * ?s" dst1] sh fits k_def by auto
    have "take (n * ?s) (drop pos dst2) = ?src"
    proof -
      have "take (n * ?s) (drop pos dst2) = drop pos (take (pos + n * ?s) dst2)"
        by (simp add: drop_take)
      also have "\<dots> = take (n * ?s) (drop pos dst1)" unfolding r(7) by (simp add: drop_take)
      finally show ?thesis using mem_rd_wr_same[OF d] ls by (auto simp: mem_rd_def split: if_splits)
    qed
    moreover have "take (k * ?s) (drop (pos + n * ?s) dst2) = take (k * ?s) (drop (n * ?s) (fifo_contents pF))"
      using r(8) o(6) by (auto simp: mem_rd_def split: if_splits)
    ultimately have "take ((n + k) * ?s) (drop pos dst2) = take ((n + k) * ?s) (fifo_contents pF)"
      unfolding add_mult_distrib take_take_drop[where p = pos and xs = dst2, symmetric]
        take_take_drop[where p = 0 and xs = "fifo_contents pF", simplified, symmetric] by simp
    moreover have "pos + (n + k) * ?s \<le> length dst2"
      using r(8) by (simp add: mem_rd_def add_mult_distrib add.assoc split: if_splits)
    moreover have "take pos dst2 = take pos dst"
    proof -
      have "take pos dst2 = take pos (take (pos + n * ?s) dst2)" by simp
      also have "\<dots> = take pos dst1" unfolding r(7) by simp
      finally show ?thesis using mem_wr_take[OF d, of pos] by simp
    qed
    moreover have "length dst2 = length dst" using r(6) mem_wr_length[OF d] by simp
    moreover have "drop (k * ?s) (drop (n * ?s) (fifo_contents pF)) = drop ((n + k) * ?s) (fifo_contents pF)"
      by (simp add: add_mult_distrib add.commute)
    ultimately show ?thesis
      using step r(1-5) k o(4,5,6) by (auto simp: same_shape_def mem_rd_def)
  qed
qed

lemma length_fifo_contents: "fifo_inv pF \<Longrightarrow> length (fifo_contents pF) = cnt pF * item_size pF"
  by (simp add: fifo_contents_def length_ring_contents fifo_inv_def)

lemma fifo_create_inv:
  assumes "FIFO_create alloc name isize depth use_mutex = FifoH pF" "0 < isize" "0 < depth" "depth * isize < 2 ^ 63"
  shows "fifo_inv pF" "fifo_contents pF = []" "item_size pF = isize" "fifo_depth pF = depth" "cnt pF = 0"
  using assms by (auto simp: FIFO_create_def Let_def fifo_inv_def fifo_contents_def split: if_splits)

section \<open>The fifo of bytes as a bounded queue\<close>

text \<open>The two calls as its clients use them on a fifo of bytes: the result as a count.\<close>

definition byte_fifo :: "fifo \<Rightarrow> bool" where
  "byte_fifo pF \<longleftrightarrow> fifo_inv pF \<and> item_size pF = 1 \<and> fifo_depth pF < 2 ^ 31"

definition fifo_put :: "fifo \<Rightarrow> bytes \<Rightarrow> nat \<times> fifo" where
  "fifo_put pF xs =
     (case FIFO_insert (FifoH pF) xs (length xs) of
        Some (r, FifoH pF') \<Rightarrow> (nat r, pF') | _ \<Rightarrow> (0, pF))"

definition fifo_get :: "fifo \<Rightarrow> nat \<Rightarrow> bytes \<times> fifo" where
  "fifo_get pF n =
     (case FIFO_remove (FifoH pF) (replicate n 0) n of
        Some (r, dst, FifoH pF') \<Rightarrow> (take (nat r) dst, pF') | _ \<Rightarrow> ([], pF))"

lemma fifo_insert_all:
  assumes "fifo_inv pF" and "n * item_size pF \<le> length pData" and k: "k = min n (fifo_space pF)"
  shows "\<exists>pF'. FIFO_insert (FifoH pF) pData n = Some (c_int k, FifoH pF') \<and> fifo_inv pF' \<and>
           same_shape pF' pF \<and> cnt pF' = cnt pF + k \<and>
           fifo_contents pF' = fifo_contents pF @ take (k * item_size pF) pData"
  using insert_loop_now[of pF 0 n 0 pData "[]"] assms
  by (auto simp: FIFO_insert_def FIFO_insertWithTimeout_def h2f_def)

lemma fifo_remove_all:
  assumes "fifo_inv pF" and "n * item_size pF \<le> length dst" and k: "k = min n (cnt pF)"
  shows "\<exists>dst' pF'. FIFO_remove (FifoH pF) dst n = Some (c_int k, dst', FifoH pF') \<and> fifo_inv pF' \<and>
           same_shape pF' pF \<and> cnt pF' = cnt pF - k \<and> length dst' = length dst \<and>
           take (k * item_size pF) dst' = take (k * item_size pF) (fifo_contents pF) \<and>
           fifo_contents pF' = drop (k * item_size pF) (fifo_contents pF)"
  using remove_loop_now[of pF 0 n 0 dst "[]"] assms
  by (auto simp: FIFO_remove_def FIFO_removeWithTimeout_def h2f_def mem_rd_def split: if_splits)

lemma fifo_put_spec:
  assumes "byte_fifo pF" and "fifo_put pF xs = (n, pF')"
  shows "n = min (length xs) (fifo_space pF)" "byte_fifo pF'" "fifo_depth pF' = fifo_depth pF"
    "fifo_contents pF' = fifo_contents pF @ take n xs"
proof -
  have b: "fifo_inv pF" "item_size pF = 1" "fifo_depth pF < 2 ^ 31" using assms(1) by (simp_all add: byte_fifo_def)
  let ?k = "min (length xs) (fifo_space pF)"
  obtain pF1 where i: "FIFO_insert (FifoH pF) xs (length xs) = Some (c_int ?k, FifoH pF1)" "fifo_inv pF1"
    "same_shape pF1 pF" "fifo_contents pF1 = fifo_contents pF @ take ?k xs"
    using fifo_insert_all[OF b(1), of "length xs" xs ?k] b(2) by auto
  have "c_int ?k = int ?k" using b(3) by (intro c_int_small) (auto simp: fifo_space_def)
  then have "n = ?k" "pF' = pF1" using assms(2) i(1) by (simp_all add: fifo_put_def)
  then show "n = ?k" "byte_fifo pF'" "fifo_depth pF' = fifo_depth pF" "fifo_contents pF' = fifo_contents pF @ take n xs"
    using i b by (simp_all add: byte_fifo_def same_shape_def)
qed

lemma fifo_get_spec:
  assumes "byte_fifo pF" and "fifo_get pF n = (ys, pF')"
  shows "byte_fifo pF'" "fifo_depth pF' = fifo_depth pF"
    "ys = take n (fifo_contents pF)" "fifo_contents pF' = drop n (fifo_contents pF)"
proof -
  have b: "fifo_inv pF" "item_size pF = 1" "fifo_depth pF < 2 ^ 31" using assms(1) by (simp_all add: byte_fifo_def)
  let ?k = "min n (cnt pF)"
  obtain d pF1 where i: "FIFO_remove (FifoH pF) (replicate n 0) n = Some (c_int ?k, d, FifoH pF1)"
    "fifo_inv pF1" "same_shape pF1 pF" "take ?k d = take ?k (fifo_contents pF)"
    "fifo_contents pF1 = drop ?k (fifo_contents pF)"
    using fifo_remove_all[OF b(1), of n "replicate n 0" ?k] b(2) by auto
  have "cnt pF \<le> fifo_depth pF" using b(1) by (simp add: fifo_inv_def)
  then have "c_int ?k = int ?k" using b(3) by (intro c_int_small) auto
  then have e: "ys = take ?k d" "pF' = pF1" using assms(2) i(1) by (simp_all add: fifo_get_def)
  have len: "length (fifo_contents pF) = cnt pF" using length_fifo_contents[OF b(1)] b(2) by simp
  show "byte_fifo pF'" "fifo_depth pF' = fifo_depth pF"
    using e i b by (simp_all add: byte_fifo_def same_shape_def)
  show "ys = take n (fifo_contents pF)" "fifo_contents pF' = drop n (fifo_contents pF)"
    using e i(4,5) len by (cases "n \<le> cnt pF"; simp add: min_def)+
qed

interpretation fq: bounded_queue byte_fifo fifo_contents fifo_depth fifo_put fifo_get
proof unfold_locales
  fix pF xs n ys pF'
  assume b: "byte_fifo pF"
  have len: "length (fifo_contents pF) = cnt pF" and le: "cnt pF \<le> fifo_depth pF"
    using b by (simp_all add: byte_fifo_def length_fifo_contents) (simp add: fifo_inv_def)
  show "length (fifo_contents pF) \<le> fifo_depth pF" using len le by simp
  show "fifo_put pF xs = (n, pF') \<Longrightarrow> byte_fifo pF' \<and> fifo_depth pF' = fifo_depth pF"
    using fifo_put_spec[OF b] by blast
  show "fifo_put pF xs = (n, pF') \<Longrightarrow>
      n \<le> length xs \<and> fifo_contents pF' = fifo_contents pF @ take n xs"
    using fifo_put_spec[OF b] by (metis min.cobounded1)
  show "length (fifo_contents pF) + length xs \<le> fifo_depth pF \<Longrightarrow> fst (fifo_put pF xs) = length xs"
    using fifo_put_spec(1)[OF b, of xs] len by (cases "fifo_put pF xs") (auto simp: fifo_space_def)
  show "fifo_get pF n = (ys, pF') \<Longrightarrow> byte_fifo pF' \<and> fifo_depth pF' = fifo_depth pF"
    using fifo_get_spec[OF b] by blast
  show "fifo_get pF n = (ys, pF') \<Longrightarrow>
      ys = take n (fifo_contents pF) \<and> fifo_contents pF' = drop n (fifo_contents pF)"
    using fifo_get_spec[OF b] by blast
qed

section \<open>Blocking inserts\<close>

text \<open>What a reader does to a full fifo while the writer waits: it takes at least one item, and
  \<^verbatim>\<open>FIFO_removeDMA_update\<close> posts the semaphore.\<close>

definition makes_room :: "(fifo \<Rightarrow> fifo) \<Rightarrow> bool" where
  "makes_room e \<longleftrightarrow>
     (\<forall>f. fifo_inv f \<and> cnt f = fifo_depth f \<and> rm_sem f \<noteq> SemNull \<and> rm_sem f \<noteq> SemForeign \<longrightarrow>
        fifo_inv (e f) \<and> same_shape (e f) f \<and> cnt (e f) < fifo_depth f \<and> 0 < sem_units (rm_sem (e f)))"

lemma sem_try_units:
  "0 < sem_units h \<Longrightarrow> \<exists>h'. SEMAPHORE_waitNWithTimeout h [0] 0 = (1, h') \<and> h' \<noteq> SemNull"
  by (auto simp: SEMAPHORE_waitNWithTimeout_def sem_h2pS_def sem_units_def ATOMIC_sem_get_def
      split: sem_handle.splits)

lemma sem_try_empty:
  "sem_units h = 0 \<Longrightarrow> \<exists>pS. h = SemH pS \<Longrightarrow> fst (SEMAPHORE_waitNWithTimeout h [0] 0) = 0"
  by (auto simp: SEMAPHORE_waitNWithTimeout_def sem_h2pS_def sem_units_def ATOMIC_sem_get_def)

lemma fifo_inv_rm_sem [simp]: "fifo_inv (f\<lparr>rm_sem := h\<rparr>) = fifo_inv f"
  by (simp add: fifo_inv_def)

lemma sem_units_SemH: "0 < sem_units h \<Longrightarrow> SEMAPHORE_waitNWithTimeout h [0] 0 = (1, h') \<Longrightarrow> \<exists>pS. h' = SemH pS"
  by (auto simp: SEMAPHORE_waitNWithTimeout_def sem_h2pS_def sem_units_def ATOMIC_sem_get_def
      split: sem_handle.splits)

text \<open>A wait of the writer on a full fifo: a stale unit, or the next reader.\<close>

lemma wait_rm_room:
  assumes "fifo_inv pF" "cnt pF = fifo_depth pF" "rm_sem pF = SemH pS" "timeout \<noteq> 0"
    and "evs \<noteq> []" "\<forall>e\<in>set evs. makes_room e"
  obtains evs' pF' pS' where "wait_rm timeout evs pF = (1, evs', pF')" "fifo_inv pF'" "same_shape pF' pF"
    "rm_sem pF' = SemH pS'" "set evs' \<subseteq> set evs"
    "(evs' = evs \<and> cnt pF' = cnt pF) \<or> (Suc (length evs') = length evs \<and> cnt pF' < fifo_depth pF)"
proof (cases "0 < sem_units (rm_sem pF)")
  case True
  then obtain h' where "SEMAPHORE_waitNWithTimeout (rm_sem pF) [0] 0 = (1, h')" using sem_try_units by blast
  moreover from sem_units_SemH[OF True this] obtain q where "h' = SemH q" by blast
  ultimately show thesis
    using assms by (intro that[of evs "pF\<lparr>rm_sem := h'\<rparr>" q])
      (simp_all add: wait_rm_def fifo_wait_def same_shape_def)
next
  case False
  obtain r0 h0 where r0: "SEMAPHORE_waitNWithTimeout (rm_sem pF) [0] 0 = (r0, h0)" by fastforce
  have "r0 = 0" using sem_try_empty[of "rm_sem pF"] False assms(3) r0 by simp
  obtain e evs' where evs: "evs = e # evs'" using assms(5) by (cases evs) auto
  have e: "fifo_inv (e pF)" "same_shape (e pF) pF" "cnt (e pF) < fifo_depth pF" "0 < sem_units (rm_sem (e pF))"
    using assms(1,2,3,6) evs by (auto simp: makes_room_def)
  obtain h' where h': "SEMAPHORE_waitNWithTimeout (rm_sem (e pF)) [0] 0 = (1, h')"
    using sem_try_units[OF e(4)] by blast
  obtain q where "h' = SemH q" using sem_units_SemH[OF e(4) h'] by blast
  then show thesis
    using assms(4) r0 \<open>r0 = 0\<close> h' e evs
    by (intro that[of evs' "(e pF)\<lparr>rm_sem := h'\<rparr>" q])
      (auto simp: wait_rm_def fifo_wait_def same_shape_def)
qed

lemma insert_loop_blocking:
  assumes "fifo_inv pF" "n_done \<le> n_todo" "pos + (n_todo - n_done) * item_size pF \<le> length pData"
    and "timeout \<noteq> 0" "rm_sem pF = SemH pS" "\<forall>e\<in>set evs. makes_room e"
    and "n_todo - n_done \<le> length evs + (if cnt pF < fifo_depth pF then 1 else 0)"
  shows "\<exists>pF'. insert_loop evs timeout pData pos n_todo n_done pF = Some (n_todo, pF')"
  using assms
proof (induction "(length evs, n_todo - n_done, sem_units (rm_sem pF))" arbitrary: evs pos n_done pF pS
    rule: wf_induct_rule[OF wf_lex_prod[OF wf_less_than wf_lex_prod[OF wf_less_than wf_less_than]]])
  case 1
  note hyp = 1(1) and inv = 1(2) and le = 1(3) and fits = 1(4) and tm = 1(5) and sem = 1(6) and ev = 1(7) and room = 1(8)
  note su = insert_setup[OF inv]
  show ?case
  proof (cases "n_todo - n_done = 0")
    case True
    then show ?thesis using le by (subst insert_loop.simps) simp
  next
    case todo: False
    show ?thesis
    proof (cases "free_run pF = 0")
      case True
      then have full: "cnt pF = fifo_depth pF" using su(4) inv by (auto simp: fifo_space_def fifo_inv_def)
      with room todo have "evs \<noteq> []" by auto
      then obtain evs' pF' pS' where w: "wait_rm timeout evs pF = (1, evs', pF')" "fifo_inv pF'" "same_shape pF' pF"
        "rm_sem pF' = SemH pS'" "set evs' \<subseteq> set evs"
        "(evs' = evs \<and> cnt pF' = cnt pF) \<or> (Suc (length evs') = length evs \<and> cnt pF' < fifo_depth pF)"
        using wait_rm_room[OF inv full sem tm _ ev] by metis
      have eq: "insert_loop evs timeout pData pos n_todo n_done pF =
          insert_loop evs' timeout pData pos n_todo n_done pF'"
        using todo True w(1) tm sem by (subst insert_loop.simps) (simp add: su(1))
      have "((length evs', n_todo - n_done, sem_units (rm_sem pF')),
             (length evs, n_todo - n_done, sem_units (rm_sem pF))) \<in> less_than <*lex*> less_than <*lex*> less_than"
        using wait_rm_progress[OF w(1)] by auto
      then show ?thesis
        unfolding eq
        by (rule hyp[OF _ w(2) le _ tm w(4)])
          (use w(3,5,6) ev fits room full in \<open>auto simp: same_shape_def\<close>)
    next
      case False
      then obtain n pF' where n: "0 < n" "n \<le> free_run pF" "n \<le> n_todo - n_done"
        and step: "insert_loop evs timeout pData pos n_todo n_done pF =
          insert_loop evs timeout pData (pos + n * item_size pF) n_todo (n_done + n) pF'"
        and o: "fifo_inv pF'" "same_shape pF' pF" "cnt pF' = cnt pF + n" "rm_sem pF' = rm_sem pF"
          "pos + n * item_size pF + (n_todo - (n_done + n)) * item_size pF \<le> length pData"
        using insert_loop_step[OF inv todo _ fits, of evs timeout] by metis
      have "((length evs, n_todo - (n_done + n), sem_units (rm_sem pF')),
             (length evs, n_todo - n_done, sem_units (rm_sem pF))) \<in> less_than <*lex*> less_than <*lex*> less_than"
        using n by auto
      note wf = this
      have sem': "rm_sem pF' = SemH pS" using o(4) sem by simp
      show ?thesis
        unfolding step
        by (rule hyp[OF wf o(1) _ _ tm sem'])
          (use n o(2,5) ev room le in \<open>auto simp: same_shape_def split: if_splits\<close>)
    qed
  qed
qed

text \<open>The reader as the code has it: one \<^verbatim>\<open>FIFO_remove\<close> into memory of the item size.\<close>

definition reader :: "fifo \<Rightarrow> fifo" where
  "reader f = (case FIFO_remove (FifoH f) (replicate (item_size f) 0) 1 of
                 Some (_, _, FifoH f') \<Rightarrow> f' | _ \<Rightarrow> f)"

lemma remove_loop_done: "remove_loop evs t dst pos n n f = Some (n, dst, f)"
  by (subst remove_loop.simps) simp

lemma reader_makes_room: "makes_room reader"
  unfolding makes_room_def
proof (intro allI impI)
  fix f
  assume f: "fifo_inv f \<and> cnt f = fifo_depth f \<and> rm_sem f \<noteq> SemNull \<and> rm_sem f \<noteq> SemForeign"
  let ?dst = "replicate (item_size f) (0 :: u8)"
  have inv: "fifo_inv f" and full: "0 < cnt f" "cnt f = fifo_depth f" using f by (auto simp: fifo_inv_def)
  note su = remove_setup[OF inv]
  have one: "1 \<le> used_run f" using su(4) full by linarith
  obtain f1 where o: "mem_rd (rd_idx f * item_size f) (1 * item_size f) (pBuf f) =
      Some (take (1 * item_size f) (fifo_contents f))"
    "FIFO_removeDMA_update (FifoH f) 1 = Some (FifoH f1)" "fifo_inv f1" "same_shape f1 f" "cnt f1 = cnt f - 1"
    by (rule remove_once[OF inv one])
  have "length (take (item_size f) (fifo_contents f)) = item_size f"
    using mem_rd_length[OF o(1)] by simp
  then obtain d where d: "mem_wr 0 (take (item_size f) (fifo_contents f)) ?dst = Some d"
    using mem_wr_total[of 0 "take (item_size f) (fifo_contents f)" ?dst] by auto
  have "sz (item_size f) = item_size f"
    using fifo_bounds(3)[OF inv, of 1] full inv by (simp add: sz_small fifo_inv_def)
  then have "remove_loop [] 0 ?dst 0 1 0 f = Some (1, d, f1)"
    using one o(1,2) d
    by (subst remove_loop.simps) (simp add: su(1) min_def h2f_def remove_loop_done)
  then have r: "reader f = f1"
    by (simp add: reader_def FIFO_remove_def FIFO_removeWithTimeout_def h2f_def)
  have "rm_sem f1 = snd (SEMAPHORE_putN (rm_sem f) 1)"
    using o(2) full by (auto simp: FIFO_removeDMA_update_def h2f_def)
  then have "0 < sem_units (rm_sem f1)"
    using f by (cases "rm_sem f")
      (auto simp: SEMAPHORE_putN_def sem_h2pS_def sem_units_def ATOMIC_sem_put_def SEM_VALUE_MAX_def)
  then show "fifo_inv (reader f) \<and> same_shape (reader f) f \<and> cnt (reader f) < fifo_depth f \<and>
      0 < sem_units (rm_sem (reader f))"
    using r o(3-5) full by simp
qed

section \<open>Two fifos\<close>

definition empty_fifo :: "nat \<Rightarrow> fifo" where
  "empty_fifo depth = \<lparr>fname = None, pBuf = replicate depth 0, item_size = 1, fifo_depth = depth,
     cnt = 0, wr_idx = 0, rd_idx = 0, has_mutex = False, in_sem = SemNull, rm_sem = SemNull\<rparr>"

text \<open>One item of two bytes in the last of three slots: the next insert wraps.\<close>

definition wrapped_fifo :: fifo where
  "wrapped_fifo = \<lparr>fname = None, pBuf = [0, 0, 0, 0, 1, 2], item_size = 2, fifo_depth = 3,
     cnt = 1, wr_idx = 0, rd_idx = 2, has_mutex = False, in_sem = SemNull, rm_sem = SemNull\<rparr>"

lemma wrapped_fifo_inv: "fifo_inv wrapped_fifo"
  by (simp add: wrapped_fifo_def fifo_inv_def)

lemma wrapped_fifo_facts: "item_size wrapped_fifo = 2" "cnt wrapped_fifo = 1" "fifo_space wrapped_fifo = 2"
  "fifo_contents wrapped_fifo = [1, 2]"
  by (simp_all add: wrapped_fifo_def fifo_space_def fifo_contents_def ring_contents_def)

lemma sint_low_byte: "sint (word_of_int c :: u8) AND 0xff = c mod 256"
proof -
  have "sint (word_of_int c :: u8) AND mask 8 = take_bit 8 (signed_take_bit 7 c)"
    by (simp add: sint_sbintrunc' take_bit_eq_mask)
  also have "\<dots> = take_bit 8 c" by (simp add: take_bit_signed_take_bit)
  finally show ?thesis by (simp add: mask_eq_exp_minus_1 take_bit_eq_mod)
qed

section \<open>Properties\<close>

text \<open>C15: A non-blocking \<^verbatim>\<open>FIFO_insert\<close> of \<open>n\<close> items of any size stores as many as there is room
  for, in one or two copies, behind the items already queued, reports that number, and keeps the
  invariant; no copy leaves the fifo buffer or the caller's data.\<close>

theorem fifo_insert_correct:
  assumes "fifo_inv pF" and "n * item_size pF \<le> length pData"
  shows "\<exists>pF'. FIFO_insert (FifoH pF) pData n = Some (c_int (min n (fifo_space pF)), FifoH pF') \<and>
           fifo_inv pF' \<and>
           fifo_contents pF' =
             fifo_contents pF @ take (min n (fifo_space pF) * item_size pF) pData"
  using fifo_insert_all[OF assms refl] by blast

theorem fifo_insert_correct_witness:
  "\<exists>pF'. FIFO_insert (FifoH wrapped_fifo) [5, 6, 7, 8, 9, 10] 3 = Some (c_int (min 3 2), FifoH pF') \<and>
     fifo_inv pF' \<and> fifo_contents pF' = [1, 2] @ take 4 [5, 6, 7, 8, 9, 10]"
  using fifo_insert_correct[OF wrapped_fifo_inv, of 3 "[5, 6, 7, 8, 9, 10]"]
  by (simp add: wrapped_fifo_facts)

text \<open>C16: A non-blocking \<^verbatim>\<open>FIFO_remove\<close> of \<open>n\<close> items writes the oldest \<open>min n cnt\<close> items to the
  start of the caller's memory, removes exactly those, reports their number and keeps the
  invariant.\<close>

theorem fifo_remove_correct:
  assumes "fifo_inv pF" and "n * item_size pF \<le> length dst"
  shows "\<exists>dst' pF'. FIFO_remove (FifoH pF) dst n = Some (c_int (min n (cnt pF)), dst', FifoH pF') \<and>
           fifo_inv pF' \<and> length dst' = length dst \<and>
           take (min n (cnt pF) * item_size pF) dst' =
             take (min n (cnt pF) * item_size pF) (fifo_contents pF) \<and>
           fifo_contents pF' = drop (min n (cnt pF) * item_size pF) (fifo_contents pF)"
  using fifo_remove_all[OF assms refl] by blast

theorem fifo_remove_correct_witness:
  "\<exists>dst' pF'. FIFO_remove (FifoH wrapped_fifo) [0, 0, 0, 0] 2 = Some (c_int (min 2 1), dst', FifoH pF') \<and>
     fifo_inv pF' \<and> length dst' = length [0 :: u8, 0, 0, 0] \<and> take 2 dst' = [1, 2] \<and> fifo_contents pF' = []"
  using fifo_remove_correct[OF wrapped_fifo_inv, of 2 "[0, 0, 0, 0]"]
  by (simp add: wrapped_fifo_facts)

text \<open>C5: Over any sequence of inserts and removes on a byte fifo that starts empty, the bytes
  removed, followed by those still queued, are the bytes accepted, in order: nothing is lost,
  repeated or reordered, however the indices wrap.\<close>

theorem fifo_order:
  assumes "FIFO_create alloc name 1 depth use_mutex = FifoH pF" and "0 < depth" and "depth < 2 ^ 31"
    and "run_queue fifo_put fifo_get ops pF = (accepted, removed, pF')"
  shows "accepted = removed @ fifo_contents pF' \<and> fifo_inv pF'"
proof -
  note c = fifo_create_inv[OF assms(1) zero_less_one assms(2)]
  have b: "byte_fifo pF" using c assms(3) by (simp add: byte_fifo_def)
  have "fifo_contents pF = []" using c assms(3) by simp
  with fq.run_order[OF b assms(4)] fq.run_inv[OF b assms(4)] show ?thesis by (simp add: byte_fifo_def)
qed

theorem fifo_order_witness:
  "case run_queue fifo_put fifo_get [Put [1, 2], Get 1, Put [3, 4, 5]] (empty_fifo 3) of
     (accepted, removed, pF') \<Rightarrow> accepted = removed @ fifo_contents pF' \<and> fifo_inv pF'"
proof -
  obtain acc out pF' where r:
    "run_queue fifo_put fifo_get [Put [1, 2], Get 1, Put [3, 4, 5]] (empty_fifo 3) = (acc, out, pF')"
    by (metis prod_cases3)
  have "FIFO_create (\<lambda>_. True) None 1 3 False = FifoH (empty_fifo 3)"
    by (simp add: FIFO_create_def empty_fifo_def)
  from fifo_order[OF this _ _ r] show ?thesis unfolding r by simp
qed

text \<open>C17: A blocking \<^verbatim>\<open>FIFO_insertWithTimeout\<close> inserts every item, whatever stale units the
  semaphore holds, as long as each wait ends with a reader having made room, as a concurrent
  \<^verbatim>\<open>FIFO_remove\<close> does; at most one wait per item is needed.\<close>

theorem fifo_insert_blocking:
  assumes "fifo_inv pF" and "n * item_size pF \<le> length pData" and "timeout \<noteq> 0"
    and "rm_sem pF = SemH pS" and "\<forall>e\<in>set evs. makes_room e" and "n \<le> length evs"
  shows "\<exists>pF'. FIFO_insertWithTimeout evs (FifoH pF) pData n timeout = Some (c_int n, FifoH pF')"
  using insert_loop_blocking[OF assms(1) _ _ assms(3,4,5), of 0 n 0 pData] assms(2,6)
  by (auto simp: FIFO_insertWithTimeout_def h2f_def)

theorem fifo_insert_blocking_witness:
  "\<exists>pF'. FIFO_insertWithTimeout [reader, reader, reader]
     (FifoH (wrapped_fifo\<lparr>rm_sem := SemH \<lparr>dbg_name = None, sem_cnt = 2\<rparr>\<rparr>)) [5, 6, 7, 8, 9, 10] 3 (-1) =
     Some (c_int 3, FifoH pF')"
  using fifo_insert_blocking[of "wrapped_fifo\<lparr>rm_sem := SemH \<lparr>dbg_name = None, sem_cnt = 2\<rparr>\<rparr>" 3
      "[5, 6, 7, 8, 9, 10]" "-1" _ "[reader, reader, reader]"] wrapped_fifo_inv reader_makes_room
  by (simp add: wrapped_fifo_facts)

text \<open>\<^verbatim>\<open>FIFO_fgetc\<close> after \<^verbatim>\<open>FIFO_fputc\<close> on an empty byte fifo returns the character put,
  reduced to 0..255, and leaves the fifo empty.\<close>

theorem fifo_fputc_fgetc:
  assumes "byte_fifo pF" and "cnt pF = 0"
  shows "\<exists>h1 h2. FIFO_fputc c (FifoH pF) = Some (c mod 256, h1) \<and>
           FIFO_fgetc b0 h1 = Some (c mod 256, h2) \<and> FIFO_getItemsAvail h2 = 0"
proof -
  have b: "fifo_inv pF" "item_size pF = 1" "fifo_depth pF < 2 ^ 31" using assms(1) by (simp_all add: byte_fifo_def)
  let ?b = "word_of_int c :: u8"
  have emp: "fifo_contents pF = []" using length_fifo_contents[OF b(1)] assms(2) by simp
  have "1 = min 1 (fifo_space pF)" using b(1) assms(2) by (auto simp: fifo_space_def fifo_inv_def)
  then obtain f1 where f1: "FIFO_insert (FifoH pF) [?b] 1 = Some (c_int 1, FifoH f1)" "fifo_inv f1"
    "same_shape f1 pF" "cnt f1 = 1" "fifo_contents f1 = [?b]"
    using fifo_insert_all[OF b(1), of 1 "[?b]" 1] b(2) emp assms(2) by auto
  obtain d f2 where f2: "FIFO_remove (FifoH f1) [b0] 1 = Some (c_int 1, d, FifoH f2)" "cnt f2 = 0"
    "length d = 1" "take 1 d = [?b]"
    using fifo_remove_all[OF f1(2), of 1 "[b0]" 1] f1(3-5) b(2) by (auto simp: same_shape_def)
  have d: "d ! 0 = ?b" using f2(3,4) by (cases d) auto
  have m: "sint ?b AND 0xff = c mod 256" by (rule sint_low_byte)
  show ?thesis
    using f1(1) f2(1,2) d m
    by (simp add: FIFO_fputc_def FIFO_fgetc_def FIFO_getItemsAvail_def h2f_def c_int_small)
qed

theorem fifo_fputc_fgetc_witness:
  "\<exists>h1 h2. FIFO_fputc 300 (FifoH (empty_fifo 2)) = Some (44, h1) \<and>
     FIFO_fgetc 9 h1 = Some (44, h2) \<and> FIFO_getItemsAvail h2 = 0"
  using fifo_fputc_fgetc[of "empty_fifo 2" 300 9]
  by (simp add: empty_fifo_def byte_fifo_def fifo_inv_def)

end
