(* ===== verification/Mt_Codec.thy ===== *)
theory Mt_Codec
  imports Prelude
begin

text \<open>
  Messages of the MT protocol and their encoding: the parts of \<^verbatim>\<open>mt_msg.c\<close> that allocate, fill,
  parse, classify, format and copy a \<^verbatim>\<open>struct mt_msg\<close>. C \<^verbatim>\<open>int\<close> fields are integers, the io buffer
  is a list of bytes (4096 of them in a message the code allocates), and an access outside it or
  through a null interface pointer is \<open>None\<close>. The reports of \<^verbatim>\<open>BUG_HERE\<close> expand to nothing and
  have no counterpart. Of an interface only the fields that configure the encoding are here.
\<close>

section \<open>Types\<close>

datatype mt_msg_type =
    MT_unknown
  | MT_sreq | MT_srsp | MT_poll | MT_areq
  | MT_sreq_stack | MT_srsp_stack | MT_poll_stack | MT_areq_stack
  | MT_sreq_frag_data | MT_sreq_frag_ack | MT_sreq_ext_status
  | MT_srsp_frag_data | MT_srsp_frag_ack | MT_srsp_ext_status
  | MT_areq_frag_data | MT_areq_frag_ack | MT_areq_ext_status

record mt_cfg =
  frame_sync :: bool
  include_chksum :: bool
  len_2bytes :: bool
  tx_frag_size :: int
  retry_max :: int
  stack_id :: int

record mt_msg =
  sequence_id :: u32
  pSrcIface :: "mt_cfg option"
  pDestIface :: "mt_cfg option"
  m_type :: mt_msg_type
  was_formatted :: bool
  expected_len :: int
  cmd0 :: int
  cmd1 :: int
  chksum :: int
  is_error :: bool
  iobuf_idx :: int
  iobuf_nvalid :: int
  iobuf_idx_max :: int
  iobuf :: bytes

text \<open>The macros of \<^verbatim>\<open>bitsnbits.h\<close>.\<close>

definition bitsXYof :: "int \<Rightarrow> nat \<Rightarrow> nat \<Rightarrow> int" where
  "bitsXYof v msb lsb = drop_bit lsb v AND (2 ^ (msb - lsb + 1) - 1)"

definition inrange :: "int \<Rightarrow> int \<Rightarrow> int \<Rightarrow> bool" where
  "inrange v lo hi = (lo \<le> v \<and> v < hi)"

text \<open>Where the payload starts; the code writes this sum out wherever it needs it.\<close>

definition hdr_len :: "mt_cfg \<Rightarrow> int" where
  "hdr_len c = (if frame_sync c then 1 else 0) + (if len_2bytes c then 2 else 1) + 1 + 1"

section \<open>Message types\<close>

definition lut_major :: "mt_msg_type list" where
  "lut_major = [MT_poll, MT_sreq, MT_areq, MT_srsp]"

definition lut_minor :: "int \<Rightarrow> mt_msg_type list option" where
  "lut_minor minor =
     (if minor = 1 then Some [MT_unknown, MT_sreq_stack, MT_areq_stack, MT_srsp_stack]
      else if minor = 2 then Some [MT_unknown, MT_sreq_frag_data, MT_areq_frag_data, MT_srsp_frag_data]
      else if minor = 3 then Some [MT_unknown, MT_sreq_frag_ack, MT_areq_frag_ack, MT_srsp_frag_ack]
      else if minor = 4 then Some [MT_unknown, MT_sreq_ext_status, MT_areq_ext_status, MT_srsp_ext_status]
      else None)"

definition MT_MSG_set_type :: "mt_msg \<Rightarrow> mt_cfg option \<Rightarrow> mt_msg" where
  "MT_MSG_set_type pMsg pMI =
     pMsg\<lparr>m_type :=
       (if cmd0 pMsg < 0 \<or> 255 < cmd0 pMsg then MT_unknown
        else let major = bitsXYof (cmd0 pMsg) 7 5 in
          if 0 \<le> major \<and> major \<le> 3 then lut_major ! nat major
          else case pMI of None \<Rightarrow> MT_unknown
               | Some c \<Rightarrow>
                   let x = hdr_len c in
                   if iobuf_nvalid pMsg < x then MT_unknown
                   else case lut_minor (bitsXYof (uint (iobuf pMsg ! nat x)) 7 3) of
                          None \<Rightarrow> MT_unknown
                        | Some lut \<Rightarrow> lut ! nat (major AND 3))\<rparr>"

definition MT_MSG_cmd0_poll :: "int \<Rightarrow> u8" where
  "MT_MSG_cmd0_poll c = word_of_int ((0 * 32) OR bitsXYof c 4 0)"

definition MT_MSG_cmd0_sreq :: "int \<Rightarrow> u8" where
  "MT_MSG_cmd0_sreq c = word_of_int ((1 * 32) OR bitsXYof c 4 0)"

definition MT_MSG_cmd0_areq :: "int \<Rightarrow> u8" where
  "MT_MSG_cmd0_areq c = word_of_int ((2 * 32) OR bitsXYof c 4 0)"

definition MT_MSG_cmd0_srsp :: "int \<Rightarrow> u8" where
  "MT_MSG_cmd0_srsp c = word_of_int ((3 * 32) OR bitsXYof c 4 0)"

section \<open>Allocation\<close>

definition IOBUF_SIZE :: nat where
  "IOBUF_SIZE = 4096"

definition MT_MSG_resetMsg :: "mt_msg \<Rightarrow> int \<Rightarrow> int \<Rightarrow> int \<Rightarrow> mt_msg" where
  "MT_MSG_resetMsg pMsg len c0 c1 =
     (let p1 = pMsg\<lparr>is_error := False, cmd0 := c0, cmd1 := c1, iobuf_idx := -1, iobuf_nvalid := 0\<rparr>
      in (MT_MSG_set_type p1 None)\<lparr>expected_len := len\<rparr>)"

text \<open>\<open>ok\<close> is the answer of \<^verbatim>\<open>calloc\<close>; the counter is the static sequence number.\<close>

definition MT_MSG_alloc :: "bool \<Rightarrow> u32 \<Rightarrow> int \<Rightarrow> int \<Rightarrow> int \<Rightarrow> mt_msg option \<times> u32" where
  "MT_MSG_alloc ok counter len c0 c1 =
     (if \<not> ok then (None, counter)
      else (Some (MT_MSG_resetMsg
              \<lparr>sequence_id = counter, pSrcIface = None, pDestIface = None, m_type = MT_unknown,
               was_formatted = False, expected_len = 0, cmd0 = 0, cmd1 = 0, chksum = 0,
               is_error = False, iobuf_idx = 0, iobuf_nvalid = 0, iobuf_idx_max = int IOBUF_SIZE,
               iobuf = replicate IOBUF_SIZE 0\<rparr> len c0 c1),
            counter + 1))"

section \<open>Writing\<close>

definition init_wr_idx :: "mt_msg \<Rightarrow> mt_msg option" where
  "init_wr_idx pMsg =
     (if 0 \<le> iobuf_idx pMsg then Some pMsg
      else do { c \<leftarrow> pDestIface pMsg; Some (pMsg\<lparr>iobuf_idx := hdr_len c\<rparr>) })"

definition MT_MSG_setDestIface :: "mt_msg \<Rightarrow> mt_cfg option \<Rightarrow> mt_msg option" where
  "MT_MSG_setDestIface pMsg pIface = init_wr_idx (pMsg\<lparr>pDestIface := pIface\<rparr>)"

definition MT_MSG_setSrcIface :: "mt_msg \<Rightarrow> mt_cfg option \<Rightarrow> mt_msg" where
  "MT_MSG_setSrcIface pMsg pIface = pMsg\<lparr>pSrcIface := pIface\<rparr>"

text \<open>The loop \<^verbatim>\<open>while(nbits)\<close>: it also ends, in error, when the buffer is full.\<close>

function wrUX_loop :: "int \<Rightarrow> u64 \<Rightarrow> mt_msg \<Rightarrow> mt_msg option" where
  "wrUX_loop nbits val pMsg =
     (if nbits = 0 then Some pMsg
      else let x = iobuf_idx pMsg in
        if \<not> inrange x 0 (iobuf_idx_max pMsg) then Some (pMsg\<lparr>is_error := True\<rparr>)
        else do {
          b \<leftarrow> mem_wr (nat x) [ucast val] (iobuf pMsg);
          wrUX_loop (nbits - 8) (drop_bit 8 val)
            (pMsg\<lparr>iobuf := b, iobuf_idx := x + 1, iobuf_nvalid := x + 1\<rparr>)
        })"
  by pat_completeness auto
termination
  by (relation "measure (\<lambda>(n, v, p). nat (iobuf_idx_max p - iobuf_idx p))") (auto simp: inrange_def)

declare wrUX_loop.simps [simp del]

definition MT_MSG_wrUX :: "mt_msg \<Rightarrow> u64 \<Rightarrow> int \<Rightarrow> mt_msg option" where
  "MT_MSG_wrUX pMsg val nbits =
     (if is_error pMsg then Some pMsg
      else do { p1 \<leftarrow> init_wr_idx pMsg; wrUX_loop nbits val p1 })"

definition MT_MSG_wrU8 :: "mt_msg \<Rightarrow> u32 \<Rightarrow> mt_msg option" where
  "MT_MSG_wrU8 pMsg val = MT_MSG_wrUX pMsg (ucast val) 8"

definition MT_MSG_wrU16 :: "mt_msg \<Rightarrow> u32 \<Rightarrow> mt_msg option" where
  "MT_MSG_wrU16 pMsg val = MT_MSG_wrUX pMsg (ucast val) 16"

definition MT_MSG_wrU32 :: "mt_msg \<Rightarrow> u32 \<Rightarrow> mt_msg option" where
  "MT_MSG_wrU32 pMsg val = MT_MSG_wrUX pMsg (ucast val) 32"

definition MT_MSG_wrU64 :: "mt_msg \<Rightarrow> u64 \<Rightarrow> mt_msg option" where
  "MT_MSG_wrU64 pMsg val = MT_MSG_wrUX pMsg val 64"

text \<open>\<open>None\<close> for the data is the null pointer, the dummy write that only advances.\<close>

definition MT_MSG_wrBuf :: "mt_msg \<Rightarrow> bytes option \<Rightarrow> nat \<Rightarrow> mt_msg option" where
  "MT_MSG_wrBuf pMsg pData nbytes =
     (if is_error pMsg then Some pMsg
      else do {
        p1 \<leftarrow> init_wr_idx pMsg;
        if nbytes = 0 then Some p1
        else if iobuf_idx_max p1 < iobuf_idx p1 + c_int nbytes then Some (p1\<lparr>is_error := True\<rparr>)
        else do {
          b \<leftarrow> (case pData of None \<Rightarrow> Some (iobuf p1)
                 | Some d \<Rightarrow> do { src \<leftarrow> mem_rd 0 nbytes d; mem_wr (nat (iobuf_idx p1)) src (iobuf p1) });
          Some (p1\<lparr>iobuf := b, iobuf_idx := iobuf_idx p1 + c_int nbytes,
                   iobuf_nvalid := iobuf_nvalid p1 + c_int nbytes\<rparr>)
        }
      })"

section \<open>Reading\<close>

definition init_rd_idx :: "mt_msg \<Rightarrow> mt_msg" where
  "init_rd_idx pMsg = (if iobuf_idx pMsg < 0 then pMsg\<lparr>iobuf_idx := 0\<rparr> else pMsg)"

definition MT_MSG_Peek_u8 :: "mt_msg \<Rightarrow> int \<Rightarrow> (int \<times> mt_msg) option" where
  "MT_MSG_Peek_u8 pMsg ofset =
     (let p1 = init_rd_idx pMsg; x = iobuf_idx p1 + ofset in
      if \<not> inrange x 0 (iobuf_nvalid p1) then Some (-1, p1)
      else do { bs \<leftarrow> mem_rd (nat x) 1 (iobuf p1); Some (uint (bs ! 0) AND 0xff, p1) })"

function rdUX_loop :: "int \<Rightarrow> int \<Rightarrow> u64 \<Rightarrow> mt_msg \<Rightarrow> (u64 \<times> mt_msg) option" where
  "rdUX_loop x nbits v pMsg =
     (if \<not> x < nbits then Some (v, pMsg)
      else let y = iobuf_idx pMsg in
        if \<not> inrange y 0 (iobuf_nvalid pMsg) then Some (-1, pMsg)
        else do {
          bs \<leftarrow> mem_rd (nat y) 1 (iobuf pMsg);
          rdUX_loop (x + 8) nbits (v OR push_bit (nat x) (ucast (bs ! 0))) (pMsg\<lparr>iobuf_idx := y + 1\<rparr>)
        })"
  by pat_completeness auto
termination
  by (relation "measure (\<lambda>(x, n, v, p). nat (n - x))") auto

declare rdUX_loop.simps [simp del]

definition MT_MSG_rdUX :: "mt_msg \<Rightarrow> int \<Rightarrow> (u64 \<times> mt_msg) option" where
  "MT_MSG_rdUX pMsg nbits =
     (if is_error pMsg then Some (0, pMsg) else rdUX_loop 0 nbits 0 (init_rd_idx pMsg))"

definition MT_MSG_rdU8 :: "mt_msg \<Rightarrow> (u8 \<times> mt_msg) option" where
  "MT_MSG_rdU8 pMsg = do { (v, p) \<leftarrow> MT_MSG_rdUX pMsg 8; Some (ucast v, p) }"

definition MT_MSG_rdU16 :: "mt_msg \<Rightarrow> (u16 \<times> mt_msg) option" where
  "MT_MSG_rdU16 pMsg = do { (v, p) \<leftarrow> MT_MSG_rdUX pMsg 16; Some (ucast v, p) }"

definition MT_MSG_rdU32 :: "mt_msg \<Rightarrow> (u32 \<times> mt_msg) option" where
  "MT_MSG_rdU32 pMsg = do { (v, p) \<leftarrow> MT_MSG_rdUX pMsg 32; Some (ucast v, p) }"

definition MT_MSG_rdU64 :: "mt_msg \<Rightarrow> (u64 \<times> mt_msg) option" where
  "MT_MSG_rdU64 pMsg = MT_MSG_rdUX pMsg 64"

text \<open>The caller's memory is passed and returned; \<open>None\<close> is the null pointer of a dummy read.\<close>

definition MT_MSG_rdBuf :: "mt_msg \<Rightarrow> bytes option \<Rightarrow> nat \<Rightarrow> (bytes option \<times> mt_msg) option" where
  "MT_MSG_rdBuf pMsg pData nbytes =
     (if is_error pMsg then Some (pData, pMsg)
      else let p1 = init_rd_idx pMsg in
        if nbytes = 0 then Some (pData, p1)
        else if iobuf_idx_max p1 < iobuf_idx p1 + c_int nbytes then Some (pData, p1\<lparr>is_error := True\<rparr>)
        else do {
          d \<leftarrow> (case pData of None \<Rightarrow> Some None
                 | Some dst \<Rightarrow> do { src \<leftarrow> mem_rd (nat (iobuf_idx p1)) nbytes (iobuf p1);
                                   dst' \<leftarrow> mem_wr 0 src dst; Some (Some dst') });
          Some (d, p1\<lparr>iobuf_idx := iobuf_idx p1 + c_int nbytes\<rparr>)
        })"

definition MT_MSG_parseComplete :: "mt_msg \<Rightarrow> mt_msg option" where
  "MT_MSG_parseComplete pMsg =
     do {
       c \<leftarrow> pSrcIface pMsg;
       Some (if iobuf_idx pMsg \<noteq> hdr_len c + expected_len pMsg then pMsg\<lparr>is_error := True\<rparr> else pMsg)
     }"

section \<open>Formatting\<close>

definition xor_bytes :: "bytes \<Rightarrow> int" where
  "xor_bytes bs = foldl (\<lambda>c b. c XOR uint b) 0 bs"

text \<open>\<open>from_src\<close> is the test \<^verbatim>\<open>tf == 'f'\<close>.\<close>

definition MT_MSG_calc_chksum :: "mt_msg \<Rightarrow> bool \<Rightarrow> int \<Rightarrow> int option" where
  "MT_MSG_calc_chksum pMsg from_src len =
     do {
       c \<leftarrow> (if from_src then pSrcIface pMsg else pDestIface pMsg);
       let x = (if frame_sync c then 1 else 0 :: int);
       bs \<leftarrow> mem_rd (nat x) (nat (len - x)) (iobuf pMsg);
       Some (xor_bytes bs AND 0xff)
     }"

definition wr_len :: "mt_cfg \<Rightarrow> mt_msg \<Rightarrow> mt_msg option" where
  "wr_len c p =
     (if len_2bytes c then MT_MSG_wrU16 p (word_of_int (expected_len p))
      else MT_MSG_wrU8 p (word_of_int (expected_len p)))"

text \<open>The four parts of \<^verbatim>\<open>MT_MSG_format_msg\<close>: index and length, header, payload, checksum.\<close>

definition fmt_start :: "mt_cfg \<Rightarrow> mt_msg \<Rightarrow> mt_msg" where
  "fmt_start c pMsg =
     (let n = hdr_len c;
          p1 = (if iobuf_idx pMsg < 0 then pMsg\<lparr>iobuf_idx := n\<rparr> else pMsg);
          p2 = (if expected_len p1 < 0 then p1\<lparr>expected_len := iobuf_idx p1 - n\<rparr> else p1)
      in p2\<lparr>iobuf_idx := 0\<rparr>)"

definition wr_header :: "mt_cfg \<Rightarrow> mt_msg \<Rightarrow> mt_msg option" where
  "wr_header c p3 =
     do {
       p4 \<leftarrow> (if frame_sync c then MT_MSG_wrU8 p3 0xfe else Some p3);
       p5 \<leftarrow> wr_len c p4;
       p6 \<leftarrow> MT_MSG_wrU8 p5 (word_of_int (cmd0 p5));
       MT_MSG_wrU8 p6 (word_of_int (cmd1 p6))
     }"

definition wr_chksum :: "mt_cfg \<Rightarrow> mt_msg \<Rightarrow> mt_msg option" where
  "wr_chksum c p9 =
     (if include_chksum c
      then do {
        k \<leftarrow> MT_MSG_calc_chksum p9 False (iobuf_nvalid p9);
        MT_MSG_wrU8 (p9\<lparr>chksum := k\<rparr>) (word_of_int k)
      }
      else Some p9)"

definition MT_MSG_format_msg :: "mt_msg \<Rightarrow> mt_msg option" where
  "MT_MSG_format_msg pMsg =
     do {
       c \<leftarrow> pDestIface pMsg;
       p7 \<leftarrow> wr_header c (fmt_start c pMsg);
       p8 \<leftarrow> MT_MSG_wrBuf p7 None (nat (expected_len p7 mod 2 ^ 64));
       wr_chksum c (p8\<lparr>iobuf_nvalid := iobuf_idx p8\<rparr>)
     }"

definition MT_MSG_reformat :: "mt_msg \<Rightarrow> mt_msg option" where
  "MT_MSG_reformat pMsg =
     do {
       cf \<leftarrow> pSrcIface pMsg;
       ct \<leftarrow> pDestIface pMsg;
       let F_start = hdr_len cf;
       let T_start = hdr_len ct;
       b \<leftarrow> (if expected_len pMsg \<noteq> 0 \<and> F_start \<noteq> T_start
              then do {
                src \<leftarrow> mem_rd (nat F_start) (nat (expected_len pMsg mod 2 ^ 64)) (iobuf pMsg);
                mem_wr (nat T_start) src (iobuf pMsg)
              }
              else Some (iobuf pMsg));
       Some (pMsg\<lparr>iobuf := b, iobuf_nvalid := T_start + expected_len pMsg,
                  iobuf_idx := T_start + expected_len pMsg\<rparr>)
     }"

section \<open>Copies\<close>

text \<open>A message with the chain of responses attached through \<^verbatim>\<open>pSrsp\<close>.\<close>

datatype msg_tree = Msg (msg_of: mt_msg) (srsp_of: "msg_tree option")

datatype clone_result = Cloned msg_tree | No_Memory | Fatal_No_Interface

text \<open>
  \<open>oks\<close> answers the allocations in order. A response whose copy fails leaves the null pointer.
\<close>

fun MT_MSG_clone :: "bool list \<Rightarrow> u32 \<Rightarrow> msg_tree \<Rightarrow> clone_result \<times> u32" where
  "MT_MSG_clone oks counter (Msg p srsp) =
     (case MT_MSG_alloc (oks \<noteq> [] \<and> hd oks) counter (expected_len p) (cmd0 p) (cmd1 p) of
        (None, ctr) \<Rightarrow> (No_Memory, ctr)
      | (Some q, ctr) \<Rightarrow>
          if pSrcIface p = None \<and> pDestIface p = None then (Fatal_No_Interface, ctr)
          else let p' = p\<lparr>sequence_id := sequence_id q, was_formatted := False\<rparr> in
            (case srsp of None \<Rightarrow> (Cloned (Msg p' None), ctr)
             | Some r \<Rightarrow>
                 (case MT_MSG_clone (tl oks) ctr r of
                    (Cloned r', ctr') \<Rightarrow> (Cloned (Msg p' (Some r')), ctr')
                  | (No_Memory, ctr') \<Rightarrow> (Cloned (Msg p' None), ctr')
                  | (Fatal_No_Interface, ctr') \<Rightarrow> (Fatal_No_Interface, ctr'))))"

section \<open>Byte order\<close>

primrec le_bytes :: "nat \<Rightarrow> u64 \<Rightarrow> bytes" where
  "le_bytes 0 v = []"
| "le_bytes (Suc n) v = ucast v # le_bytes n (drop_bit 8 v)"

primrec from_le :: "bytes \<Rightarrow> u64" where
  "from_le [] = 0"
| "from_le (b # bs) = ucast b OR push_bit 8 (from_le bs)"

lemma length_le_bytes [simp]: "length (le_bytes n v) = n"
  by (induction n arbitrary: v) auto

lemma from_le_bytes: "from_le (le_bytes n v) = take_bit (8 * n) v"
proof (induction n arbitrary: v)
  case (Suc n)
  have "ucast (ucast v :: u8) OR push_bit 8 (take_bit (8 * n) (drop_bit 8 v)) = take_bit (8 * Suc n) v"
    by (rule bit_word_eqI) (auto simp: bit_simps not_le)
  then show ?case by (simp add: Suc)
qed simp

section \<open>Well-formed messages\<close>

definition wf_msg :: "mt_msg \<Rightarrow> bool" where
  "wf_msg p \<longleftrightarrow> length (iobuf p) = IOBUF_SIZE \<and> iobuf_idx_max p = int IOBUF_SIZE"

definition overlay :: "nat \<Rightarrow> bytes \<Rightarrow> bytes \<Rightarrow> bytes" where
  "overlay i bs b = take i b @ bs @ drop (i + length bs) b"

lemma mem_wr_overlay: "i + length bs \<le> length b \<Longrightarrow> mem_wr i bs b = Some (overlay i bs b)"
  by (simp add: mem_wr_def overlay_def)

lemma length_overlay [simp]: "i + length bs \<le> length b \<Longrightarrow> length (overlay i bs b) = length b"
  by (simp add: overlay_def)

lemma overlay_overlay:
  "i + length xs + length ys \<le> length b \<Longrightarrow>
   overlay (i + length xs) ys (overlay i xs b) = overlay i (xs @ ys) b"
proof -
  assume le: "i + length xs + length ys \<le> length b"
  then have "take (i + length xs) (overlay i xs b) = take i b @ xs"
    by (simp add: overlay_def)
  moreover have "drop (i + length xs + length ys) (overlay i xs b) = drop (i + length xs + length ys) b"
    using le by (simp add: overlay_def ac_simps)
  ultimately show ?thesis by (simp add: overlay_def[of _ _ "overlay i xs b"] overlay_def[of _ "xs @ ys"] add.assoc)
qed

lemma overlay_Nil [simp]: "overlay i [] b = b"
  by (simp add: overlay_def)

lemma overlay_Cons:
  "i + Suc (length ys) \<le> length b \<Longrightarrow> overlay (Suc i) ys (overlay i [x] b) = overlay i (x # ys) b"
  using overlay_overlay[of i "[x]" ys b] by simp

lemma take_drop_overlay: "i + length bs \<le> length b \<Longrightarrow> take (length bs) (drop i (overlay i bs b)) = bs"
  by (simp add: overlay_def)

lemma take_overlay: "n \<le> i \<Longrightarrow> i \<le> length b \<Longrightarrow> take n (overlay i bs b) = take n b"
  by (simp add: overlay_def min_def)

lemma drop_overlay: "i + length bs \<le> n \<Longrightarrow> i + length bs \<le> length b \<Longrightarrow> drop n (overlay i bs b) = drop n b"
  by (simp add: overlay_def)

text \<open>The effect of a write of \<open>bs\<close> at the index.\<close>

definition put_u :: "bytes \<Rightarrow> mt_msg \<Rightarrow> mt_msg" where
  "put_u bs p = p\<lparr>iobuf := overlay (nat (iobuf_idx p)) bs (iobuf p),
                  iobuf_idx := iobuf_idx p + int (length bs),
                  iobuf_nvalid := iobuf_idx p + int (length bs)\<rparr>"

lemma wrUX_loop_ok:
  assumes "wf_msg p" "0 \<le> iobuf_idx p" "iobuf_idx p + int n \<le> int IOBUF_SIZE"
  shows "wrUX_loop (8 * int n) v p = Some (if n = 0 then p else put_u (le_bytes n v) p)"
  using assms
proof (induction n arbitrary: v p)
  case 0
  then show ?case by (simp add: wrUX_loop.simps)
next
  case (Suc n)
  let ?i = "nat (iobuf_idx p)"
  have i: "iobuf_idx p = int ?i" "?i + Suc n \<le> length (iobuf p)" using Suc.prems by (auto simp: wf_msg_def)
  let ?p = "p\<lparr>iobuf := overlay ?i [ucast v] (iobuf p), iobuf_idx := iobuf_idx p + 1, iobuf_nvalid := iobuf_idx p + 1\<rparr>"
  have wr: "mem_wr ?i [ucast v] (iobuf p) = Some (overlay ?i [ucast v] (iobuf p))"
    using i(2) by (intro mem_wr_overlay) simp
  have rng: "inrange (iobuf_idx p) 0 (iobuf_idx_max p)"
    using Suc.prems by (auto simp: wf_msg_def inrange_def)
  have e: "8 * int (Suc n) - 8 = 8 * int n" "8 * int (Suc n) \<noteq> 0" by simp_all
  have "wrUX_loop (8 * int (Suc n)) v p = wrUX_loop (8 * int n) (drop_bit 8 v) ?p"
    by (subst wrUX_loop.simps) (simp add: e rng wr Let_def del: of_nat_Suc)
  also have "\<dots> = Some (if n = 0 then ?p else put_u (le_bytes n (drop_bit 8 v)) ?p)"
    using Suc.prems i(2) by (intro Suc.IH) (auto simp: wf_msg_def)
  also have "(if n = 0 then ?p else put_u (le_bytes n (drop_bit 8 v)) ?p) = put_u (le_bytes (Suc n) v) p"
  proof -
    have "nat (iobuf_idx p + 1) = Suc ?i" using Suc.prems(2) by simp
    then show ?thesis
      using overlay_Cons[of ?i "le_bytes n (drop_bit 8 v)" "iobuf p" "ucast v"] i(2)
      by (simp add: put_u_def)
  qed
  finally show ?case by simp
qed

lemma wrUX_ok:
  assumes "wf_msg p" "\<not> is_error p" "0 \<le> iobuf_idx p" "iobuf_idx p + int n \<le> int IOBUF_SIZE" "0 < n"
  shows "MT_MSG_wrUX p v (8 * int n) = Some (put_u (le_bytes n v) p)"
  using wrUX_loop_ok[OF assms(1,3,4), of v] assms(2,3,5) by (simp add: MT_MSG_wrUX_def init_wr_idx_def)

lemma put_u_fields [simp]:
  "sequence_id (put_u bs p) = sequence_id p" "pSrcIface (put_u bs p) = pSrcIface p"
  "pDestIface (put_u bs p) = pDestIface p" "m_type (put_u bs p) = m_type p"
  "expected_len (put_u bs p) = expected_len p" "cmd0 (put_u bs p) = cmd0 p" "cmd1 (put_u bs p) = cmd1 p"
  "chksum (put_u bs p) = chksum p" "is_error (put_u bs p) = is_error p"
  "iobuf_idx (put_u bs p) = iobuf_idx p + int (length bs)"
  "iobuf_nvalid (put_u bs p) = iobuf_idx p + int (length bs)"
  "iobuf_idx_max (put_u bs p) = iobuf_idx_max p"
  "iobuf (put_u bs p) = overlay (nat (iobuf_idx p)) bs (iobuf p)"
  by (simp_all add: put_u_def)

lemma put_u_put_u:
  assumes "0 \<le> iobuf_idx p" "nat (iobuf_idx p) + length xs + length ys \<le> length (iobuf p)"
  shows "put_u ys (put_u xs p) = put_u (xs @ ys) p"
proof -
  have "nat (iobuf_idx p + int (length xs)) = nat (iobuf_idx p) + length xs" using assms(1) by simp
  then show ?thesis using overlay_overlay[OF assms(2)] by (simp add: put_u_def add.assoc)
qed

lemma wf_put_u: "wf_msg p \<Longrightarrow> 0 \<le> iobuf_idx p \<Longrightarrow> iobuf_idx p + int (length bs) \<le> int IOBUF_SIZE \<Longrightarrow> wf_msg (put_u bs p)"
  by (auto simp: wf_msg_def)

lemma wrBuf_ok:
  assumes "wf_msg p" "\<not> is_error p" "0 \<le> iobuf_idx p" "iobuf_idx p + int (length bs) \<le> int IOBUF_SIZE"
  shows "MT_MSG_wrBuf p (Some bs) (length bs) =
    Some (p\<lparr>iobuf := overlay (nat (iobuf_idx p)) bs (iobuf p), iobuf_idx := iobuf_idx p + int (length bs),
            iobuf_nvalid := iobuf_nvalid p + int (length bs)\<rparr>)"
proof -
  have c: "c_int (length bs) = int (length bs)"
    using assms(3,4) by (intro c_int_small) (simp add: IOBUF_SIZE_def)
  have "nat (iobuf_idx p) + length bs \<le> length (iobuf p)" using assms by (auto simp: wf_msg_def)
  then show ?thesis
    using assms c by (cases "bs = []")
      (auto simp: MT_MSG_wrBuf_def init_wr_idx_def mem_rd_def mem_wr_overlay wf_msg_def)
qed

lemma wrBuf_dummy:
  assumes "wf_msg p" "\<not> is_error p" "0 \<le> iobuf_idx p" "iobuf_idx p + int n \<le> int IOBUF_SIZE"
  shows "MT_MSG_wrBuf p None n =
    Some (p\<lparr>iobuf_idx := iobuf_idx p + int n, iobuf_nvalid := iobuf_nvalid p + int n\<rparr>)"
proof -
  have c: "c_int n = int n" using assms(3,4) by (intro c_int_small) (simp add: IOBUF_SIZE_def)
  show ?thesis using assms c by (cases "n = 0") (auto simp: MT_MSG_wrBuf_def init_wr_idx_def wf_msg_def)
qed

section \<open>Reads\<close>

lemma rdUX_loop_ok:
  assumes "0 \<le> iobuf_idx p" "iobuf_idx p + int (length bs) \<le> iobuf_nvalid p"
    and "nat (iobuf_idx p) + length bs \<le> length (iobuf p)"
    and "take (length bs) (drop (nat (iobuf_idx p)) (iobuf p)) = bs"
  shows "rdUX_loop (8 * int i) (8 * int (i + length bs)) v p =
    Some (v OR push_bit (8 * i) (from_le bs), p\<lparr>iobuf_idx := iobuf_idx p + int (length bs)\<rparr>)"
  using assms
proof (induction bs arbitrary: i v p)
  case Nil
  then show ?case by (simp add: rdUX_loop.simps)
next
  case (Cons b bs)
  let ?i = "nat (iobuf_idx p)"
  have d: "drop ?i (iobuf p) = b # drop (Suc ?i) (iobuf p)"
  proof -
    have "?i < length (iobuf p)" using Cons.prems(3) by simp
    then have "drop ?i (iobuf p) = iobuf p ! ?i # drop (Suc ?i) (iobuf p)" by (simp add: Cons_nth_drop_Suc)
    then show ?thesis using Cons.prems(4) by simp
  qed
  have bs: "take (length bs) (drop (Suc ?i) (iobuf p)) = bs" using Cons.prems(4) d by simp
  have "inrange (iobuf_idx p) 0 (iobuf_nvalid p)" using Cons.prems by (simp add: inrange_def)
  moreover have "mem_rd ?i 1 (iobuf p) = Some [b]" using Cons.prems(3) d by (simp add: mem_rd_def)
  moreover have e: "8 * int i + 8 = 8 * int (Suc i)" "8 * int i < 8 * int (i + length (b # bs))"
    "8 * int (i + length (b # bs)) = 8 * int (Suc i + length bs)" "nat (8 * int i) = 8 * i" by simp_all
  ultimately have "rdUX_loop (8 * int i) (8 * int (i + length (b # bs))) v p =
      rdUX_loop (8 * int (Suc i)) (8 * int (Suc i + length bs)) (v OR push_bit (8 * i) (ucast b))
        (p\<lparr>iobuf_idx := iobuf_idx p + 1\<rparr>)"
    by (subst rdUX_loop.simps) (simp add: e del: of_nat_Suc of_nat_add)
  also have "\<dots> = Some ((v OR push_bit (8 * i) (ucast b)) OR push_bit (8 * Suc i) (from_le bs),
      p\<lparr>iobuf_idx := iobuf_idx p + 1 + int (length bs)\<rparr>)"
    using Cons.IH[of "p\<lparr>iobuf_idx := iobuf_idx p + 1\<rparr>" "Suc i"] Cons.prems bs
    by (simp add: nat_add_distrib)
  also have "(v OR push_bit (8 * i) (ucast b)) OR push_bit (8 * Suc i) (from_le bs) =
      v OR push_bit (8 * i) (from_le (b # bs))"
    by (simp add: push_bit_or add.commute or.assoc)
  finally show ?case by (simp add: algebra_simps)
qed

lemma rdUX_ok:
  assumes "\<not> is_error p" "0 \<le> iobuf_idx p" "iobuf_idx p + int n \<le> iobuf_nvalid p"
    and "nat (iobuf_idx p) + n \<le> length (iobuf p)"
    and "take n (drop (nat (iobuf_idx p)) (iobuf p)) = bs"
  shows "MT_MSG_rdUX p (8 * int n) = Some (from_le bs, p\<lparr>iobuf_idx := iobuf_idx p + int n\<rparr>)"
proof -
  have n: "length bs = n" using assms(4,5) by auto
  show ?thesis
    using rdUX_loop_ok[of p bs 0 0] assms by (simp add: MT_MSG_rdUX_def init_rd_idx_def n)
qed

lemma rdBuf_ok:
  assumes "wf_msg p" "\<not> is_error p" "0 \<le> iobuf_idx p" "iobuf_idx p + int n \<le> int IOBUF_SIZE" "length d = n"
  shows "MT_MSG_rdBuf p (Some d) n =
    Some (Some (take n (drop (nat (iobuf_idx p)) (iobuf p))), p\<lparr>iobuf_idx := iobuf_idx p + int n\<rparr>)"
proof -
  have c: "c_int n = int n" using assms(3,4) by (intro c_int_small) (simp add: IOBUF_SIZE_def)
  have "nat (iobuf_idx p) + n \<le> length (iobuf p)" using assms by (auto simp: wf_msg_def)
  then show ?thesis
    using assms c by (cases "n = 0") (auto simp: MT_MSG_rdBuf_def init_rd_idx_def mem_rd_def mem_wr_def wf_msg_def)
qed

section \<open>Sequences of fields\<close>

datatype field = FU8 u8 | FU16 u16 | FU32 u32 | FU64 u64 | FBuf bytes

fun field_bytes :: "field \<Rightarrow> bytes" where
  "field_bytes (FU8 v) = le_bytes 1 (ucast v)"
| "field_bytes (FU16 v) = le_bytes 2 (ucast v)"
| "field_bytes (FU32 v) = le_bytes 4 (ucast v)"
| "field_bytes (FU64 v) = le_bytes 8 v"
| "field_bytes (FBuf bs) = bs"

fun wr_field :: "field \<Rightarrow> mt_msg \<Rightarrow> mt_msg option" where
  "wr_field (FU8 v) p = MT_MSG_wrU8 p (ucast v)"
| "wr_field (FU16 v) p = MT_MSG_wrU16 p (ucast v)"
| "wr_field (FU32 v) p = MT_MSG_wrU32 p v"
| "wr_field (FU64 v) p = MT_MSG_wrU64 p v"
| "wr_field (FBuf bs) p = MT_MSG_wrBuf p (Some bs) (length bs)"

text \<open>Read a field of the same kind, and for a buffer of the same length, as the given one.\<close>

fun rd_field :: "field \<Rightarrow> mt_msg \<Rightarrow> (field \<times> mt_msg) option" where
  "rd_field (FU8 _) p = do { (v, q) \<leftarrow> MT_MSG_rdU8 p; Some (FU8 v, q) }"
| "rd_field (FU16 _) p = do { (v, q) \<leftarrow> MT_MSG_rdU16 p; Some (FU16 v, q) }"
| "rd_field (FU32 _) p = do { (v, q) \<leftarrow> MT_MSG_rdU32 p; Some (FU32 v, q) }"
| "rd_field (FU64 _) p = do { (v, q) \<leftarrow> MT_MSG_rdU64 p; Some (FU64 v, q) }"
| "rd_field (FBuf bs) p =
     do { (d, q) \<leftarrow> MT_MSG_rdBuf p (Some (replicate (length bs) 0)) (length bs);
          d' \<leftarrow> d; Some (FBuf d', q) }"

fun wr_fields :: "field list \<Rightarrow> mt_msg \<Rightarrow> mt_msg option" where
  "wr_fields [] p = Some p"
| "wr_fields (f # fs) p = do { q \<leftarrow> wr_field f p; wr_fields fs q }"

fun rd_fields :: "field list \<Rightarrow> mt_msg \<Rightarrow> (field list \<times> mt_msg) option" where
  "rd_fields [] p = Some ([], p)"
| "rd_fields (f # fs) p = do { (g, q) \<leftarrow> rd_field f p; (gs, r) \<leftarrow> rd_fields fs q; Some (g # gs, r) }"

definition fields_bytes :: "field list \<Rightarrow> bytes" where
  "fields_bytes fs = concat (map field_bytes fs)"

lemma fields_bytes_simps [simp]:
  "fields_bytes [] = []" "fields_bytes (f # fs) = field_bytes f @ fields_bytes fs"
  by (simp_all add: fields_bytes_def)

text \<open>Up to the end of the last integer field: a read of it tests \<^verbatim>\<open>iobuf_nvalid\<close>.\<close>

fun is_buf :: "field \<Rightarrow> bool" where
  "is_buf (FBuf _) = True"
| "is_buf _ = False"

fun last_int :: "field list \<Rightarrow> nat" where
  "last_int [] = 0"
| "last_int (f # fs) =
     (if is_buf f \<and> last_int fs = 0 then 0 else length (field_bytes f) + last_int fs)"

lemma int_field_nonempty: "is_buf f \<or> 0 < length (field_bytes f)"
  by (cases f) auto

lemma wr_field_ok:
  assumes "wf_msg p" "\<not> is_error p" "0 \<le> iobuf_idx p"
    and "iobuf_idx p + int (length (field_bytes f)) \<le> int IOBUF_SIZE"
  shows "wr_field f p = Some ((put_u (field_bytes f) p)\<lparr>iobuf_nvalid :=
      (if is_buf f then iobuf_nvalid p else iobuf_idx p) + int (length (field_bytes f))\<rparr>)"
proof (cases f)
  case (FBuf bs)
  then show ?thesis using assms wrBuf_ok[of p bs] by (simp add: put_u_def)
next
  case (FU8 v)
  have "(ucast (ucast v :: u32) :: u64) = ucast v"
    by (rule bit_word_eqI) (auto simp: bit_simps dest: bit_imp_le_length)
  then show ?thesis
    using assms wrUX_ok[of p 1 "ucast v"] FU8 by (simp add: MT_MSG_wrU8_def put_u_def)
next
  case (FU16 v)
  have "(ucast (ucast v :: u32) :: u64) = ucast v"
    by (rule bit_word_eqI) (auto simp: bit_simps dest: bit_imp_le_length)
  then show ?thesis
    using assms wrUX_ok[of p 2 "ucast v"] FU16 by (simp add: MT_MSG_wrU16_def put_u_def)
next
  case (FU32 v)
  then show ?thesis using assms wrUX_ok[of p 4 "ucast v"] by (simp add: MT_MSG_wrU32_def put_u_def)
next
  case (FU64 v)
  then show ?thesis using assms wrUX_ok[of p 8 v] by (simp add: MT_MSG_wrU64_def put_u_def)
qed

lemma ucast_take_bits:
  "(ucast (take_bit 8 (ucast v :: u64)) :: u8) = v" for v :: u8
  by (rule bit_word_eqI) (auto simp: bit_simps)

lemma ucast_take_bits16: "(ucast (take_bit 16 (ucast v :: u64)) :: u16) = v" for v :: u16
  by (rule bit_word_eqI) (auto simp: bit_simps)

lemma ucast_take_bits32: "(ucast (take_bit 32 (ucast v :: u64)) :: u32) = v" for v :: u32
  by (rule bit_word_eqI) (auto simp: bit_simps)

lemma take_bit64: "take_bit 64 v = v" for v :: u64
  by (rule bit_word_eqI) (auto simp: bit_simps)

lemma rd_field_ok:
  assumes "wf_msg p" "\<not> is_error p" "0 \<le> iobuf_idx p"
    and fits: "iobuf_idx p + int (length (field_bytes f)) \<le> int IOBUF_SIZE"
    and nv: "is_buf f \<or> iobuf_idx p + int (length (field_bytes f)) \<le> iobuf_nvalid p"
    and bs: "take (length (field_bytes f)) (drop (nat (iobuf_idx p)) (iobuf p)) = field_bytes f"
  shows "rd_field f p = Some (f, p\<lparr>iobuf_idx := iobuf_idx p + int (length (field_bytes f))\<rparr>)"
proof -
  have len: "nat (iobuf_idx p) + length (field_bytes f) \<le> length (iobuf p)"
    using assms(1,3,4) by (auto simp: wf_msg_def)
  note rd = rdUX_ok[OF assms(2,3) _ len bs]
  show ?thesis
  proof (cases f)
    case (FBuf bs')
    then show ?thesis
      using rdBuf_ok[OF assms(1-3), of "length bs'" "replicate (length bs') 0"] fits bs by simp
  next
    case (FU8 v)
    then show ?thesis
      using rd nv from_le_bytes[of 1 "ucast v"] by (simp add: MT_MSG_rdU8_def ucast_take_bits)
  next
    case (FU16 v)
    then show ?thesis
      using rd nv from_le_bytes[of 2 "ucast v"] by (simp add: MT_MSG_rdU16_def ucast_take_bits16)
  next
    case (FU32 v)
    then show ?thesis
      using rd nv from_le_bytes[of 4 "ucast v"] by (simp add: MT_MSG_rdU32_def ucast_take_bits32)
  next
    case (FU64 v)
    then show ?thesis
      using rd nv from_le_bytes[of 8 v] by (simp add: MT_MSG_rdU64_def take_bit64)
  qed
qed

lemma wr_fields_ok:
  assumes "wf_msg p" "\<not> is_error p" "0 \<le> iobuf_idx p" "iobuf_nvalid p \<le> iobuf_idx p"
    and "iobuf_idx p + int (length (fields_bytes fs)) \<le> int IOBUF_SIZE"
  shows "\<exists>nv. wr_fields fs p = Some ((put_u (fields_bytes fs) p)\<lparr>iobuf_nvalid := nv\<rparr>) \<and>
           iobuf_nvalid p \<le> nv \<and> nv \<le> iobuf_idx p + int (length (fields_bytes fs)) \<and>
           (last_int fs = 0 \<or> iobuf_idx p + int (last_int fs) \<le> nv)"
  using assms
proof (induction fs arbitrary: p)
  case Nil
  then show ?case by (auto intro!: exI[of _ "iobuf_nvalid p"] simp: put_u_def)
next
  case (Cons f fs)
  let ?n = "length (field_bytes f)"
  let ?q = "(put_u (field_bytes f) p)\<lparr>iobuf_nvalid :=
      (if is_buf f then iobuf_nvalid p else iobuf_idx p) + int ?n\<rparr>"
  have fit: "iobuf_idx p + int ?n \<le> int IOBUF_SIZE" using Cons.prems(5) by simp
  have wr: "wr_field f p = Some ?q" by (rule wr_field_ok[OF Cons.prems(1-3) fit])
  have wf: "wf_msg ?q" using wf_put_u[OF Cons.prems(1,3) fit] by (simp add: wf_msg_def)
  have le: "iobuf_nvalid ?q \<le> iobuf_idx ?q" using Cons.prems(4) by simp
  obtain nv where nv: "wr_fields fs ?q = Some ((put_u (fields_bytes fs) ?q)\<lparr>iobuf_nvalid := nv\<rparr>)"
    "iobuf_nvalid ?q \<le> nv" "nv \<le> iobuf_idx ?q + int (length (fields_bytes fs))"
    "last_int fs = 0 \<or> iobuf_idx ?q + int (last_int fs) \<le> nv"
    using Cons.IH[OF wf _ _ le] Cons.prems by auto
  have "nat (iobuf_idx p) + ?n + length (fields_bytes fs) \<le> length (iobuf p)"
    using Cons.prems(1,3,5) by (auto simp: wf_msg_def)
  from put_u_put_u[OF Cons.prems(3) this]
  have "(put_u (fields_bytes fs) ?q)\<lparr>iobuf_nvalid := nv\<rparr> = (put_u (fields_bytes (f # fs)) p)\<lparr>iobuf_nvalid := nv\<rparr>"
    by (simp add: put_u_def)
  then have "wr_fields (f # fs) p = Some ((put_u (fields_bytes (f # fs)) p)\<lparr>iobuf_nvalid := nv\<rparr>)"
    using wr nv(1) by simp
  then show ?case
    using nv(2-4) Cons.prems(4) by (intro exI[of _ nv]) (auto split: if_splits)
qed

lemma rd_fields_ok:
  assumes "wf_msg p" "\<not> is_error p" "0 \<le> iobuf_idx p"
    and "iobuf_idx p + int (length (fields_bytes fs)) \<le> int IOBUF_SIZE"
    and "last_int fs = 0 \<or> iobuf_idx p + int (last_int fs) \<le> iobuf_nvalid p"
    and "take (length (fields_bytes fs)) (drop (nat (iobuf_idx p)) (iobuf p)) = fields_bytes fs"
  shows "rd_fields fs p = Some (fs, p\<lparr>iobuf_idx := iobuf_idx p + int (length (fields_bytes fs))\<rparr>)"
  using assms
proof (induction fs arbitrary: p)
  case Nil
  then show ?case by simp
next
  case (Cons f fs)
  let ?n = "length (field_bytes f)" and ?m = "length (fields_bytes fs)" and ?d = "drop (nat (iobuf_idx p)) (iobuf p)"
  let ?q = "p\<lparr>iobuf_idx := iobuf_idx p + int ?n\<rparr>"
  have "take ?n ?d @ take ?m (drop ?n ?d) = field_bytes f @ fields_bytes fs"
    using Cons.prems(6) by (simp add: take_add)
  moreover have "length (take ?n ?d) = ?n" using Cons.prems(1,3,4) by (auto simp: wf_msg_def)
  ultimately have hd: "take ?n ?d = field_bytes f" and tl: "take ?m (drop ?n ?d) = fields_bytes fs"
    by (metis append_eq_append_conv)+
  have "rd_field f p = Some (f, ?q)"
    using Cons.prems(4,5) hd int_field_nonempty[of f]
    by (intro rd_field_ok[OF Cons.prems(1-3)]) (auto split: if_splits)
  moreover have "rd_fields fs ?q = Some (fs, ?q\<lparr>iobuf_idx := iobuf_idx ?q + int ?m\<rparr>)"
  proof (rule Cons.IH)
    show "last_int fs = 0 \<or> iobuf_idx ?q + int (last_int fs) \<le> iobuf_nvalid ?q"
      using Cons.prems(5) by (auto split: if_splits)
    have "nat (iobuf_idx p + int ?n) = nat (iobuf_idx p) + ?n" using Cons.prems(3) by simp
    then show "take ?m (drop (nat (iobuf_idx ?q)) (iobuf ?q)) = fields_bytes fs"
      using tl by (simp add: add.commute)
  qed (use Cons.prems in \<open>auto simp: wf_msg_def\<close>)
  ultimately show ?case by (simp add: add.assoc)
qed

lemma wrUX_loop_safe:
  assumes "wf_msg p" "0 \<le> iobuf_idx p"
  shows "\<exists>q. wrUX_loop nbits v p = Some q \<and> wf_msg q"
  using assms
proof (induction nbits v p rule: wrUX_loop.induct)
  case (1 nbits v p)
  show ?case
  proof (cases "nbits = 0 \<or> \<not> inrange (iobuf_idx p) 0 (iobuf_idx_max p)")
    case True
    then show ?thesis using 1(2) by (subst wrUX_loop.simps) (auto simp: wf_msg_def Let_def)
  next
    case False
    then have i: "nat (iobuf_idx p) + length [ucast v :: u8] \<le> length (iobuf p)"
      using 1(2,3) by (auto simp: wf_msg_def inrange_def)
    note wr = mem_wr_overlay[OF i]
    let ?p = "p\<lparr>iobuf := overlay (nat (iobuf_idx p)) [ucast v] (iobuf p), iobuf_idx := iobuf_idx p + 1,
                iobuf_nvalid := iobuf_idx p + 1\<rparr>"
    have "wf_msg ?p" "0 \<le> iobuf_idx ?p" using 1(2,3) i by (auto simp: wf_msg_def)
    then have "\<exists>q. wrUX_loop (nbits - 8) (drop_bit 8 v) ?p = Some q \<and> wf_msg q"
      using 1(1)[OF _ refl] False wr by auto
    moreover have "wrUX_loop nbits v p = wrUX_loop (nbits - 8) (drop_bit 8 v) ?p"
      using False wr by (subst wrUX_loop.simps) (simp add: Let_def)
    ultimately show ?thesis by simp
  qed
qed

lemma init_wr_idx_safe:
  assumes "wf_msg p" "0 \<le> iobuf_idx p \<or> pDestIface p \<noteq> None"
  shows "\<exists>q. init_wr_idx p = Some q \<and> wf_msg q \<and> 0 \<le> iobuf_idx q \<and> is_error q = is_error p"
  using assms by (auto simp: init_wr_idx_def wf_msg_def hdr_len_def)

lemma wrUX_safe:
  assumes "wf_msg p" "0 \<le> iobuf_idx p \<or> pDestIface p \<noteq> None"
  shows "\<exists>q. MT_MSG_wrUX p v nbits = Some q \<and> wf_msg q"
proof -
  obtain q where "init_wr_idx p = Some q" "wf_msg q" "0 \<le> iobuf_idx q" using init_wr_idx_safe[OF assms] by blast
  with wrUX_loop_safe[of q nbits v] assms(1) show ?thesis by (auto simp: MT_MSG_wrUX_def)
qed

lemma wrBuf_safe:
  assumes "wf_msg p" "0 \<le> iobuf_idx p \<or> pDestIface p \<noteq> None" "length bs < 2 ^ 31"
  shows "\<exists>q. MT_MSG_wrBuf p (Some bs) (length bs) = Some q \<and> wf_msg q"
proof -
  obtain q where q: "init_wr_idx p = Some q" "wf_msg q" "0 \<le> iobuf_idx q" "is_error q = is_error p"
    using init_wr_idx_safe[OF assms(1,2)] by blast
  show ?thesis
  proof (cases "is_error p \<or> bs = [] \<or> iobuf_idx_max q < iobuf_idx q + int (length bs)")
    case True
    then show ?thesis using q assms by (auto simp: MT_MSG_wrBuf_def c_int_small wf_msg_def)
  next
    case False
    then have "nat (iobuf_idx q) + length bs \<le> length (iobuf q)" using q by (auto simp: wf_msg_def)
    then show ?thesis
      using q False assms(3) by (auto simp: MT_MSG_wrBuf_def c_int_small mem_rd_def mem_wr_overlay wf_msg_def)
  qed
qed

section \<open>A message as the sender builds it\<close>

definition sample_cfg :: mt_cfg where
  "sample_cfg = \<lparr>frame_sync = True, include_chksum = True, len_2bytes = False,
                 tx_frag_size = 240, retry_max = 3, stack_id = 0\<rparr>"

definition fresh_msg :: "mt_cfg \<Rightarrow> int \<Rightarrow> int \<Rightarrow> mt_msg" where
  "fresh_msg c c0 c1 =
     (the (fst (MT_MSG_alloc True 0 (-1) c0 c1)))\<lparr>pDestIface := Some c, iobuf_idx := hdr_len c\<rparr>"

lemma alloc_fields:
  assumes "MT_MSG_alloc ok ctr len c0 c1 = (Some p, ctr')"
  shows "wf_msg p" "\<not> is_error p" "iobuf_idx p = -1" "iobuf_nvalid p = 0" "expected_len p = len"
    "cmd0 p = c0" "cmd1 p = c1" "pSrcIface p = None" "pDestIface p = None" "sequence_id p = ctr"
  using assms
  by (auto simp: MT_MSG_alloc_def MT_MSG_resetMsg_def MT_MSG_set_type_def wf_msg_def Let_def split: if_splits)

lemma fresh_msg_fields:
  "wf_msg (fresh_msg c c0 c1)" "\<not> is_error (fresh_msg c c0 c1)" "iobuf_idx (fresh_msg c c0 c1) = hdr_len c"
  "iobuf_nvalid (fresh_msg c c0 c1) = 0" "expected_len (fresh_msg c c0 c1) = -1"
  "cmd0 (fresh_msg c c0 c1) = c0" "cmd1 (fresh_msg c c0 c1) = c1" "pDestIface (fresh_msg c c0 c1) = Some c"
proof -
  obtain p where p: "MT_MSG_alloc True 0 (-1) c0 c1 = (Some p, 0 + 1)" by (simp add: MT_MSG_alloc_def)
  note f = alloc_fields[OF p]
  have "fresh_msg c c0 c1 = p\<lparr>pDestIface := Some c, iobuf_idx := hdr_len c\<rparr>" by (simp add: fresh_msg_def p)
  then show "wf_msg (fresh_msg c c0 c1)" "\<not> is_error (fresh_msg c c0 c1)" "iobuf_idx (fresh_msg c c0 c1) = hdr_len c"
    "iobuf_nvalid (fresh_msg c c0 c1) = 0" "expected_len (fresh_msg c c0 c1) = -1"
    "cmd0 (fresh_msg c c0 c1) = c0" "cmd1 (fresh_msg c c0 c1) = c1" "pDestIface (fresh_msg c c0 c1) = Some c"
    using f by (simp_all add: wf_msg_def)
qed

section \<open>Properties\<close>

text \<open>C21: Whatever sequence of integer and buffer fields is written to a message with room for it, the
  matching reads from the same position return the same values and end at the same index; the
  bytes are little endian.\<close>

theorem wr_rd_roundtrip:
  assumes "wf_msg p" and "\<not> is_error p" and "0 \<le> iobuf_idx p" and "iobuf_nvalid p \<le> iobuf_idx p"
    and "iobuf_idx p + int (length (fields_bytes fs)) \<le> int IOBUF_SIZE"
  shows "\<exists>q. wr_fields fs p = Some q \<and> rd_fields fs (q\<lparr>iobuf_idx := iobuf_idx p\<rparr>) = Some (fs, q)"
proof -
  obtain nv where w: "wr_fields fs p = Some ((put_u (fields_bytes fs) p)\<lparr>iobuf_nvalid := nv\<rparr>)"
    "last_int fs = 0 \<or> iobuf_idx p + int (last_int fs) \<le> nv"
    using wr_fields_ok[OF assms] by blast
  let ?q = "(put_u (fields_bytes fs) p)\<lparr>iobuf_nvalid := nv\<rparr>"
  have "nat (iobuf_idx p) + length (fields_bytes fs) \<le> length (iobuf p)"
    using assms(1,3,5) by (auto simp: wf_msg_def)
  then have "rd_fields fs (?q\<lparr>iobuf_idx := iobuf_idx p\<rparr>) =
      Some (fs, ?q\<lparr>iobuf_idx := iobuf_idx p\<rparr>\<lparr>iobuf_idx := iobuf_idx p + int (length (fields_bytes fs))\<rparr>)"
    using rd_fields_ok[of "?q\<lparr>iobuf_idx := iobuf_idx p\<rparr>" fs] assms w(2) take_drop_overlay[of "nat (iobuf_idx p)" "fields_bytes fs" "iobuf p"]
    by (simp add: wf_msg_def)
  then show ?thesis using w(1) by (simp add: put_u_def)
qed

theorem wr_rd_roundtrip_witness:
  "\<exists>q. wr_fields [FU8 7, FU16 0x1234, FBuf [1, 2, 3], FU64 5] (fresh_msg sample_cfg 0x42 1) = Some q \<and>
     rd_fields [FU8 7, FU16 0x1234, FBuf [1, 2, 3], FU64 5]
       (q\<lparr>iobuf_idx := iobuf_idx (fresh_msg sample_cfg 0x42 1)\<rparr>) =
     Some ([FU8 7, FU16 0x1234, FBuf [1, 2, 3], FU64 5], q)"
  by (rule wr_rd_roundtrip) (simp_all add: fresh_msg_fields hdr_len_def sample_cfg_def IOBUF_SIZE_def)

text \<open>No write leaves the io buffer: on an allocated message with an index or a destination, a write
  of any field, at any index and also when it does not fit, ends normally and keeps the buffer and
  its limit; only buffers of \<open>2^31\<close> bytes or more are excluded.\<close>

theorem wr_field_safe:
  assumes "wf_msg p" and "0 \<le> iobuf_idx p \<or> pDestIface p \<noteq> None" and "length (field_bytes f) < 2 ^ 31"
  shows "\<exists>q. wr_field f p = Some q \<and> wf_msg q"
  using wrUX_safe[OF assms(1,2)] wrBuf_safe[OF assms(1,2)] assms(3)
  by (cases f) (auto simp: MT_MSG_wrU8_def MT_MSG_wrU16_def MT_MSG_wrU32_def MT_MSG_wrU64_def)

theorem wr_field_safe_witness:
  "\<exists>q. wr_field (FBuf (replicate 5000 1)) (fresh_msg sample_cfg 0x42 1) = Some q \<and> wf_msg q"
  using wr_field_safe[of "fresh_msg sample_cfg 0x42 1" "FBuf (replicate 5000 1)"]
  by (simp add: fresh_msg_fields)

text \<open>A read past the valid bytes is silent: with the index at or past \<^verbatim>\<open>iobuf_nvalid\<close> the integer
  reads return all ones, leave the index, and do not set \<^verbatim>\<open>is_error\<close>, although the comment of
  that field says it records underflow.\<close>

theorem rd_underflow_silent:
  assumes "\<not> is_error p" and "0 \<le> iobuf_nvalid p" and "iobuf_nvalid p \<le> iobuf_idx p"
  shows "MT_MSG_rdU8 p = Some (0xff, p) \<and> MT_MSG_rdU16 p = Some (0xffff, p) \<and>
         MT_MSG_rdU32 p = Some (0xffffffff, p)"
proof -
  have "MT_MSG_rdUX p n = Some (-1, p)" if "0 < n" for n
    using assms that by (subst MT_MSG_rdUX_def) (simp add: init_rd_idx_def rdUX_loop.simps inrange_def Let_def)
  moreover have "(ucast (-1 :: u64) :: u8) = 0xff" "(ucast (-1 :: u64) :: u16) = 0xffff"
    "(ucast (-1 :: u64) :: u32) = 0xffffffff"
    by (simp_all add: word_uint_eq_iff unsigned_ucast_eq unsigned_minus_1_eq_mask take_bit_eq_mod mask_eq_exp_minus_1)
  ultimately show ?thesis by (simp add: MT_MSG_rdU8_def MT_MSG_rdU16_def MT_MSG_rdU32_def)
qed

theorem rd_underflow_silent_witness:
  "MT_MSG_rdU8 (fresh_msg sample_cfg 0x42 1) = Some (0xff, fresh_msg sample_cfg 0x42 1) \<and>
   \<not> is_error (fresh_msg sample_cfg 0x42 1)"
  using rd_underflow_silent[of "fresh_msg sample_cfg 0x42 1"]
  by (simp add: fresh_msg_fields hdr_len_def)

end
