(* ===== verification/Mt_Frame.thy ===== *)
theory Mt_Frame
  imports Mt_Codec
begin

text \<open>
  What \<^verbatim>\<open>MT_MSG_format_msg\<close> and \<^verbatim>\<open>MT_MSG_reformat\<close> produce: the bytes of a frame as a function of
  the interface, the command bytes and the payload (\<open>mt_frame\<close>), and the proof that the code writes
  exactly these. The checksum, the forwarding between interfaces and the marking of command bytes
  follow.
\<close>

section \<open>Frames\<close>

definition xor8 :: "bytes \<Rightarrow> u8" where
  "xor8 bs = foldl (XOR) 0 bs"

definition len_bytes :: "mt_cfg \<Rightarrow> nat \<Rightarrow> bytes" where
  "len_bytes c n = (if len_2bytes c then le_bytes 2 (word_of_nat n) else le_bytes 1 (word_of_nat n))"

definition hdr_bytes :: "mt_cfg \<Rightarrow> nat \<Rightarrow> u8 \<Rightarrow> u8 \<Rightarrow> bytes" where
  "hdr_bytes c n c0 c1 = (if frame_sync c then [0xfe] else []) @ len_bytes c n @ [c0, c1]"

text \<open>What goes over the wire for a message: the abstract view of the formatted buffer.\<close>

definition mt_frame :: "mt_cfg \<Rightarrow> u8 \<Rightarrow> u8 \<Rightarrow> bytes \<Rightarrow> bytes" where
  "mt_frame c c0 c1 pl =
     hdr_bytes c (length pl) c0 c1 @ pl @
     (if include_chksum c then [xor8 (len_bytes c (length pl) @ [c0, c1] @ pl)] else [])"

lemma xor8_foldl: "foldl (XOR) a bs = a XOR xor8 bs" for a :: u8
proof (induction bs arbitrary: a)
  case (Cons b bs)
  have "xor8 (b # bs) = b XOR xor8 bs" using Cons[of b] by (simp add: xor8_def)
  then show ?case using Cons[of "a XOR b"] by (simp add: xor.assoc)
qed (simp add: xor8_def)

lemma xor8_append: "xor8 (xs @ ys) = xor8 xs XOR xor8 ys"
  using xor8_foldl[of "xor8 xs" ys] by (simp add: xor8_def)

lemma xor8_snoc_self: "xor8 (xs @ [xor8 xs]) = 0"
  by (simp add: xor8_append xor8_def[of "[xor8 xs]"])

lemma xor_bytes_xor8: "xor_bytes bs AND 0xff = uint (xor8 bs)"
proof -
  have "foldl (\<lambda>k b. k XOR uint b) (uint a) bs = uint (foldl (XOR) a bs)" for a :: u8
    by (induction bs arbitrary: a) (simp_all flip: unsigned_xor_eq)
  from this[of 0] have "xor_bytes bs = uint (xor8 bs)" by (simp add: xor_bytes_def xor8_def)
  moreover have "uint (x :: u8) AND mask 8 = uint x" for x
    using take_bit_int_eq_self[of "uint x" 8] uint_lt2p[of x] by (simp add: take_bit_eq_mask)
  ultimately show ?thesis by (simp add: mask_eq_exp_minus_1)
qed

lemma length_hdr_bytes: "int (length (hdr_bytes c n c0 c1)) = hdr_len c"
  by (simp add: hdr_bytes_def hdr_len_def len_bytes_def)

lemma hdr_len_bounds: "3 \<le> hdr_len c" "hdr_len c \<le> 5"
  by (simp_all add: hdr_len_def)

lemma wrU8_ok:
  assumes "wf_msg p" "\<not> is_error p" "0 \<le> iobuf_idx p" "iobuf_idx p + 1 \<le> int IOBUF_SIZE"
  shows "MT_MSG_wrU8 p v = Some (put_u [ucast v] p)"
proof -
  have "(ucast (ucast v :: u64) :: u8) = ucast v"
    by (rule bit_word_eqI) (auto simp: bit_simps)
  then show ?thesis using wrUX_ok[OF assms(1-3), of 1 "ucast v"] assms(4) by (simp add: MT_MSG_wrU8_def)
qed

lemma ucast_u32_u8: "(ucast (ucast x :: u32) :: u8) = x" for x :: u8
  by (rule bit_word_eqI) (auto simp: bit_simps)

lemma ucast_of_nat_u64: "(ucast (word_of_int (int n) :: u32) :: u64) = word_of_nat n" if "n < 2 ^ 32"
proof -
  have "take_bit 32 (int n) = int n" "take_bit 64 (int n) = int n"
    using that by (auto intro!: take_bit_int_eq_self)
  then show ?thesis by (simp add: word_uint_eq_iff unsigned_ucast_eq unsigned_of_nat take_bit_of_nat)
qed

lemma wr_len_ok:
  assumes "wf_msg p" "\<not> is_error p" "0 \<le> iobuf_idx p" "iobuf_idx p + 2 \<le> int IOBUF_SIZE"
    and "expected_len p = int n" "n < 2 ^ 32"
  shows "wr_len c p = Some (put_u (len_bytes c n) p)"
proof -
  note e = ucast_of_nat_u64[OF assms(6)]
  show ?thesis
    using wrUX_ok[OF assms(1-3), of 1 "word_of_nat n"] wrUX_ok[OF assms(1-3), of 2 "word_of_nat n"] assms(4,5) e
    by (auto simp: wr_len_def len_bytes_def MT_MSG_wrU8_def MT_MSG_wrU16_def)
qed

lemma length_len_bytes: "length (len_bytes c n) = (if len_2bytes c then 2 else 1)"
  by (simp add: len_bytes_def)

text \<open>The header as \<^verbatim>\<open>MT_MSG_format_msg\<close> writes it, four writes in a row.\<close>

lemma wr_header_ok:
  assumes wf: "wf_msg p" "\<not> is_error p" and idx: "iobuf_idx p = 0"
    and len: "expected_len p = int n" "n < 2 ^ 32"
  shows "wr_header c p =
         Some (put_u (hdr_bytes c n (word_of_int (cmd0 p)) (word_of_int (cmd1 p))) p)"
proof -
  have size: "int IOBUF_SIZE = 4096" "length (iobuf p) = 4096" using wf(1) by (simp_all add: wf_msg_def IOBUF_SIZE_def)
  have put: "put_u ys (put_u xs p) = put_u (xs @ ys) p" if "length xs + length ys \<le> 10" for xs ys
    using that idx size by (intro put_u_put_u) simp_all
  have keep: "wf_msg (put_u xs p)" if "length xs \<le> 10" for xs
    using that idx size by (intro wf_put_u[OF wf(1)]) simp_all
  define s where "s = (if frame_sync c then [0xfe :: u8] else [])"
  have ls: "length s \<le> 1" by (simp add: s_def)
  have nil: "put_u [] p = p\<lparr>iobuf_nvalid := 0\<rparr>" using idx by (simp add: put_u_def)
  let ?l = "len_bytes c n" and ?c0 = "word_of_int (cmd0 p) :: u8" and ?c1 = "word_of_int (cmd1 p) :: u8"
  have ll: "length ?l \<le> 2" by (simp add: length_len_bytes)
  have p5: "do { p4 \<leftarrow> (if frame_sync c then MT_MSG_wrU8 p 0xfe else Some p); wr_len c p4 } = Some (put_u (s @ ?l) p)"
  proof (cases "frame_sync c")
    case True
    have "MT_MSG_wrU8 p 0xfe = Some (put_u [0xfe] p)" using wrU8_ok[OF wf, where v = "0xfe"] idx size by simp
    moreover have "wr_len c (put_u [0xfe] p) = Some (put_u ?l (put_u [0xfe] p))"
      using wf(2) idx size len by (intro wr_len_ok keep) simp_all
    ultimately show ?thesis using True put[of "[0xfe]" ?l] ll by (simp add: s_def)
  next
    case False
    then show ?thesis using wr_len_ok[OF wf, where n = n and c = c] idx size len by (simp add: s_def)
  qed
  have w: "MT_MSG_wrU8 (put_u xs p) v = Some (put_u (xs @ [ucast v]) p)" if "length xs \<le> 9" for xs v
    using wrU8_ok[OF keep, where v = v] that wf(2) idx size put[of xs "[ucast v]"] by simp
  have u: "(ucast (word_of_int x :: u32) :: u8) = word_of_int x" for x
    by (rule bit_word_eqI) (auto simp: bit_simps)
  have p6: "MT_MSG_wrU8 (put_u (s @ ?l) p) (word_of_int (cmd0 p)) = Some (put_u ((s @ ?l) @ [?c0]) p)"
    using w[of "s @ ?l" "word_of_int (cmd0 p)"] ls ll by (simp only: u length_append)
  have p7: "MT_MSG_wrU8 (put_u ((s @ ?l) @ [?c0]) p) (word_of_int (cmd1 p)) =
      Some (put_u (((s @ ?l) @ [?c0]) @ [?c1]) p)"
    using w[of "(s @ ?l) @ [?c0]" "word_of_int (cmd1 p)"] ls ll by (simp only: u length_append) simp
  have h: "hdr_bytes c n ?c0 ?c1 = ((s @ ?l) @ [?c0]) @ [?c1]" by (simp add: hdr_bytes_def s_def)
  obtain p4 where "(if frame_sync c then MT_MSG_wrU8 p 0xfe else Some p) = Some p4"
    "wr_len c p4 = Some (put_u (s @ ?l) p)"
    using p5 by (auto simp: bind_eq_Some_conv split: if_splits)
  then show ?thesis unfolding h wr_header_def by (simp only: bind.bind_lunit put_u_fields p6 p7)
qed

text \<open>A message with its payload written, not yet formatted.\<close>

definition ready :: "mt_cfg \<Rightarrow> bytes \<Rightarrow> mt_msg \<Rightarrow> bool" where
  "ready c pl p \<longleftrightarrow>
     wf_msg p \<and> \<not> is_error p \<and> pDestIface p = Some c \<and>
     (expected_len p < 0 \<or> expected_len p = int (length pl)) \<and>
     (iobuf_idx p = hdr_len c + int (length pl) \<or> iobuf_idx p < 0 \<and> pl = []) \<and>
     hdr_len c + int (length pl) + 1 \<le> int IOBUF_SIZE \<and>
     take (length pl) (drop (nat (hdr_len c)) (iobuf p)) = pl"

lemma calc_chksum_ok:
  assumes "(if src then pSrcIface p else pDestIface p) = Some c"
    and "take (length bs) (iobuf p) = bs" "length bs \<le> length (iobuf p)" "bs \<noteq> []"
  shows "MT_MSG_calc_chksum p src (int (length bs)) =
    Some (uint (xor8 (if frame_sync c then tl bs else bs)))"
proof -
  have "mem_rd 0 (length bs) (iobuf p) = Some bs" using assms(2,3) by (simp add: mem_rd_def)
  moreover have "mem_rd 1 (length bs - 1) (iobuf p) = Some (tl bs)"
  proof -
    have "take (length bs - 1) (drop 1 (iobuf p)) = drop 1 (take (length bs) (iobuf p))" by (simp add: drop_take)
    then show ?thesis using assms(2,3,4) by (cases bs) (auto simp: mem_rd_def drop_Suc)
  qed
  moreover have "nat (int (length bs) - 1) = length bs - 1" by simp
  ultimately show ?thesis
    using assms(1) by (cases "frame_sync c") (simp_all add: MT_MSG_calc_chksum_def xor_bytes_xor8)
qed

lemma format_ok:
  assumes r: "ready c pl p"
    and F: "F = mt_frame c (word_of_int (cmd0 p)) (word_of_int (cmd1 p)) pl"
  shows "\<exists>p'. MT_MSG_format_msg p = Some p' \<and> wf_msg p' \<and> \<not> is_error p' \<and>
           iobuf_nvalid p' = int (length F) \<and> take (length F) (iobuf p') = F \<and>
           pDestIface p' = Some c \<and> expected_len p' = int (length pl) \<and> cmd0 p' = cmd0 p \<and> cmd1 p' = cmd1 p"
proof -
  let ?L = "length pl"
  let ?h = "hdr_bytes c ?L (word_of_int (cmd0 p)) (word_of_int (cmd1 p))"
  have R: "wf_msg p" "\<not> is_error p" "pDestIface p = Some c"
    "hdr_len c + int ?L + 1 \<le> int IOBUF_SIZE" "take ?L (drop (nat (hdr_len c)) (iobuf p)) = pl"
    using r by (auto simp: ready_def)
  have "int (length ?h) = hdr_len c" by (rule length_hdr_bytes)
  then have lh: "length ?h = nat (hdr_len c)" "int (length ?h) = hdr_len c" by linarith+
  have size: "length (iobuf p) = IOBUF_SIZE" "length ?h + ?L + 1 \<le> IOBUF_SIZE" "?L < 2 ^ 32"
    using R(1,4) lh(2) hdr_len_bounds(1)[of c] by (auto simp: wf_msg_def IOBUF_SIZE_def)
  define p3 where "p3 = p\<lparr>expected_len := int ?L, iobuf_idx := 0\<rparr>"
  have pre: "fmt_start c p = p3"
    using r hdr_len_bounds(1)[of c] by (cases p) (auto simp: ready_def p3_def fmt_start_def Let_def)
  let ?p7 = "put_u ?h p3"
  have hdr: "wr_header c p3 = Some ?p7"
    using wr_header_ok[of p3 ?L c] R(1,2) size(3) by (simp add: p3_def wf_msg_def)
  have wf7: "wf_msg ?p7" using size R(1) by (intro wf_put_u) (auto simp: p3_def wf_msg_def)
  let ?p9 = "?p7\<lparr>iobuf_idx := hdr_len c + int ?L, iobuf_nvalid := hdr_len c + int ?L\<rparr>"
  have buf: "MT_MSG_wrBuf ?p7 None ?L =
      Some (?p7\<lparr>iobuf_idx := hdr_len c + int ?L, iobuf_nvalid := hdr_len c + int ?L\<rparr>)"
    using wrBuf_dummy[OF wf7, of ?L] R(2,4) hdr_len_bounds(1)[of c] by (simp add: p3_def lh(2))
  have b7: "take (length ?h + ?L) (iobuf ?p7) = ?h @ pl"
  proof -
    have "drop (length ?h) (iobuf ?p7) = drop (length ?h) (iobuf p)"
      using size by (simp add: p3_def overlay_def)
    then have "take ?L (drop (length ?h) (iobuf ?p7)) = pl" using R(5) by (simp add: lh(1))
    moreover have "take (length ?h) (iobuf ?p7) = ?h" using size by (simp add: p3_def overlay_def)
    ultimately show ?thesis by (simp add: take_add)
  qed
  have "nat (expected_len ?p7 mod 2 ^ 64) = ?L" using size(2) by (simp add: p3_def IOBUF_SIZE_def)
  then have fmt: "MT_MSG_format_msg p = wr_chksum c ?p9"
    unfolding MT_MSG_format_msg_def R(3) by (simp add: pre hdr buf del: put_u_fields)
  have wf9: "wf_msg ?p9" using wf7 by (simp add: wf_msg_def)
  show ?thesis
  proof (cases "include_chksum c")
    case False
    then show ?thesis
      using fmt wf9 R b7 lh by (auto simp: wr_chksum_def F mt_frame_def p3_def)
  next
    case True
    let ?k = "xor8 (len_bytes c ?L @ [word_of_int (cmd0 p), word_of_int (cmd1 p)] @ pl)"
    have "MT_MSG_calc_chksum ?p9 False (int (length (?h @ pl))) =
        Some (uint (xor8 (if frame_sync c then tl (?h @ pl) else ?h @ pl)))"
      using b7 size R(3) by (intro calc_chksum_ok) (auto simp: p3_def hdr_bytes_def)
    moreover have "(if frame_sync c then tl (?h @ pl) else ?h @ pl) =
        len_bytes c ?L @ [word_of_int (cmd0 p), word_of_int (cmd1 p)] @ pl"
      by (simp add: hdr_bytes_def)
    moreover have "int (length (?h @ pl)) = iobuf_nvalid ?p9" by (simp add: lh(2))
    ultimately have k: "MT_MSG_calc_chksum ?p9 False (iobuf_nvalid ?p9) = Some (uint ?k)" by simp
    have "MT_MSG_wrU8 (?p9\<lparr>chksum := uint ?k\<rparr>) (word_of_int (uint ?k)) =
        Some (put_u [?k] (?p9\<lparr>chksum := uint ?k\<rparr>))"
      using wrU8_ok[of "?p9\<lparr>chksum := uint ?k\<rparr>" "word_of_int (uint ?k)"] wf9 R(2,4) hdr_len_bounds(1)[of c]
      by (simp add: p3_def wf_msg_def ucast_u32_u8)
    then have res: "MT_MSG_format_msg p = Some (put_u [?k] (?p9\<lparr>chksum := uint ?k\<rparr>))"
      using True k fmt by (simp add: wr_chksum_def del: put_u_fields)
    have Fk: "F = ?h @ pl @ [?k]" using True by (simp add: F mt_frame_def)
    have n: "nat (hdr_len c + int ?L) = length ?h + ?L" using lh(2) by linarith
    have "take (length ?h + ?L + 1) (overlay (length ?h + ?L) [?k] (iobuf ?p7)) = (?h @ pl) @ [?k]"
      using b7 wf7 size(2) by (simp add: overlay_def wf_msg_def)
    then have "take (length F) (iobuf (put_u [?k] (?p9\<lparr>chksum := uint ?k\<rparr>))) = F" by (simp add: Fk n)
    moreover have "wf_msg (put_u [?k] (?p9\<lparr>chksum := uint ?k\<rparr>))"
      using wf9 R(4) hdr_len_bounds(1)[of c] by (intro wf_put_u) (auto simp: wf_msg_def)
    ultimately show ?thesis using res R lh by (auto simp: Fk p3_def)
  qed
qed

lemma reformat_ok:
  assumes wf: "wf_msg p" and ifc: "pSrcIface p = Some cf" "pDestIface p = Some ct"
    and len: "expected_len p = int (length pl)"
    and fits: "hdr_len cf + int (length pl) \<le> int IOBUF_SIZE" "hdr_len ct + int (length pl) \<le> int IOBUF_SIZE"
    and pl: "take (length pl) (drop (nat (hdr_len cf)) (iobuf p)) = pl"
  shows "\<exists>b. MT_MSG_reformat p = Some (p\<lparr>iobuf := b, iobuf_nvalid := hdr_len ct + int (length pl),
             iobuf_idx := hdr_len ct + int (length pl)\<rparr>) \<and>
           length b = length (iobuf p) \<and> take (length pl) (drop (nat (hdr_len ct)) b) = pl"
proof -
  let ?L = "length pl" and ?f = "nat (hdr_len cf)" and ?t = "nat (hdr_len ct)"
  have h: "int ?f = hdr_len cf" "int ?t = hdr_len ct" using hdr_len_bounds(1)[of cf] hdr_len_bounds(1)[of ct] by simp_all
  have sz: "length (iobuf p) = IOBUF_SIZE" "?f + ?L \<le> IOBUF_SIZE" "?t + ?L \<le> IOBUF_SIZE"
    using wf by (simp add: wf_msg_def) (use fits h in linarith)+
  have L: "nat (expected_len p mod 2 ^ 64) = ?L" using sz(2) len by (simp add: IOBUF_SIZE_def)
  have rd: "mem_rd ?f ?L (iobuf p) = Some pl" using sz pl by (simp add: mem_rd_def)
  have wr: "mem_wr ?t pl (iobuf p) = Some (overlay ?t pl (iobuf p))" using sz by (intro mem_wr_overlay) simp
  show ?thesis
  proof (cases "expected_len p \<noteq> 0 \<and> hdr_len cf \<noteq> hdr_len ct")
    case True
    then show ?thesis
      using ifc L rd wr sz len take_drop_overlay[of ?t pl "iobuf p"]
      by (intro exI[of _ "overlay ?t pl (iobuf p)"]) (simp add: MT_MSG_reformat_def Let_def)
  next
    case False
    then show ?thesis
      using ifc len pl by (intro exI[of _ "iobuf p"]) (auto simp: MT_MSG_reformat_def Let_def)
  qed
qed

lemma cmd0_bits:
  assumes "0 \<le> k" "k < 4"
  shows "uint (word_of_int ((k * 32) OR bitsXYof c 4 0) :: u8) = k * 32 + c mod 32"
proof -
  have b: "bitsXYof c 4 0 = take_bit 5 c" by (simp add: bitsXYof_def take_bit_eq_mask mask_eq_exp_minus_1)
  have "(k * 32) OR take_bit 5 c = push_bit 5 k OR take_bit 5 c" by (simp add: push_bit_eq_mult)
  also have "\<dots> = push_bit 5 k + take_bit 5 c"
    by (rule disjunctive_add[symmetric]) (auto simp: bit_simps)
  finally have e: "(k * 32) OR bitsXYof c 4 0 = k * 32 + c mod 32"
    by (simp add: b push_bit_eq_mult take_bit_eq_mod)
  have r: "0 \<le> c mod 32" "c mod 32 < 32" by simp_all
  then have "0 \<le> k * 32 + c mod 32" "k * 32 + c mod 32 < 256" using assms by linarith+
  then show ?thesis unfolding e by (simp add: unsigned_of_int take_bit_int_eq_self del: of_int_add of_int_mult)
qed

lemma set_type_major:
  assumes "0 \<le> k" "k < 4" "cmd0 p = k * 32 + c mod 32"
  shows "m_type (MT_MSG_set_type p pMI) = lut_major ! nat k"
proof -
  have r: "0 \<le> c mod 32" "c mod 32 < 32" by simp_all
  have "bitsXYof (cmd0 p) 7 5 = (k * 32 + c mod 32) div 32 mod 8"
    using take_bit_eq_mask[of 3 "drop_bit 5 (cmd0 p)"]
    by (simp add: assms(3) bitsXYof_def drop_bit_eq_div take_bit_eq_mod mask_eq_exp_minus_1)
  also have "(k * 32 + c mod 32) div 32 = k" using r by simp
  finally have "bitsXYof (cmd0 p) 7 5 = k" using assms by simp
  moreover have "0 \<le> cmd0 p" "cmd0 p \<le> 255" using assms r by linarith+
  ultimately show ?thesis using assms(1,2) by (simp add: MT_MSG_set_type_def)
qed

lemma chksum_of_frame:
  assumes "include_chksum c" and "pSrcIface p = Some c" and "F = mt_frame c ca cb pl"
    and "take (length F) (iobuf p) = F" and "length F \<le> length (iobuf p)"
  shows "MT_MSG_calc_chksum p True (int (length F)) = Some 0"
proof -
  have "F \<noteq> []" by (simp add: assms(3) mt_frame_def hdr_bytes_def)
  moreover have "xor8 (if frame_sync c then tl F else F) = 0"
    using xor8_snoc_self[of "len_bytes c (length pl) @ [ca, cb] @ pl"] assms(1)
    by (simp add: assms(3) mt_frame_def hdr_bytes_def)
  ultimately show ?thesis using calc_chksum_ok[of True p c F] assms(2,4,5) by simp
qed

lemma built_ready:
  assumes "MT_MSG_alloc True ctr (-1) c0 c1 = (Some p0, ctr')"
    and "hdr_len c + int (length (fields_bytes fs)) < int IOBUF_SIZE"
  shows "\<exists>p1 p2. MT_MSG_setDestIface p0 (Some c) = Some p1 \<and> wr_fields fs p1 = Some p2 \<and>
           ready c (fields_bytes fs) p2 \<and> cmd0 p2 = c0 \<and> cmd1 p2 = c1"
proof -
  note f = alloc_fields[OF assms(1)]
  let ?p1 = "p0\<lparr>pDestIface := Some c, iobuf_idx := hdr_len c\<rparr>" and ?bs = "fields_bytes fs"
  have p1: "MT_MSG_setDestIface p0 (Some c) = Some ?p1" using f by (simp add: MT_MSG_setDestIface_def init_wr_idx_def)
  have h: "0 \<le> hdr_len c" using hdr_len_bounds(1)[of c] by simp
  have wf1: "wf_msg ?p1" using f(1) by (simp add: wf_msg_def)
  obtain nv where w: "wr_fields fs ?p1 = Some ((put_u ?bs ?p1)\<lparr>iobuf_nvalid := nv\<rparr>)"
    using wr_fields_ok[OF wf1, of fs] f h assms(2) by auto
  let ?p2 = "(put_u ?bs ?p1)\<lparr>iobuf_nvalid := nv\<rparr>"
  have len: "nat (hdr_len c) + length ?bs \<le> length (iobuf p0)" using f(1) assms(2) h by (auto simp: wf_msg_def)
  have "wf_msg (put_u ?bs ?p1)" using wf1 h assms(2) by (intro wf_put_u) simp_all
  then have "ready c ?bs ?p2"
    using f assms(2) take_drop_overlay[OF len] by (simp add: ready_def wf_msg_def)
  then show ?thesis using p1 w f by auto
qed

section \<open>Properties\<close>



text \<open>The checksum byte makes the exclusive or of a frame, without the sync byte, zero: the test
  the receiver applies, \<^verbatim>\<open>MT_MSG_calc_chksum\<close> over the whole buffer, accepts every frame the
  sender formats.\<close>

theorem frame_chksum_zero:
  assumes "include_chksum c" and "pSrcIface p = Some c" and "F = mt_frame c ca cb pl"
    and "take (length F) (iobuf p) = F" and "length F \<le> length (iobuf p)"
  shows "MT_MSG_calc_chksum p True (int (length F)) = Some 0"
  using assms by (rule chksum_of_frame)

theorem frame_chksum_zero_witness:
  "MT_MSG_calc_chksum ((fresh_msg sample_cfg 0x42 1)\<lparr>pSrcIface := Some sample_cfg,
     iobuf := mt_frame sample_cfg 0x42 1 [7, 8]\<rparr>) True (int (length (mt_frame sample_cfg 0x42 1 [7, 8]))) = Some 0"
  by (rule frame_chksum_zero[where c = sample_cfg and ca = "0x42" and cb = 1 and pl = "[7, 8]"])
    (simp_all add: sample_cfg_def)



text \<open>The helpers that mark a command byte and the classifier agree: a message whose command byte
  was made by \<^verbatim>\<open>MT_MSG_cmd0_poll\<close>, \<^verbatim>\<open>_sreq\<close>, \<^verbatim>\<open>_areq\<close> or \<^verbatim>\<open>_srsp\<close>, from any value, is of that type
  for \<^verbatim>\<open>MT_MSG_set_type\<close>, with or without an interface.\<close>

theorem cmd0_classified:
  "m_type (MT_MSG_set_type (p\<lparr>cmd0 := uint (MT_MSG_cmd0_poll c)\<rparr>) pMI) = MT_poll \<and>
   m_type (MT_MSG_set_type (p\<lparr>cmd0 := uint (MT_MSG_cmd0_sreq c)\<rparr>) pMI) = MT_sreq \<and>
   m_type (MT_MSG_set_type (p\<lparr>cmd0 := uint (MT_MSG_cmd0_areq c)\<rparr>) pMI) = MT_areq \<and>
   m_type (MT_MSG_set_type (p\<lparr>cmd0 := uint (MT_MSG_cmd0_srsp c)\<rparr>) pMI) = MT_srsp"
  using set_type_major[of 0 "p\<lparr>cmd0 := uint (MT_MSG_cmd0_poll c)\<rparr>" c pMI]
    set_type_major[of 1 "p\<lparr>cmd0 := uint (MT_MSG_cmd0_sreq c)\<rparr>" c pMI]
    set_type_major[of 2 "p\<lparr>cmd0 := uint (MT_MSG_cmd0_areq c)\<rparr>" c pMI]
    set_type_major[of 3 "p\<lparr>cmd0 := uint (MT_MSG_cmd0_srsp c)\<rparr>" c pMI]
    cmd0_bits[of 0 c] cmd0_bits[of 1 c] cmd0_bits[of 2 c] cmd0_bits[of 3 c]
  by (simp add: MT_MSG_cmd0_poll_def MT_MSG_cmd0_sreq_def MT_MSG_cmd0_areq_def MT_MSG_cmd0_srsp_def
      lut_major_def del: of_int_add of_int_mult)

end
