(* ===== verification/Stream.thy ===== *)
theory Stream
  imports Prelude
begin

text \<open>
  Byte streams of the gateway library: the layer of \<^verbatim>\<open>stream_common.c\<close> (push-back of one byte,
  character and line input, draining) over the method table of a driver, and the memory stream of
  \<^verbatim>\<open>stream_mem.c\<close>. A driver is a state with its \<^verbatim>\<open>rd_fn\<close> and \<^verbatim>\<open>wr_fn\<close>; a read returns the result
  code, the bytes it stored and the new state. A handle without the stream mark is \<open>None\<close>.
  The contract of a driver and that of a stream are the locales \<open>raw_source\<close> and \<open>byte_source\<close>.
\<close>

section \<open>The stream layer\<close>

record 'd io_stream =
  opaque :: 'd
  unget_buf :: int
  io_error :: bool

type_synonym 'd rd_fn = "'d \<Rightarrow> nat \<Rightarrow> int \<Rightarrow> int \<times> bytes \<times> 'd"
type_synonym 'd wr_fn = "'d \<Rightarrow> bytes \<Rightarrow> int \<Rightarrow> int \<times> 'd"

definition STREAM_createPrivate :: "bool \<Rightarrow> 'd \<Rightarrow> 'd io_stream option" where
  "STREAM_createPrivate calloc_ok d =
     (if calloc_ok then Some \<lparr>opaque = d, unget_buf = 0, io_error = False\<rparr> else None)"

definition STREAM_isError :: "'d io_stream option \<Rightarrow> bool" where
  "STREAM_isError h = (case h of None \<Rightarrow> True | Some pIO \<Rightarrow> io_error pIO)"

definition STREAM_wrBytes :: "'d wr_fn \<Rightarrow> 'd io_stream option \<Rightarrow> bytes \<Rightarrow> int \<Rightarrow> int \<times> 'd io_stream option" where
  "STREAM_wrBytes wr h databytes timeout_mSecs =
     (case h of None \<Rightarrow> (-1, None)
      | Some pIO \<Rightarrow> let (r, d) = wr (opaque pIO) databytes timeout_mSecs in (r, Some (pIO\<lparr>opaque := d\<rparr>)))"

definition rdBytes :: "'d rd_fn \<Rightarrow> 'd io_stream \<Rightarrow> nat \<Rightarrow> int \<Rightarrow> int \<times> bytes \<times> 'd io_stream" where
  "rdBytes rd pIO nbytes timeout_mSecs =
     (if nbytes = 0 then (0, [], pIO)
      else if unget_buf pIO \<noteq> 0 then
        let b = word_of_int (unget_buf pIO AND 0xff) :: u8; pIO1 = pIO\<lparr>unget_buf := 0\<rparr> in
        if nbytes = 1 then (1, [b], pIO1)
        else let (r, bs, d) = rd (opaque pIO1) (nbytes - 1) timeout_mSecs
             in (if 0 \<le> r then r + 1 else 1, b # bs, pIO1\<lparr>opaque := d\<rparr>)
      else let (r, bs, d) = rd (opaque pIO) nbytes timeout_mSecs in (r, bs, pIO\<lparr>opaque := d\<rparr>))"

definition STREAM_rdBytes :: "'d rd_fn \<Rightarrow> 'd io_stream option \<Rightarrow> nat \<Rightarrow> int \<Rightarrow> int \<times> bytes \<times> 'd io_stream option" where
  "STREAM_rdBytes rd h nbytes timeout_mSecs =
     (if nbytes = 0 then (0, [], h)
      else case h of None \<Rightarrow> (-1, [], None)
           | Some pIO \<Rightarrow> let (r, bs, q) = rdBytes rd pIO nbytes timeout_mSecs in (r, bs, Some q))"

definition STREAM_rxAvail :: "('d \<Rightarrow> int \<Rightarrow> int) \<Rightarrow> 'd io_stream option \<Rightarrow> int \<Rightarrow> int" where
  "STREAM_rxAvail poll h timeout_mSec =
     (case h of None \<Rightarrow> 0
      | Some pIO \<Rightarrow> if unget_buf pIO \<noteq> 0 then 1 else poll (opaque pIO) timeout_mSec)"

text \<open>\<open>None\<close> as the method is the null pointer of a table without the entry: the call crashes.\<close>

definition STREAM_clearErrors :: "('d \<Rightarrow> 'd) option \<Rightarrow> 'd io_stream option \<Rightarrow> 'd io_stream option option" where
  "STREAM_clearErrors clear_fn h =
     (case h of None \<Rightarrow> Some None
      | Some pIO \<Rightarrow> do { f \<leftarrow> clear_fn; Some (Some (pIO\<lparr>opaque := f (opaque pIO), io_error := False\<rparr>)) })"

definition STREAM_fputc :: "'d wr_fn \<Rightarrow> int \<Rightarrow> 'd io_stream option \<Rightarrow> int \<times> 'd io_stream option" where
  "STREAM_fputc wr c s =
     (let (r, s') = STREAM_wrBytes wr s [word_of_int c] (-1) in (if r = 1 then c AND 0xff else -1, s'))"

definition STREAM_fputs :: "'d wr_fn \<Rightarrow> bytes \<Rightarrow> 'd io_stream option \<Rightarrow> int \<times> 'd io_stream option" where
  "STREAM_fputs wr str h = STREAM_wrBytes wr h str (-1)"

text \<open>\<open>txt\<close> is the formatted text before truncation, as \<^verbatim>\<open>vsnprintf\<close> counts it.\<close>

definition STREAM_vprintf :: "'d wr_fn \<Rightarrow> bytes \<Rightarrow> 'd io_stream option \<Rightarrow> int \<times> 'd io_stream option" where
  "STREAM_vprintf wr txt s =
     (let buf = take 1023 txt @ [0] @ replicate (1023 - length txt) 0; r = length txt in
      if r = 0 then (0, s)
      else STREAM_wrBytes wr s (take (if 1024 < r then 1024 else r) buf) (-1))"

definition ungetc :: "int \<Rightarrow> 'd io_stream \<Rightarrow> 'd io_stream" where
  "ungetc c pIO = pIO\<lparr>unget_buf := (c AND 0xff) OR 0x100\<rparr>"

definition STREAM_ungetc :: "int \<Rightarrow> 'd io_stream option \<Rightarrow> int \<times> 'd io_stream option" where
  "STREAM_ungetc c s = (case s of None \<Rightarrow> (-1, None) | Some pIO \<Rightarrow> (0, Some (ungetc c pIO)))"

definition fgetc :: "'d rd_fn \<Rightarrow> 'd io_stream \<Rightarrow> int \<times> 'd io_stream" where
  "fgetc rd pIO =
     (if unget_buf pIO \<noteq> 0
      then (sint (word_of_int (unget_buf pIO) :: u8) AND 0xff, pIO\<lparr>unget_buf := 0\<rparr>)
      else case rdBytes rd pIO 1 (-1) of (r, bs, q) \<Rightarrow>
             if 0 < r then (sint (bs ! 0) AND 0xff, q)
             else if r = 0 then (-1, q)
             else (-1, q\<lparr>io_error := True\<rparr>))"

definition STREAM_fgetc :: "'d rd_fn \<Rightarrow> 'd io_stream option \<Rightarrow> int \<times> 'd io_stream option" where
  "STREAM_fgetc rd s =
     (case s of None \<Rightarrow> (-1, None) | Some pIO \<Rightarrow> let (c, q) = fgetc rd pIO in (c, Some q))"

text \<open>The first loop of \<^verbatim>\<open>STREAM_fgets\<close>: the last character read, the count, buffer and stream.\<close>

function fgets_loop ::
  "'d rd_fn \<Rightarrow> nat \<Rightarrow> int \<Rightarrow> nat \<Rightarrow> bytes \<Rightarrow> 'd io_stream \<Rightarrow> (int \<times> nat \<times> bytes \<times> 'd io_stream) option"
where
  "fgets_loop rd siz c n buf h =
     (if \<not> n < siz then Some (c, n, buf, h)
      else case fgetc rd h of (c', h') \<Rightarrow>
        if c' < 0 then Some (c', n, buf, h')
        else do {
          b1 \<leftarrow> mem_wr (n + 1) [0] buf;
          b2 \<leftarrow> mem_wr n [word_of_int (c' AND 0xff)] b1;
          if c' = 10 \<or> c' = 13 then Some (c', n + 1, b2, h')
          else fgets_loop rd siz c' (n + 1) b2 h'
        })"
  by pat_completeness auto
termination
  by (relation "measure (\<lambda>(rd, siz, c, n, b, h). siz - n)") auto

declare fgets_loop.simps [simp del]

text \<open>The result is whether the buffer pointer (and not null) is returned, the buffer, the stream.\<close>

definition STREAM_fgets :: "'d rd_fn \<Rightarrow> bytes \<Rightarrow> nat \<Rightarrow> 'd io_stream \<Rightarrow> (bool \<times> bytes \<times> 'd io_stream) option" where
  "STREAM_fgets rd buf0 siz0 h =
     do {
       b0 \<leftarrow> mem_wr 0 [0] buf0;
       b1 \<leftarrow> (if siz0 = 0 then None else mem_wr (siz0 - 1) [0] b0);
       let siz = siz0 - 1;
       (c, n, b2, h1) \<leftarrow> fgets_loop rd siz 0 0 b1 h;
       if c = 13
       then case fgetc rd h1 of (c2, h2) \<Rightarrow>
              if c2 < 0 then Some (n \<noteq> 0, b2, h2)
              else if c2 \<noteq> 10 then Some (n \<noteq> 0, b2, ungetc c2 h2)
              else if siz \<le> n then Some (n \<noteq> 0, b2, h2)
              else do {
                b3 \<leftarrow> mem_wr n [word_of_int c2] b2;
                b4 \<leftarrow> mem_wr (n + 1) [0] b3;
                Some (n + 1 \<noteq> 0, b4, h2)
              }
       else Some (n \<noteq> 0, b2, h1)
     }"

text \<open>
  \<^verbatim>\<open>STREAM_rdDump\<close>: \<open>expired\<close> answers the timer each time a read finds nothing; \<open>None\<close>: the loop
  has not ended within the fuel, the number of reads.
\<close>

fun STREAM_rdDump :: "'d rd_fn \<Rightarrow> nat \<Rightarrow> bool list \<Rightarrow> 'd io_stream \<Rightarrow> 'd io_stream option" where
  "STREAM_rdDump rd 0 expired h = None"
| "STREAM_rdDump rd (Suc fuel) expired h =
     (case rdBytes rd h 256 0 of (r, bs, h') \<Rightarrow>
        if 0 < r then STREAM_rdDump rd fuel expired h'
        else if r < 0 then Some h'
        else case expired of [] \<Rightarrow> None
             | e # es \<Rightarrow> if e then Some h' else STREAM_rdDump rd fuel es h')"

section \<open>The memory stream\<close>

record mem_stream_details =
  mem_valid :: bool
  is_wr :: bool
  is_rd :: bool
  pBytes :: bytes
  mem_alloc :: bool
  cursor :: nat
  bufsiz :: nat

definition getM :: "mem_stream_details \<Rightarrow> mem_stream_details option" where
  "getM d = (if mem_valid d then Some d else None)"

definition mem_wr_fn :: "mem_stream_details wr_fn" where
  "mem_wr_fn d bs timeout_mSecs =
     (case getM d of None \<Rightarrow> (-1, d)
      | Some pM \<Rightarrow>
          if \<not> is_wr pM then (-1, d)
          else let space = bufsiz pM - cursor pM; n = min (length bs) space in
            (c_int n, pM\<lparr>pBytes := take (cursor pM) (pBytes pM) @ take n bs @ drop (cursor pM + n) (pBytes pM),
                         cursor := cursor pM + n\<rparr>))"

definition mem_rd_fn :: "mem_stream_details rd_fn" where
  "mem_rd_fn d nbytes timeout_mSecs =
     (case getM d of None \<Rightarrow> (-1, [], d)
      | Some pM \<Rightarrow>
          if \<not> is_rd pM then (-1, [], d)
          else let avail = bufsiz pM - cursor pM; n = min nbytes avail in
            (c_int n, take n (drop (cursor pM) (pBytes pM)), pM\<lparr>cursor := cursor pM + n\<rparr>))"

text \<open>The result type \<^verbatim>\<open>bool\<close> turns the error value -1 into true.\<close>

definition mem_poll :: "mem_stream_details \<Rightarrow> int \<Rightarrow> int" where
  "mem_poll d timeout_mSec =
     (case getM d of None \<Rightarrow> 1 | Some pM \<Rightarrow> if is_rd pM \<and> cursor pM < bufsiz pM then 1 else 0)"

definition mem_clear_fn :: "(mem_stream_details \<Rightarrow> mem_stream_details) option" where
  "mem_clear_fn = None"

text \<open>
  \<open>oks\<close> answers the three allocations. With no memory given, \<open>nbytes + 1\<close> zero bytes are allocated;
  the size counts only \<open>nbytes\<close>.
\<close>

definition mem_create :: "bool \<times> bool \<times> bool \<Rightarrow> bytes option \<Rightarrow> nat \<Rightarrow> bool \<Rightarrow> bool \<Rightarrow> mem_stream_details io_stream option" where
  "mem_create oks buf nbytes wr rd =
     (case oks of (ok1, ok2, ok3) \<Rightarrow>
        if \<not> ok1 then None
        else if buf = None \<and> \<not> ok2 then None
        else STREAM_createPrivate ok3
               \<lparr>mem_valid = True, is_wr = wr, is_rd = rd,
                pBytes = (case buf of None \<Rightarrow> replicate (nbytes + 1) 0 | Some b \<Rightarrow> b),
                mem_alloc = (buf = None), cursor = 0, bufsiz = nbytes\<rparr>)"

definition STREAM_stringCreate :: "bool \<times> bool \<times> bool \<Rightarrow> bytes \<Rightarrow> mem_stream_details io_stream option" where
  "STREAM_stringCreate oks str = mem_create oks (Some (str @ [0])) (length str) False True"

definition STREAM_memCreate :: "bool \<times> bool \<times> bool \<Rightarrow> bytes option \<Rightarrow> nat \<Rightarrow> mem_stream_details io_stream option" where
  "STREAM_memCreate oks buf nbytes = mem_create oks buf nbytes True True"

section \<open>Contracts\<close>

text \<open>
  A driver delivers what its source holds, in order: as many bytes as asked for or as are there.
\<close>

locale raw_source =
  fixes inv :: "'d \<Rightarrow> bool" and held :: "'d \<Rightarrow> bytes" and rd :: "'d rd_fn"
  assumes rd_delivers: "inv d \<Longrightarrow> 0 < n \<Longrightarrow> n < 2 ^ 31 \<Longrightarrow> rd d n t = (r, bs, d') \<Longrightarrow>
    bs = take n (held d) \<and> r = int (length bs) \<and> held d' = drop n (held d) \<and> inv d'"

text \<open>The same of a stream, whatever layers it has; this is what the readers of a stream rely on.\<close>

locale byte_source =
  fixes sinv :: "'s \<Rightarrow> bool" and contents :: "'s \<Rightarrow> bytes" and rdb :: "'s \<Rightarrow> nat \<Rightarrow> int \<Rightarrow> int \<times> bytes \<times> 's"
  assumes rdb_delivers: "sinv s \<Longrightarrow> 0 < n \<Longrightarrow> n < 2 ^ 31 \<Longrightarrow> rdb s n t = (r, bs, s') \<Longrightarrow>
    bs = take n (contents s) \<and> r = int (length bs) \<and> contents s' = drop n (contents s) \<and> sinv s'"
begin

lemma rdb_enough:
  assumes "sinv s" "0 < n" "n < 2 ^ 31" "n \<le> length (contents s)"
  obtains s' where "rdb s n t = (int n, take n (contents s), s')" "contents s' = drop n (contents s)" "sinv s'"
proof -
  obtain r bs s' where e: "rdb s n t = (r, bs, s')" by (metis prod_cases3)
  from rdb_delivers[OF assms(1-3) e] assms(4) that[of s'] e show thesis by simp
qed

lemma rdb_empty:
  assumes "sinv s" "0 < n" "n < 2 ^ 31" "contents s = []"
  obtains s' where "rdb s n t = (0, [], s')" "contents s' = []" "sinv s'"
proof -
  obtain r bs s' where e: "rdb s n t = (r, bs, s')" by (metis prod_cases3)
  from rdb_delivers[OF assms(1-3) e] assms(4) that[of s'] e show thesis by simp
qed

end

text \<open>The push-back byte comes before what the driver holds.\<close>

definition pushed :: "'d io_stream \<Rightarrow> bytes" where
  "pushed pIO = (if unget_buf pIO = 0 then [] else [word_of_int (unget_buf pIO)])"

definition stream_contents :: "('d \<Rightarrow> bytes) \<Rightarrow> 'd io_stream \<Rightarrow> bytes" where
  "stream_contents held pIO = pushed pIO @ held (opaque pIO)"

lemma word_of_int_low_byte: "(word_of_int (x AND 0xff) :: u8) = word_of_int x"
proof -
  have "x AND 0xff = take_bit 8 x" by (simp add: take_bit_eq_mask mask_eq_exp_minus_1)
  then show ?thesis by (simp add: word_uint_eq_iff unsigned_of_int)
qed

sublocale raw_source \<subseteq> byte_source "\<lambda>s. inv (opaque s)" "stream_contents held" "rdBytes rd"
proof unfold_locales
  fix s n t r bs s'
  assume i: "inv (opaque s)" and n: "0 < n" "n < 2 ^ 31" and res: "rdBytes rd s n t = (r, bs, s')"
  show "bs = take n (stream_contents held s) \<and> r = int (length bs) \<and>
      stream_contents held s' = drop n (stream_contents held s) \<and> inv (opaque s')"
  proof (cases "unget_buf s = 0 \<or> n = 1")
    case True
    obtain r0 b0 d0 where d: "rd (opaque s) n t = (r0, b0, d0)" by (metis prod_cases3)
    from rd_delivers[OF i n d] True res n d show ?thesis
      by (auto simp: rdBytes_def stream_contents_def pushed_def word_of_int_low_byte i split: if_splits)
  next
    case False
    obtain r0 b0 d0 where d: "rd (opaque s) (n - 1) t = (r0, b0, d0)" by (metis prod_cases3)
    have "0 < n - 1" "n - 1 < 2 ^ 31" using False n by auto
    from rd_delivers[OF i this d] False res n d show ?thesis
      by (cases n) (auto simp: rdBytes_def stream_contents_def pushed_def word_of_int_low_byte)
  qed
qed

lemma sint_and_ff: "sint (b :: u8) AND 0xff = uint b"
proof -
  have "sint b AND mask 8 = take_bit 8 (signed_take_bit 7 (uint b))"
    by (simp add: sint_uint take_bit_eq_mask)
  also have "\<dots> = take_bit 8 (uint b)" by (simp add: take_bit_signed_take_bit)
  also have "\<dots> = uint b" using uint_lt2p[of b] by (intro take_bit_int_eq_self) simp_all
  finally show ?thesis by (simp add: mask_eq_exp_minus_1)
qed

lemma unget_mark: "(uint (c :: u8) AND 0xff) OR 0x100 \<noteq> 0 \<and> word_of_int ((uint c AND 0xff) OR 0x100) = c"
proof -
  have "bit ((uint c AND 0xff) OR (0x100 :: int)) 8" by (simp add: bit_or_iff)
  then have "(uint c AND 0xff) OR (0x100 :: int) \<noteq> 0" by auto
  moreover have "((uint c AND 0xff) OR 0x100) AND 0xff = uint c AND 0xff"
    by (simp add: bit.conj_disj_distrib2 and.assoc)
  then have "(word_of_int ((uint c AND 0xff) OR 0x100) :: u8) = word_of_int (uint c AND 0xff)"
    using word_of_int_low_byte[of "(uint c AND 0xff) OR 0x100"] by simp
  ultimately show ?thesis using word_of_int_low_byte[of "uint c"] by simp
qed

text \<open>The line at the front of a text, with its ending: LF, CR, or CR LF.\<close>

fun line_of :: "bytes \<Rightarrow> bytes" where
  "line_of [] = []"
| "line_of (c # cs) =
     (if c = 10 then [10]
      else if c = 13 then (case cs of [] \<Rightarrow> [13] | d # _ \<Rightarrow> if d = 10 then [13, 10] else [13])
      else c # line_of cs)"

text \<open>The line up to and including its first end character.\<close>

fun line_body :: "bytes \<Rightarrow> bytes" where
  "line_body [] = []"
| "line_body (c # cs) = (if c = 10 \<or> c = 13 then [c] else c # line_body cs)"

lemma mem_wr_one: "n < length buf \<Longrightarrow> mem_wr n [x] buf = Some (buf[n := x])"
  by (simp add: mem_wr_def upd_conv_take_nth_drop)

lemma line_body_le: "length (line_body xs) \<le> length xs"
  by (induction xs) auto

lemma line_of_body:
  "line_of xs = (if line_body xs \<noteq> [] \<and> last (line_body xs) = 13
     then line_body xs @ (case drop (length (line_body xs)) xs of [] \<Rightarrow> [] | d # _ \<Rightarrow> if d = 10 then [10] else [])
     else line_body xs)"
proof (induction xs)
  case (Cons c cs)
  consider "c = 10" | "c = 13" | "c \<noteq> 10" "c \<noteq> 13" by blast
  then show ?case
  proof cases
    case 2
    then show ?thesis by (cases cs) simp_all
  next
    case 3
    have "last (c # line_body cs) = (if line_body cs = [] then c else last (line_body cs))" by simp
    then show ?thesis using 3 Cons by (simp split del: list.split)
  qed simp
qed simp

context raw_source
begin

lemma fgetc_cons:
  assumes "inv (opaque s)" "stream_contents held s = c # cs"
  shows "\<exists>s'. fgetc rd s = (uint c, s') \<and> inv (opaque s') \<and> stream_contents held s' = cs"
proof (cases "unget_buf s = 0")
  case True
  obtain s' where "rdBytes rd s 1 (-1) = (int 1, take 1 (stream_contents held s), s')"
    "stream_contents held s' = drop 1 (stream_contents held s)" "inv (opaque s')"
    by (rule rdb_enough[of s 1 "-1"]) (use assms in auto)
  then show ?thesis using True assms(2) by (simp add: fgetc_def sint_and_ff)
next
  case False
  then show ?thesis using assms
    by (auto simp: fgetc_def stream_contents_def pushed_def sint_and_ff)
qed

lemma fgetc_nil:
  assumes "inv (opaque s)" "stream_contents held s = []"
  shows "\<exists>s'. fgetc rd s = (-1, s') \<and> inv (opaque s') \<and> stream_contents held s' = []"
proof -
  have "unget_buf s = 0" using assms(2) by (auto simp: stream_contents_def pushed_def split: if_splits)
  moreover obtain s' where "rdBytes rd s 1 (-1) = (0, [], s')" "stream_contents held s' = []" "inv (opaque s')"
    by (rule rdb_empty[of s 1 "-1"]) (use assms in auto)
  ultimately show ?thesis by (simp add: fgetc_def)
qed

lemma fgets_loop_line:
  assumes "inv (opaque s)" "n + length (line_body (stream_contents held s)) < siz"
    and "siz < length buf" "n < length buf" "buf ! n = 0"
  shows "\<exists>c buf' s'. fgets_loop rd siz c0 n buf s =
             Some (c, n + length (line_body (stream_contents held s)), buf', s') \<and>
           length buf' = length buf \<and> inv (opaque s') \<and>
           stream_contents held s' = drop (length (line_body (stream_contents held s))) (stream_contents held s) \<and>
           take n buf' = take n buf \<and>
           take (Suc (length (line_body (stream_contents held s)))) (drop n buf') =
             line_body (stream_contents held s) @ [0] \<and>
           (c = 13 \<longleftrightarrow> line_body (stream_contents held s) \<noteq> [] \<and> last (line_body (stream_contents held s)) = 13)"
  using assms
proof (induction "stream_contents held s" arbitrary: s n buf c0)
  case Nil
  then obtain s' where "fgetc rd s = (-1, s')" "inv (opaque s')" "stream_contents held s' = []"
    using fgetc_nil[of s] by auto
  moreover have "drop n buf = 0 # drop (Suc n) buf" using Nil.prems(4,5) Cons_nth_drop_Suc[of n buf] by simp
  ultimately show ?case
    using Nil.hyps[symmetric] Nil.prems by (subst fgets_loop.simps) simp
next
  case (Cons x xs)
  obtain s' where s': "fgetc rd s = (uint x, s')" "inv (opaque s')" "stream_contents held s' = xs"
    using fgetc_cons[OF Cons.prems(1)] Cons.hyps(2) by metis
  let ?b = "buf[n + 1 := 0, n := x]"
  have n: "n < siz" "n + 1 < length buf" using Cons.prems(2,3) Cons.hyps(2)[symmetric] by (auto split: if_splits)
  have w: "mem_wr (n + 1) [0] buf = Some (buf[n + 1 := 0])" "mem_wr n [x] (buf[n + 1 := 0]) = Some ?b"
    using n by (auto simp: mem_wr_one)
  have x: "word_of_int (uint x AND 0xff) = x" using word_of_int_low_byte[of "uint x"] by simp
  have e: "uint x = 10 \<longleftrightarrow> x = 10" "uint x = 13 \<longleftrightarrow> x = 13"
    by (simp_all add: word_uint_eq_iff)
  show ?case
  proof (cases "x = 10 \<or> x = 13")
    case True
    then have "fgets_loop rd siz c0 n buf s = Some (uint x, n + 1, ?b, s')"
      using n s'(1) w x e by (subst fgets_loop.simps) auto
    moreover have "take 2 (drop n ?b) = [x, 0]"
      using n Cons_nth_drop_Suc[of n ?b, symmetric] Cons_nth_drop_Suc[of "Suc n" ?b, symmetric]
      by (simp add: numeral_2_eq_2)
    ultimately show ?thesis
      using True n s' e Cons.hyps(2)[symmetric] by (auto simp: numeral_2_eq_2)
  next
    case False
    have step: "fgets_loop rd siz c0 n buf s = fgets_loop rd siz (uint x) (n + 1) ?b s'"
      using False n s'(1) w x e by (subst fgets_loop.simps) auto
    have lb: "line_body (stream_contents held s) = x # line_body xs" using False Cons.hyps(2)[symmetric] by simp
    obtain c buf' s'' where r: "fgets_loop rd siz (uint x) (n + 1) ?b s' =
        Some (c, n + 1 + length (line_body xs), buf', s'')" "length buf' = length buf" "inv (opaque s'')"
      "stream_contents held s'' = drop (length (line_body xs)) xs" "take (n + 1) buf' = take (n + 1) ?b"
      "take (Suc (length (line_body xs))) (drop (n + 1) buf') = line_body xs @ [0]"
      "c = 13 \<longleftrightarrow> line_body xs \<noteq> [] \<and> last (line_body xs) = 13"
      using Cons.hyps(1)[OF s'(3)[symmetric] s'(2), of "n + 1" ?b "uint x"] Cons.prems n lb s'(3) by auto
    have "buf' ! n = x"
      using arg_cong[OF r(5), of "\<lambda>l. l ! n"] n by simp
    then have "take (Suc (Suc (length (line_body xs)))) (drop n buf') = x # line_body xs @ [0]"
      using r(2,6) n Cons_nth_drop_Suc[of n buf'] by (metis Suc_eq_plus1 Suc_lessD append_Cons take_Suc_Cons)
    moreover have "take n buf' = take n buf"
      using arg_cong[OF r(5), of "take n"] by (simp add: min_def)
    ultimately show ?thesis using step r lb Cons.hyps(2)[symmetric] False by auto
  qed
qed

lemma ungetc_contents:
  "unget_buf s = 0 \<Longrightarrow> stream_contents held (ungetc (uint c) s) = c # stream_contents held s"
  by (simp add: ungetc_def stream_contents_def pushed_def unget_mark)

lemma fgetc_unget: "fgetc rd s = (c, s') \<Longrightarrow> unget_buf s' = 0"
  by (auto simp: fgetc_def rdBytes_def Let_def split: prod.splits if_splits)

lemma fgets_line:
  assumes i: "inv (opaque s)" and len: "length (line_of (stream_contents held s)) + 1 < siz0"
    and buf: "siz0 \<le> length buf"
  shows "\<exists>buf' s'. STREAM_fgets rd buf siz0 s = Some (stream_contents held s \<noteq> [], buf', s') \<and>
           length buf' = length buf \<and> inv (opaque s') \<and>
           take (Suc (length (line_of (stream_contents held s)))) buf' = line_of (stream_contents held s) @ [0] \<and>
           stream_contents held s' = drop (length (line_of (stream_contents held s))) (stream_contents held s)"
proof -
  let ?t = "stream_contents held s" and ?b = "buf[0 := 0, siz0 - 1 := 0]"
  let ?n = "length (line_body ?t)"
  have le: "?n \<le> length (line_of ?t)" by (subst line_of_body) simp
  have z: "0 < length buf" "siz0 - 1 < length (buf[0 := 0])" using len buf by (cases buf, auto)
  note w = mem_wr_one[OF z(1), of 0] mem_wr_one[OF z(2), of 0]
  have p: "0 + ?n < siz0 - 1" "siz0 - 1 < length ?b" "0 < length ?b" "?b ! 0 = 0"
    using le len buf z by (auto simp: nth_list_update)
  obtain c b2 s1 where r: "fgets_loop rd (siz0 - 1) 0 0 ?b s = Some (c, ?n, b2, s1)"
    "length b2 = length buf" "inv (opaque s1)" "stream_contents held s1 = drop ?n ?t"
    "take (Suc ?n) b2 = line_body ?t @ [0]"
    "c = 13 \<longleftrightarrow> line_body ?t \<noteq> [] \<and> last (line_body ?t) = 13"
    using fgets_loop_line[OF i p, of 0] by auto
  have ne: "?n \<noteq> 0 \<longleftrightarrow> ?t \<noteq> []" by (cases ?t) auto
  show ?thesis
  proof (cases "c = 13")
    case False
    then show ?thesis using w r le len ne by (auto simp: STREAM_fgets_def line_of_body[of ?t])
  next
    case cr: True
    show ?thesis
    proof (cases "drop ?n ?t")
      case Nil
      then obtain s2 where "fgetc rd s1 = (-1, s2)" "inv (opaque s2)" "stream_contents held s2 = []"
        using fgetc_nil[of s1] r by auto
      then show ?thesis using w r le len ne cr Nil by (auto simp: STREAM_fgets_def line_of_body[of ?t])
    next
      case (Cons d ds)
      then obtain s2 where s2: "fgetc rd s1 = (uint d, s2)" "inv (opaque s2)" "stream_contents held s2 = ds"
        using fgetc_cons[of s1 d ds] r by auto
      have d10: "uint d = 10 \<longleftrightarrow> d = 10" by (simp add: word_uint_eq_iff)
      show ?thesis
      proof (cases "d = 10")
        case False
        then show ?thesis using w r le len ne cr Cons s2 d10 ungetc_contents[OF fgetc_unget[OF s2(1)], of d]
          by (auto simp: STREAM_fgets_def line_of_body[of ?t] ungetc_def)
      next
        case True
        have lo: "line_of ?t = line_body ?t @ [10]" using cr r(6) Cons True by (simp add: line_of_body[of ?t])
        have n: "?n < siz0 - 1" "Suc ?n < length b2" using lo len buf r(2) by auto
        let ?b4 = "b2[?n := 10, Suc ?n := 0]"
        have w4: "mem_wr ?n [10] b2 = Some (b2[?n := 10])" "mem_wr (?n + 1) [0] (b2[?n := 10]) = Some ?b4"
          using n by (auto simp: mem_wr_one)
        have "take ?n b2 = line_body ?t" using arg_cong[OF r(5), of "take ?n"] by (simp add: min_def)
        then have "take (Suc (Suc ?n)) ?b4 = line_body ?t @ [10, 0]"
          using n by (simp add: take_Suc_conv_app_nth take_update_swap list_update_append)
        moreover have "drop (Suc ?n) ?t = ds" using arg_cong[OF Cons, of tl] by (simp add: drop_Suc tl_drop)
        ultimately show ?thesis using w r lo n ne cr s2 d10 True w4 by (auto simp: STREAM_fgets_def)
      qed
    qed
  qed
qed

lemma rdDump_drains:
  assumes "inv (opaque s)" "length (stream_contents held s) + k < fuel"
  shows "\<exists>s'. STREAM_rdDump rd fuel (replicate k False @ [True]) s = Some s' \<and>
    inv (opaque s') \<and> stream_contents held s' = []"
  using assms
proof (induction fuel arbitrary: s k)
  case (Suc fuel)
  obtain r bs s' where e: "rdBytes rd s 256 0 = (r, bs, s')" by (metis prod_cases3)
  note f = rdb_delivers[OF Suc.prems(1) _ _ e, simplified]
  show ?case
  proof (cases "stream_contents held s = []")
    case True
    then show ?thesis using Suc.IH[of s' "k - 1"] Suc.prems f e by (cases k) auto
  next
    case False
    then show ?thesis using Suc.IH[of s' k] Suc.prems f e by (cases "stream_contents held s") auto
  qed
qed simp

end

section \<open>The memory stream as a source\<close>

definition mem_inv :: "mem_stream_details \<Rightarrow> bool" where
  "mem_inv d = (mem_valid d \<and> is_rd d \<and> cursor d \<le> bufsiz d \<and> bufsiz d \<le> length (pBytes d))"

definition mem_held :: "mem_stream_details \<Rightarrow> bytes" where
  "mem_held d = take (bufsiz d - cursor d) (drop (cursor d) (pBytes d))"

interpretation ms: raw_source mem_inv mem_held mem_rd_fn
  by unfold_locales
    (auto simp: mem_inv_def mem_held_def mem_rd_fn_def getM_def Let_def c_int_small min_def drop_take ac_simps)


lemma mem_create_text:
  assumes "bufsiz (opaque s) = length txt" "pBytes (opaque s) = txt @ rest" "cursor (opaque s) = 0"
    "mem_valid (opaque s)" "is_rd (opaque s)" "unget_buf s = 0"
  shows "mem_inv (opaque s) \<and> stream_contents mem_held s = txt"
  using assms by (simp add: mem_inv_def stream_contents_def pushed_def mem_held_def)

text \<open>Reading a text stream line by line, as the readers of configuration files do.\<close>

fun read_lines :: "nat \<Rightarrow> bytes \<Rightarrow> nat \<Rightarrow> mem_stream_details io_stream \<Rightarrow> bytes list option" where
  "read_lines 0 buf siz s = None"
| "read_lines (Suc fuel) buf siz s =
     do {
       (ok, buf', s') \<leftarrow> STREAM_fgets mem_rd_fn buf siz s;
       if \<not> ok then Some []
       else do { ls \<leftarrow> read_lines fuel buf' siz s'; Some (takeWhile (\<lambda>b. b \<noteq> 0) buf' # ls) }
     }"

declare read_lines.simps [simp del]

function lines_of :: "bytes \<Rightarrow> bytes list" where
  "lines_of xs = (if xs = [] then [] else line_of xs # lines_of (drop (length (line_of xs)) xs))"
  by pat_completeness auto
termination
proof (relation "measure length")
  fix xs :: bytes
  assume "xs \<noteq> []"
  then have "line_of xs \<noteq> []" by (cases xs; cases "tl xs") simp_all
  then show "(drop (length (line_of xs)) xs, xs) \<in> measure length" using \<open>xs \<noteq> []\<close> by simp
qed simp

declare lines_of.simps [simp del]

lemma line_of_prefix: "take (length (line_of xs)) xs = line_of xs"
proof (induction xs)
  case (Cons c cs)
  then show ?case by (cases cs) simp_all
qed simp

lemma concat_lines_of: "concat (lines_of xs) = xs"
proof (induction xs rule: lines_of.induct)
  case (1 xs)
  then show ?case
    using append_take_drop_id[of "length (line_of xs)" xs] line_of_prefix[of xs]
    by (subst lines_of.simps) simp
qed

lemma takeWhile_terminated:
  assumes "0 \<notin> set ln" "take (Suc (length ln)) buf = ln @ [0 :: u8]"
  shows "takeWhile (\<lambda>b. b \<noteq> 0) buf = ln"
proof -
  have "buf = ln @ 0 # drop (Suc (length ln)) buf"
    using append_take_drop_id[of "Suc (length ln)" buf] assms(2) by simp
  moreover have "takeWhile (\<lambda>b. b \<noteq> 0) (ln @ 0 # rest) = ln" for rest
    using assms(1) by (subst takeWhile_append2) auto
  ultimately show ?thesis by metis
qed

lemma read_lines_ok:
  assumes "mem_inv (opaque s)" "0 \<notin> set (stream_contents mem_held s)"
    and "\<forall>ln\<in>set (lines_of (stream_contents mem_held s)). length ln + 1 < siz" "siz \<le> length buf" "2 \<le> siz"
    and "length (lines_of (stream_contents mem_held s)) < fuel"
  shows "read_lines fuel buf siz s = Some (lines_of (stream_contents mem_held s))"
  using assms
proof (induction fuel arbitrary: buf s)
  case (Suc fuel)
  let ?t = "stream_contents mem_held s"
  have fits: "length (line_of ?t) + 1 < siz"
    using Suc.prems(3,5) by (cases "?t = []") (simp_all add: lines_of.simps[of ?t])
  obtain buf' s' where r: "STREAM_fgets mem_rd_fn buf siz s = Some (?t \<noteq> [], buf', s')"
    "length buf' = length buf" "mem_inv (opaque s')" "take (Suc (length (line_of ?t))) buf' = line_of ?t @ [0]"
    "stream_contents mem_held s' = drop (length (line_of ?t)) ?t"
    using ms.fgets_line[OF Suc.prems(1) fits Suc.prems(4)] by blast
  show ?case
  proof (cases "?t = []")
    case True
    then show ?thesis using r by (simp add: read_lines.simps lines_of.simps)
  next
    case False
    have "0 \<notin> set (line_of ?t)" using Suc.prems(2) line_of_prefix[of ?t] by (metis in_set_takeD)
    then have "takeWhile (\<lambda>b. b \<noteq> 0) buf' = line_of ?t" using r(4) by (rule takeWhile_terminated)
    moreover have "read_lines fuel buf' siz s' = Some (lines_of (drop (length (line_of ?t)) ?t))"
      using Suc.IH[of s' buf'] Suc.prems r False in_set_dropD
      by (fastforce simp: lines_of.simps[of ?t])
    ultimately show ?thesis using r(1) False by (simp add: read_lines.simps lines_of.simps[of ?t])
  qed
qed simp

text \<open>C23: Line input is complete and exact, whatever line ending a text uses. Reading a string stream
  with \<^verbatim>\<open>STREAM_fgets\<close> until it returns null gives the lines of the text, each with its ending (LF, CR
  or CR LF), and the concatenation of what was read is the text. The text has no NUL and the buffer
  is at least two bytes longer than each line.\<close>

theorem fgets_reads_text:
  assumes "STREAM_stringCreate (True, True, True) txt = Some s" "0 \<notin> set txt"
    and "\<forall>ln\<in>set (lines_of txt). length ln + 1 < siz" "siz \<le> length buf" "2 \<le> siz"
  shows "read_lines (Suc (length (lines_of txt))) buf siz s = Some (lines_of txt) \<and> concat (lines_of txt) = txt"
proof -
  have "mem_inv (opaque s) \<and> stream_contents mem_held s = txt"
    using assms(1) by (intro mem_create_text[where rest = "[0]"])
      (auto simp: STREAM_stringCreate_def mem_create_def STREAM_createPrivate_def)
  then show ?thesis using read_lines_ok[of s siz buf] assms concat_lines_of by auto
qed

theorem fgets_reads_text_witness:
  "\<exists>s. STREAM_stringCreate (True, True, True) [0x61, 13, 10, 0x62, 13, 0x63] = Some s \<and>
     read_lines 4 (replicate 8 1) 8 s = Some [[0x61, 13, 10], [0x62, 13], [0x63]]"
proof -
  obtain s where s: "STREAM_stringCreate (True, True, True) [0x61, 13, 10, 0x62, 13, 0x63] = Some s"
    by (simp add: STREAM_stringCreate_def mem_create_def STREAM_createPrivate_def)
  have l: "lines_of [0x61, 13, 10, 0x62, 13, 0x63] = [[0x61, 13, 10], [0x62, 13], [0x63]]"
    by (simp add: lines_of.simps)
  have "read_lines (Suc (length [[0x61, 13, 10], [0x62, 13], [0x63 :: u8]])) (replicate 8 1) 8 s =
      Some [[0x61, 13, 10], [0x62, 13], [0x63]]"
    using fgets_reads_text[OF s, of 8 "replicate 8 1"] unfolding l by simp
  moreover have "Suc (length [[0x61, 13, 10], [0x62, 13], [0x63 :: u8]]) = 4" by simp
  ultimately show ?thesis using s by metis
qed



section \<open>Writing to memory\<close>

fun mem_writes :: "mem_stream_details \<Rightarrow> bytes list \<Rightarrow> int list \<times> mem_stream_details" where
  "mem_writes d [] = ([], d)"
| "mem_writes d (w # ws) = (let (r, d') = mem_wr_fn d w 0; (rs, d'') = mem_writes d' ws in (r # rs, d''))"

lemma mem_writes_ok:
  assumes "mem_valid d" "is_wr d" "pBytes d = a @ x @ y" "cursor d = length a" "bufsiz d = length a + length x"
    and "length x < 2 ^ 31" "mem_writes d ws = (rs, d')"
  shows "pBytes d' = a @ take (length x) (concat ws) @ drop (length (concat ws)) x @ y \<and>
         sum_list rs = int (min (length x) (length (concat ws)))"
  using assms
proof (induction ws arbitrary: d rs a x)
  case (Cons w ws)
  let ?n = "min (length w) (length x)"
  let ?e = "d\<lparr>pBytes := a @ take ?n w @ drop ?n x @ y, cursor := length a + ?n\<rparr>"
  have s: "mem_wr_fn d w 0 = (int ?n, ?e)"
    using Cons.prems by (simp add: mem_wr_fn_def getM_def Let_def c_int_small)
  obtain rs' where r: "mem_writes ?e ws = (rs', d')" "rs = int ?n # rs'"
    using Cons.prems(7) s by (auto split: prod.splits)
  have "pBytes d' = (a @ take ?n w) @ take (length (drop ?n x)) (concat ws) @ drop (length (concat ws)) (drop ?n x) @ y \<and>
      sum_list rs' = int (min (length (drop ?n x)) (length (concat ws)))"
    by (rule Cons.IH[OF _ _ _ _ _ _ r(1)]) (use Cons.prems in auto)
  moreover have "int ?n + int (min (length x - ?n) l) = int (min (length x) (length w + l))" for l by linarith
  ultimately show ?case using r(2) by (cases "length w \<le> length x") (simp_all add: add.commute)
qed simp

text \<open>A memory stream keeps a prefix of what is written to it. A series of writes stores the
  concatenation of the data, cut where the memory ends, each write reports the part of its own data that
  was stored, and nothing beyond the declared size is touched.\<close>

theorem mem_writes_concat:
  assumes "STREAM_memCreate (True, True, True) (Some mem) n = Some s" "n \<le> length mem" "n < 2 ^ 31"
    and "mem_writes (opaque s) ws = (rs, d')"
  shows "pBytes d' = take n (concat ws) @ drop (min n (length (concat ws))) mem \<and>
    sum_list rs = int (min n (length (concat ws))) \<and> length (pBytes d') = length mem"
proof -
  have s: "mem_valid (opaque s)" "is_wr (opaque s)" "pBytes (opaque s) = mem" "cursor (opaque s) = 0" "bufsiz (opaque s) = n"
    using assms(1) by (auto simp: STREAM_memCreate_def mem_create_def STREAM_createPrivate_def)
  have "pBytes d' = [] @ take (length (take n mem)) (concat ws) @ drop (length (concat ws)) (take n mem) @ drop n mem \<and>
      sum_list rs = int (min (length (take n mem)) (length (concat ws)))"
    by (rule mem_writes_ok[OF _ _ _ _ _ _ assms(4)])
      (use s assms(2,3) in simp_all)
  moreover have "drop l (take n mem) @ drop n mem = drop (min n l) mem" for l
  proof (cases "l \<le> n")
    case True
    have "drop l (take n mem @ drop n mem) = drop l (take n mem) @ drop n mem"
      unfolding drop_append using True assms(2) by simp
    then show ?thesis using True by (simp only: append_take_drop_id min_absorb2)
  qed simp
  moreover have "length (take n mem) = n" using assms(2) by simp
  ultimately have "pBytes d' = take n (concat ws) @ drop (min n (length (concat ws))) mem"
    "sum_list rs = int (min n (length (concat ws)))" by (simp_all only: append_Nil)
  then show ?thesis using assms(2) by simp
qed

theorem mem_writes_concat_witness:
  "\<exists>s rs d'. STREAM_memCreate (True, True, True) (Some [9, 9, 9, 9, 9]) 3 = Some s \<and>
     mem_writes (opaque s) [[1, 2], [3, 4]] = (rs, d') \<and> pBytes d' = [1, 2, 3, 9, 9] \<and> sum_list rs = 3"
proof -
  obtain s where s: "STREAM_memCreate (True, True, True) (Some [9, 9, 9, 9, 9 :: u8]) 3 = Some s"
    by (simp add: STREAM_memCreate_def mem_create_def STREAM_createPrivate_def)
  obtain rs d' where m: "mem_writes (opaque s) [[1, 2], [3, 4]] = (rs, d')" by (metis prod.exhaust)
  have n: "3 \<le> length [9, 9, 9, 9, 9 :: u8]" "3 < (2 ^ 31 :: nat)" by simp_all
  from mem_writes_concat[OF s n m] s m show ?thesis by simp
qed

end
