(* ===== verification/Mt_Link.thy ===== *)
theory Mt_Link
  imports Mt_Frame Stream
begin

text \<open>
  Sending and receiving one message over the stream of an interface: \<^verbatim>\<open>MT_MSG_tx_raw\<close>,
  \<^verbatim>\<open>mt_msg_rx_bytes\<close> and \<^verbatim>\<open>mt_msg_rx\<close> of \<^verbatim>\<open>mt_msg.c\<close>. The stream is a parameter, its operations as a
  record. The receiver is a loop of passes between its labels \<^verbatim>\<open>try_again\<close> and \<^verbatim>\<open>read_more\<close>; a run of
  it ends with a result, crashes (an access outside the io buffer, a signed overflow) or is still
  running when the fuel, the number of passes, is used up. \<open>nli\<close> is the build option
  \<^verbatim>\<open>NPI_USE_NLI\<close>. Results on the wire are stated over the contracts \<open>byte_source\<close> and \<open>byte_sink\<close>.
\<close>

section \<open>The interface\<close>

record 's stream_ops =
  s_rd :: "'s \<Rightarrow> nat \<Rightarrow> int \<Rightarrow> int \<times> bytes \<times> 's"
  s_wr :: "'s \<Rightarrow> bytes \<Rightarrow> int \<Rightarrow> int \<times> 's"
  s_dump :: "'s \<Rightarrow> int \<Rightarrow> 's"
  s_isSocket :: "'s \<Rightarrow> bool"
  s_isConnected :: "'s \<Rightarrow> bool"

record mt_dbg =
  num_tx_pkt :: u32
  num_rx_pkt :: u32
  num_rx_err_no_frame_sync :: u32
  num_rx_err_checksum :: u32
  num_rx_err_packet_len :: u32

text \<open>
  The acknowledgements queued for the sender: the messages of the list and whether the link after the
  last of them points to released memory.
\<close>

record frag_info =
  fi_error :: bool
  fi_msg :: "mt_msg option"
  pTxFragData :: "mt_msg option"
  block_cur :: int
  block_count :: int
  total_size :: int
  this_frag_size :: int
  pTxFragAck :: "mt_msg list \<times> bool"
  tx_ack_semaphore :: nat

record 's mt_iface =
  cfg :: mt_cfg
  hndl :: 's
  intermsg_timeout_mSecs :: int
  intersymbol_timeout_mSecs :: int
  flush_timeout_mSecs :: int
  is_dead :: bool
  pCurRxMsg :: "mt_msg option"
  rx_list :: "mt_msg list"
  tx_frag :: frag_info
  rx_frag :: frag_info
  msg_Dbg :: mt_dbg
  sequence_no :: u32
  calloc_fails :: "bool list"

text \<open>An allocation takes its answer from \<open>calloc_fails\<close>; when the list is used up it succeeds.\<close>

definition alloc_msg :: "int \<Rightarrow> int \<Rightarrow> int \<Rightarrow> 's mt_iface \<Rightarrow> mt_msg option \<times> 's mt_iface" where
  "alloc_msg len c0 c1 pMI =
     (let ok = (case calloc_fails pMI of [] \<Rightarrow> True | f # _ \<Rightarrow> \<not> f);
          (p, ctr) = MT_MSG_alloc ok (sequence_no pMI) len c0 c1
      in (p, pMI\<lparr>sequence_no := ctr, calloc_fails := tl (calloc_fails pMI)\<rparr>))"

section \<open>Sending\<close>

definition MT_MSG_tx_raw :: "'s stream_ops \<Rightarrow> mt_msg \<Rightarrow> 's mt_iface \<Rightarrow> (int \<times> mt_msg \<times> 's mt_iface) option" where
  "MT_MSG_tx_raw ops pMsg pMI =
     do {
       p \<leftarrow> MT_MSG_format_msg pMsg;
       if 2176 < iobuf_nvalid p then Some (0, p, pMI)
       else do {
         bs \<leftarrow> mem_rd 0 (nat (iobuf_nvalid p)) (iobuf p);
         let (r, s) = s_wr ops (hndl pMI) bs (-1);
         Some (if r = iobuf_nvalid p then 1 else 0, p, pMI\<lparr>hndl := s\<rparr>)
       }
     }"

section \<open>Receiving\<close>

definition mt_msg_rx_bytes :: "'s stream_ops \<Rightarrow> bool \<Rightarrow> int \<Rightarrow> int \<Rightarrow> 's mt_iface \<Rightarrow> (int \<times> 's mt_iface) option" where
  "mt_msg_rx_bytes ops nli n timeout_mSecs pMI =
     do {
       pMsg \<leftarrow> pCurRxMsg pMI;
       if n \<le> iobuf_nvalid pMsg then Some (n, pMI)
       else do {
         let nneed = n - iobuf_nvalid pMsg;
         let (r, bs, s) = s_rd ops (hndl pMI) (nat nneed) timeout_mSecs;
         b \<leftarrow> mem_wr (if nli then 0 else nat (iobuf_nvalid pMsg)) bs (iobuf pMsg);
         let pMsg' = pMsg\<lparr>iobuf := b, iobuf_nvalid := iobuf_nvalid pMsg + (if 0 < r then r else 0)\<rparr>;
         let dead = (if 0 < r then is_dead pMI
                     else if s_isSocket ops s then is_dead pMI \<or> \<not> s_isConnected ops s
                     else is_dead pMI \<or> r < 0);
         Some (iobuf_nvalid pMsg', pMI\<lparr>hndl := s, pCurRxMsg := Some pMsg', is_dead := dead\<rparr>)
       }
     }"

datatype rx_ctl = Try_again | Read_more int | Return "mt_msg option"

definition rx_hdr_len :: "mt_cfg \<Rightarrow> int" where
  "rx_hdr_len c = hdr_len c + (if include_chksum c then 1 else 0)"

definition rx_clear :: "mt_msg \<Rightarrow> mt_msg option" where
  "rx_clear pMsg =
     do {
       b \<leftarrow> mem_wr 0 (replicate (nat (iobuf_idx_max pMsg)) 0) (iobuf pMsg);
       Some (pMsg\<lparr>iobuf_nvalid := 0, iobuf := b\<rparr>)
     }"

text \<open>The search for the sync byte: where to go on, or the message with the byte in front.\<close>

definition rx_sync :: "bool \<Rightarrow> int \<Rightarrow> mt_msg \<Rightarrow> (rx_ctl option \<times> mt_msg) option" where
  "rx_sync nli nneed pMsg =
     do {
       valid \<leftarrow> mem_rd 0 (nat (iobuf_nvalid pMsg)) (iobuf pMsg);
       let p8 = length (takeWhile (\<lambda>b. b \<noteq> 0xfe) valid);
       if p8 = length valid then Some (Some Try_again, pMsg)
       else if p8 = 0 then Some (None, pMsg)
       else if nli then Some (Some (Return None), pMsg)
       else do {
         let n = length valid - p8;
         b \<leftarrow> mem_wr 0 (drop p8 valid @ replicate p8 0) (iobuf pMsg);
         let pMsg' = pMsg\<lparr>iobuf := b, iobuf_nvalid := int n\<rparr>;
         Some (if int n < nneed then Some (Read_more nneed) else None, pMsg')
       }
     }"

definition rx_fields :: "mt_cfg \<Rightarrow> mt_msg \<Rightarrow> mt_msg option" where
  "rx_fields c p0 =
     do {
       p1 \<leftarrow> (if frame_sync c then do { (_, q) \<leftarrow> MT_MSG_rdU8 p0; Some q } else Some p0);
       p2 \<leftarrow> (if len_2bytes c then do { (l, q) \<leftarrow> MT_MSG_rdU16 p1; Some (q\<lparr>expected_len := uint l\<rparr>) }
              else do { (l, q) \<leftarrow> MT_MSG_rdU8 p1; Some (q\<lparr>expected_len := uint l\<rparr>) });
       (c0, p3) \<leftarrow> MT_MSG_rdU8 p2;
       (c1, p4) \<leftarrow> MT_MSG_rdU8 (p3\<lparr>cmd0 := uint c0\<rparr>);
       Some (p4\<lparr>cmd1 := uint c1\<rparr>)
     }"

definition int_add :: "int \<Rightarrow> int \<Rightarrow> int option" where
  "int_add a b = (if a + b < 2 ^ 31 then Some (a + b) else None)"

text \<open>After the data has been read: the checksum, then the message is handed out.\<close>

definition rx_finish :: "'s stream_ops \<Rightarrow> bool \<Rightarrow> 's mt_iface \<Rightarrow> (rx_ctl \<times> 's mt_iface) option" where
  "rx_finish ops nli pMI =
     do {
       p0 \<leftarrow> pCurRxMsg pMI;
       (_, p1) \<leftarrow> MT_MSG_rdBuf p0 None (nat (expected_len p0));
       k \<leftarrow> (if include_chksum (cfg pMI) then MT_MSG_calc_chksum p1 True (iobuf_nvalid p1) else Some 0);
       if k \<noteq> 0 then
         (if nli then Some (Return None, pMI\<lparr>pCurRxMsg := Some p1,
             msg_Dbg := (msg_Dbg pMI)\<lparr>num_rx_err_checksum := num_rx_err_checksum (msg_Dbg pMI) + 1\<rparr>\<rparr>)
          else Some (Try_again, pMI\<lparr>pCurRxMsg := Some p1, hndl := s_dump ops (hndl pMI) (flush_timeout_mSecs pMI)\<rparr>))
       else
         Some (Return (Some ((MT_MSG_set_type p1 (pSrcIface p1))\<lparr>iobuf_idx := hdr_len (cfg pMI)\<rparr>)),
               pMI\<lparr>pCurRxMsg := None,
                   msg_Dbg := (msg_Dbg pMI)\<lparr>num_rx_pkt := num_rx_pkt (msg_Dbg pMI) + 1\<rparr>\<rparr>)
     }"

text \<open>From the length field on: read the data component.\<close>

definition rx_data :: "'s stream_ops \<Rightarrow> bool \<Rightarrow> int \<Rightarrow> int \<Rightarrow> 's mt_iface \<Rightarrow> (rx_ctl \<times> 's mt_iface) option" where
  "rx_data ops nli nneed r0 pMI =
     do {
       p0 \<leftarrow> pCurRxMsg pMI;
       p1 \<leftarrow> rx_fields (cfg pMI) p0;
       n \<leftarrow> int_add nneed (expected_len p1);
       let pMI1 = pMI\<lparr>pCurRxMsg := Some p1\<rparr>;
       if nli then
         (if r0 < n then Some (Return None, pMI1\<lparr>
             msg_Dbg := (msg_Dbg pMI)\<lparr>num_rx_err_packet_len := num_rx_err_packet_len (msg_Dbg pMI) + 1\<rparr>\<rparr>)
          else rx_finish ops nli pMI1)
       else do {
         (r, pMI2) \<leftarrow> mt_msg_rx_bytes ops nli n (intersymbol_timeout_mSecs pMI1) pMI1;
         if r \<noteq> n then
           (if 0 < r then Some (Read_more n, pMI2)
            else Some (Try_again, pMI2\<lparr>hndl := s_dump ops (hndl pMI2) (flush_timeout_mSecs pMI2)\<rparr>))
         else rx_finish ops nli pMI2
       }
     }"

definition rx_read_more :: "'s stream_ops \<Rightarrow> bool \<Rightarrow> int \<Rightarrow> 's mt_iface \<Rightarrow> (rx_ctl \<times> 's mt_iface) option" where
  "rx_read_more ops nli nneed pMI =
     do {
       (r, pMI1) \<leftarrow> mt_msg_rx_bytes ops nli nneed (intermsg_timeout_mSecs pMI) pMI;
       if r \<le> 0 then Some (Return None, pMI1)
       else do {
         p1 \<leftarrow> pCurRxMsg pMI1;
         (ctl, p2) \<leftarrow> (if frame_sync (cfg pMI) then rx_sync nli nneed (p1\<lparr>iobuf_idx := 0\<rparr>)
                       else Some (None, p1\<lparr>iobuf_idx := 0\<rparr>));
         let dbg = (if ctl = Some (Return None)
                    then (msg_Dbg pMI1)\<lparr>num_rx_err_no_frame_sync := num_rx_err_no_frame_sync (msg_Dbg pMI1) + 1\<rparr>
                    else msg_Dbg pMI1);
         let pMI2 = pMI1\<lparr>pCurRxMsg := Some p2, msg_Dbg := dbg\<rparr>;
         case ctl of Some go \<Rightarrow> Some (go, pMI2) | None \<Rightarrow> rx_data ops nli nneed r pMI2
       }
     }"

fun rx_step :: "'s stream_ops \<Rightarrow> bool \<Rightarrow> rx_ctl \<Rightarrow> 's mt_iface \<Rightarrow> (rx_ctl \<times> 's mt_iface) option" where
  "rx_step ops nli Try_again pMI =
     do {
       pMsg \<leftarrow> pCurRxMsg pMI;
       p1 \<leftarrow> rx_clear pMsg;
       Some (Read_more (rx_hdr_len (cfg pMI)), pMI\<lparr>pCurRxMsg := Some p1\<rparr>)
     }"
| "rx_step ops nli (Read_more nneed) pMI = rx_read_more ops nli nneed pMI"
| "rx_step ops nli (Return m) pMI = Some (Return m, pMI)"

datatype 'a run = Returned 'a | Crashed | Running

fun rx_loop :: "'s stream_ops \<Rightarrow> bool \<Rightarrow> nat \<Rightarrow> rx_ctl \<Rightarrow> 's mt_iface \<Rightarrow> (mt_msg option \<times> 's mt_iface) run" where
  "rx_loop ops nli fuel (Return m) pMI = Returned (m, pMI)"
| "rx_loop ops nli 0 ctl pMI = Running"
| "rx_loop ops nli (Suc fuel) ctl pMI =
     (case rx_step ops nli ctl pMI of None \<Rightarrow> Crashed | Some (ctl', pMI') \<Rightarrow> rx_loop ops nli fuel ctl' pMI')"

definition mt_msg_rx :: "'s stream_ops \<Rightarrow> bool \<Rightarrow> nat \<Rightarrow> 's mt_iface \<Rightarrow> (mt_msg option \<times> 's mt_iface) run" where
  "mt_msg_rx ops nli fuel pMI =
     (case pCurRxMsg pMI of
        Some pMsg \<Rightarrow> rx_loop ops nli fuel Try_again (pMI\<lparr>pCurRxMsg := Some (MT_MSG_resetMsg pMsg (-1) (-1) (-1))\<rparr>)
      | None \<Rightarrow>
          (case alloc_msg (-1) (-1) (-1) pMI of
             (None, pMI1) \<Rightarrow> Returned (None, pMI1)
           | (Some pMsg, pMI1) \<Rightarrow>
               rx_loop ops nli fuel Try_again (pMI1\<lparr>pCurRxMsg := Some (MT_MSG_setSrcIface pMsg (Some (cfg pMI)))\<rparr>)))"

section \<open>What a message holds\<close>

definition holding :: "mt_msg \<Rightarrow> bytes \<Rightarrow> bool" where
  "holding p bs \<longleftrightarrow> wf_msg p \<and> \<not> is_error p \<and> iobuf_nvalid p = int (length bs) \<and>
     take (length bs) (iobuf p) = bs \<and> length bs \<le> IOBUF_SIZE"

lemma holding_update [simp]:
  "holding (p\<lparr>iobuf_idx := i\<rparr>) bs = holding p bs"
  "holding (p\<lparr>expected_len := l\<rparr>) bs = holding p bs"
  "holding (p\<lparr>cmd0 := a\<rparr>) bs = holding p bs"
  "holding (p\<lparr>cmd1 := b\<rparr>) bs = holding p bs"
  "holding (p\<lparr>m_type := y\<rparr>) bs = holding p bs"
  by (simp_all add: holding_def wf_msg_def)

lemma rd_at:
  assumes "holding p (xs @ ys @ zs)" "iobuf_idx p = int (length xs)"
  shows "MT_MSG_rdUX p (8 * int (length ys)) = Some (from_le ys, p\<lparr>iobuf_idx := int (length xs + length ys)\<rparr>)"
proof -
  have "take (length ys) (drop (length xs) (iobuf p)) = ys"
    using arg_cong[of _ _ "\<lambda>l. take (length ys) (drop (length xs) l)"] assms(1)
    unfolding holding_def by (metis (no_types, lifting) append_eq_conv_conj append_take_drop_id append_assoc)
  then show ?thesis
    using rdUX_ok[of p "length ys" ys] assms by (simp add: holding_def wf_msg_def)
qed

lemma rdU8_at:
  assumes "holding p (xs @ b # zs)" "iobuf_idx p = int (length xs)"
  shows "MT_MSG_rdU8 p = Some (b, p\<lparr>iobuf_idx := int (length xs + 1)\<rparr>)"
proof -
  have "(ucast (ucast b :: u64) :: u8) = b" by (rule bit_word_eqI) (auto simp: bit_simps)
  then show ?thesis using rd_at[of p xs "[b]" zs] assms by (simp add: MT_MSG_rdU8_def)
qed

lemma rdU16_at:
  assumes "holding p (xs @ le_bytes 2 (word_of_nat n) @ zs)" "iobuf_idx p = int (length xs)"
  shows "MT_MSG_rdU16 p = Some (word_of_nat n, p\<lparr>iobuf_idx := int (length xs + 2)\<rparr>)"
proof -
  have "(ucast (take_bit 16 (word_of_nat n :: u64)) :: u16) = word_of_nat n"
    by (rule bit_word_eqI) (auto simp: bit_simps)
  then show ?thesis
    using rd_at[OF assms] by (simp add: MT_MSG_rdU16_def from_le_bytes)
qed

text \<open>The length of a payload fits the length field of the interface.\<close>

definition len_fits :: "mt_cfg \<Rightarrow> nat \<Rightarrow> bool" where
  "len_fits c n \<longleftrightarrow> n < (if len_2bytes c then 65536 else 256)"

lemma rx_fields_ok:
  assumes h: "holding p (hdr_bytes c n c0 c1 @ ext)" and i: "iobuf_idx p = 0" and n: "len_fits c n"
  shows "rx_fields c p = Some (p\<lparr>iobuf_idx := hdr_len c, expected_len := int n, cmd0 := uint c0, cmd1 := uint c1\<rparr>)"
proof -
  define s where "s = (if frame_sync c then [0xfe :: u8] else [])"
  let ?l = "len_bytes c n"
  have hd: "hdr_bytes c n c0 c1 @ ext = s @ ?l @ c0 # c1 # ext" by (simp add: hdr_bytes_def s_def)
  let ?p1 = "p\<lparr>iobuf_idx := int (length s)\<rparr>"
  let ?p2 = "p\<lparr>iobuf_idx := int (length (s @ ?l)), expected_len := int n\<rparr>"
  have 1: "(if frame_sync c then do { (_, q) \<leftarrow> MT_MSG_rdU8 p; Some q } else Some p) = Some ?p1"
    using rdU8_at[of p "[]" "0xfe"] h i by (auto simp: hdr_bytes_def s_def)
  have 2: "(if len_2bytes c then do { (l, q) \<leftarrow> MT_MSG_rdU16 ?p1; Some (q\<lparr>expected_len := uint l\<rparr>) }
            else do { (l, q) \<leftarrow> MT_MSG_rdU8 ?p1; Some (q\<lparr>expected_len := uint l\<rparr>) }) = Some ?p2"
  proof (cases "len_2bytes c")
    case True
    have "uint (word_of_nat n :: u16) = int n"
      using n True by (simp add: len_fits_def unsigned_of_nat take_bit_nat_eq_self)
    then show ?thesis using rdU16_at[of ?p1 s n "c0 # c1 # ext"] h True by (simp add: hd len_bytes_def)
  next
    case False
    have "(ucast (word_of_nat n :: u64) :: u8) = word_of_nat n" by (rule bit_word_eqI) (auto simp: bit_simps)
    moreover have "uint (word_of_nat n :: u8) = int n"
      using n False by (simp add: len_fits_def unsigned_of_nat take_bit_nat_eq_self)
    ultimately show ?thesis
      using rdU8_at[of ?p1 s "word_of_nat n" "c0 # c1 # ext"] h False by (simp add: hd len_bytes_def)
  qed
  have 3: "MT_MSG_rdU8 ?p2 = Some (c0, ?p2\<lparr>iobuf_idx := int (length (s @ ?l) + 1)\<rparr>)"
    using rdU8_at[of ?p2 "s @ ?l" c0 "c1 # ext"] h by (simp add: hd)
  let ?p3 = "?p2\<lparr>iobuf_idx := int (length (s @ ?l) + 1), cmd0 := uint c0\<rparr>"
  have 4: "MT_MSG_rdU8 ?p3 = Some (c1, ?p3\<lparr>iobuf_idx := int (length ((s @ ?l) @ [c0]) + 1)\<rparr>)"
    using rdU8_at[of ?p3 "(s @ ?l) @ [c0]" c1 ext] h by (simp add: hd)
  have "int (length ((s @ ?l) @ [c0]) + 1) = hdr_len c"
    by (simp add: s_def hdr_len_def length_len_bytes)
  then show ?thesis unfolding rx_fields_def 1 bind.bind_lunit 2 using 3 4 by simp
qed

text \<open>A message as the receiver hands it out.\<close>

definition delivered :: "mt_cfg \<Rightarrow> u8 \<Rightarrow> u8 \<Rightarrow> bytes \<Rightarrow> mt_msg \<Rightarrow> bool" where
  "delivered c c0 c1 pl m \<longleftrightarrow>
     holding m (mt_frame c c0 c1 pl) \<and> cmd0 m = uint c0 \<and> cmd1 m = uint c1 \<and>
     expected_len m = int (length pl) \<and> iobuf_idx m = hdr_len c \<and> pSrcIface m = Some c \<and>
     m_type m = m_type (MT_MSG_set_type m (Some c))"

lemma length_mt_frame: "int (length (mt_frame c c0 c1 pl)) = rx_hdr_len c + int (length pl)"
  using length_hdr_bytes[of c "length pl" c0 c1] by (simp add: mt_frame_def rx_hdr_len_def)

lemma rx_hdr_len_bounds: "3 \<le> rx_hdr_len c" "rx_hdr_len c \<le> 6"
  using hdr_len_bounds[of c] by (simp_all add: rx_hdr_len_def)

lemma set_type_update [simp]:
  "m_type (MT_MSG_set_type (p\<lparr>iobuf_idx := i\<rparr>) pMI) = m_type (MT_MSG_set_type p pMI)"
  "MT_MSG_set_type (MT_MSG_set_type p pMI) pMI = MT_MSG_set_type p pMI"
  by (cases pMI; simp add: MT_MSG_set_type_def Let_def)+

lemma set_type_fields [simp]:
  "holding (MT_MSG_set_type p pMI) bs = holding p bs"
  "cmd0 (MT_MSG_set_type p pMI) = cmd0 p" "cmd1 (MT_MSG_set_type p pMI) = cmd1 p"
  "expected_len (MT_MSG_set_type p pMI) = expected_len p" "pSrcIface (MT_MSG_set_type p pMI) = pSrcIface p"
  by (simp_all add: MT_MSG_set_type_def)

lemma rx_finish_ok:
  assumes p: "pCurRxMsg pMI = Some p" and h: "holding p (mt_frame c c0 c1 pl)"
    and f: "cfg pMI = c" "pSrcIface p = Some c" "expected_len p = int (length pl)" "iobuf_idx p = hdr_len c"
      "cmd0 p = uint c0" "cmd1 p = uint c1"
  shows "\<exists>m. rx_finish ops nli pMI = Some (Return (Some m),
      pMI\<lparr>pCurRxMsg := None, msg_Dbg := (msg_Dbg pMI)\<lparr>num_rx_pkt := num_rx_pkt (msg_Dbg pMI) + 1\<rparr>\<rparr>) \<and>
    delivered c c0 c1 pl m"
proof -
  let ?F = "mt_frame c c0 c1 pl" and ?q = "p\<lparr>iobuf_idx := hdr_len c + int (length pl)\<rparr>"
  have sz: "length ?F \<le> IOBUF_SIZE" "length (iobuf p) = IOBUF_SIZE" "iobuf_idx_max p = int IOBUF_SIZE" "\<not> is_error p"
    "take (length ?F) (iobuf p) = ?F" "iobuf_nvalid p = int (length ?F)"
    using h by (auto simp: holding_def wf_msg_def)
  have l: "length pl < 2 ^ 31" "hdr_len c + int (length pl) \<le> int IOBUF_SIZE"
    using sz(1) length_mt_frame[of c c0 c1 pl] hdr_len_bounds[of c] by (auto simp: rx_hdr_len_def IOBUF_SIZE_def split: if_splits)
  have skip: "MT_MSG_rdBuf p None (length pl) = Some (None, ?q)"
    using sz l f(4) hdr_len_bounds(1)[of c] by (auto simp: MT_MSG_rdBuf_def init_rd_idx_def c_int_small)
  have k: "(if include_chksum c then MT_MSG_calc_chksum ?q True (iobuf_nvalid ?q) else Some 0) = Some 0"
    using chksum_of_frame[of c ?q ?F c0 c1 pl] f(2) sz by auto
  let ?m = "(MT_MSG_set_type ?q (Some c))\<lparr>iobuf_idx := hdr_len c\<rparr>"
  have "delivered c c0 c1 pl ?m"
    using h f by (simp add: delivered_def)
  then show ?thesis using p f skip k by (intro exI[of _ ?m]) (simp add: rx_finish_def)
qed

section \<open>What a run keeps\<close>

lemma rx_bytes_keeps:
  "mt_msg_rx_bytes ops nli n t pMI = Some (r, pMI') \<Longrightarrow> cfg pMI' = cfg pMI \<and> calloc_fails pMI' = calloc_fails pMI"
  by (auto simp: mt_msg_rx_bytes_def bind_eq_Some_conv Let_def split: if_splits prod.splits)

lemma rx_finish_keeps:
  "rx_finish ops nli pMI = Some (ctl, pMI') \<Longrightarrow> cfg pMI' = cfg pMI \<and> calloc_fails pMI' = calloc_fails pMI"
  by (auto simp: rx_finish_def bind_eq_Some_conv split: if_splits)

lemma rx_sync_no_message: "rx_sync nli n p = Some (Some go, p') \<Longrightarrow> go \<noteq> Return (Some m)"
  by (auto simp: rx_sync_def bind_eq_Some_conv Let_def split: if_splits)

lemma rx_data_cases:
  assumes "rx_data ops nli nneed r pMI = Some (ctl, pMI')"
  obtains (go) "\<And>m. ctl \<noteq> Return (Some m)" "cfg pMI' = cfg pMI" "calloc_fails pMI' = calloc_fails pMI"
  | (finish) pMI1 where "rx_finish ops nli pMI1 = Some (ctl, pMI')" "cfg pMI1 = cfg pMI" "calloc_fails pMI1 = calloc_fails pMI"
proof -
  obtain p0 p1 n where 1: "pCurRxMsg pMI = Some p0" "rx_fields (cfg pMI) p0 = Some p1" "int_add nneed (expected_len p1) = Some n"
    using assms by (auto simp: rx_data_def bind_eq_Some_conv)
  let ?q = "pMI\<lparr>pCurRxMsg := Some p1\<rparr>"
  show thesis
  proof (cases nli)
    case True
    then show ?thesis using assms 1 that(1) that(2)[of ?q] by (auto simp: rx_data_def Let_def split: if_splits)
  next
    case False
    then obtain k pMI2 where 2: "mt_msg_rx_bytes ops False n (intersymbol_timeout_mSecs pMI) ?q = Some (k, pMI2)"
      using assms 1 by (cases "mt_msg_rx_bytes ops False n (intersymbol_timeout_mSecs pMI) ?q") (auto simp: rx_data_def)
    then show ?thesis
      using assms 1 False rx_bytes_keeps[OF 2] that(1) that(2)[of pMI2] by (auto simp: rx_data_def Let_def split: if_splits)
  qed
qed

lemma rx_read_more_cases:
  assumes "rx_read_more ops nli nneed pMI = Some (ctl, pMI')"
  obtains (go) "\<And>m. ctl \<noteq> Return (Some m)" "cfg pMI' = cfg pMI" "calloc_fails pMI' = calloc_fails pMI"
  | (finish) pMI1 where "rx_finish ops nli pMI1 = Some (ctl, pMI')" "cfg pMI1 = cfg pMI" "calloc_fails pMI1 = calloc_fails pMI"
proof -
  obtain r pMI1 where 1: "mt_msg_rx_bytes ops nli nneed (intermsg_timeout_mSecs pMI) pMI = Some (r, pMI1)"
    using assms by (auto simp: rx_read_more_def bind_eq_Some_conv)
  note k = rx_bytes_keeps[OF 1]
  show thesis
  proof (cases "r \<le> 0")
    case True
    then show ?thesis using assms 1 k by (intro go) (auto simp: rx_read_more_def)
  next
    case False
    then obtain p1 where p1: "pCurRxMsg pMI1 = Some p1"
      using assms 1 by (cases "pCurRxMsg pMI1") (simp_all add: rx_read_more_def)
    let ?S = "if frame_sync (cfg pMI) then rx_sync nli nneed (p1\<lparr>iobuf_idx := 0\<rparr>) else Some (None, p1\<lparr>iobuf_idx := 0\<rparr>)"
    have "?S \<noteq> None" using assms 1 p1 False by (cases ?S) (simp_all add: rx_read_more_def split del: if_split)
    then obtain ct p2 where 2: "pCurRxMsg pMI1 = Some p1" "?S = Some (ct, p2)" using p1 by fast
    show ?thesis
    proof (cases ct)
      case None
      then have "rx_data ops nli nneed r (pMI1\<lparr>pCurRxMsg := Some p2, msg_Dbg := msg_Dbg pMI1\<rparr>) = Some (ctl, pMI')"
        using assms 1 2 False by (simp add: rx_read_more_def split del: if_split)
      then show ?thesis by (cases rule: rx_data_cases) (use k go finish in \<open>auto\<close>)
    next
      case (Some g)
      then have "g \<noteq> Return (Some m)" for m using 2(2) rx_sync_no_message by (auto split: if_splits)
      moreover have "ctl = g" "cfg pMI' = cfg pMI1" "calloc_fails pMI' = calloc_fails pMI1"
        using assms 1 2 Some False by (auto simp: rx_read_more_def Let_def split del: if_split)
      ultimately show ?thesis using k by (intro go) auto
    qed
  qed
qed

lemma rx_step_keeps:
  "rx_step ops nli ctl pMI = Some (ctl', pMI') \<Longrightarrow> cfg pMI' = cfg pMI \<and> calloc_fails pMI' = calloc_fails pMI"
  by (cases ctl) (auto simp: bind_eq_Some_conv dest: rx_finish_keeps elim!: rx_read_more_cases)

lemma rx_loop_keeps:
  "rx_loop ops nli fuel ctl pMI = Returned (m, pMI') \<Longrightarrow> cfg pMI' = cfg pMI \<and> calloc_fails pMI' = calloc_fails pMI"
proof (induction fuel arbitrary: ctl pMI)
  case (Suc fuel)
  then show ?case
    by (cases ctl; cases "rx_step ops nli ctl pMI") (auto dest!: rx_step_keeps simp del: rx_step.simps)
next
  case 0
  then show ?case by (cases ctl) auto
qed

text \<open>A message is only handed out by \<open>rx_finish\<close>, after the checksum.\<close>

lemma calc_chksum_set_type:
  "MT_MSG_calc_chksum ((MT_MSG_set_type p c)\<lparr>iobuf_idx := i\<rparr>) f n = MT_MSG_calc_chksum p f n"
  "iobuf_nvalid ((MT_MSG_set_type p c)\<lparr>iobuf_idx := i\<rparr>) = iobuf_nvalid p"
  by (simp_all add: MT_MSG_calc_chksum_def MT_MSG_set_type_def)

lemma rx_finish_checks:
  assumes "rx_finish ops nli pMI = Some (Return (Some m), pMI')" "include_chksum (cfg pMI)"
  shows "MT_MSG_calc_chksum m True (iobuf_nvalid m) = Some 0"
proof -
  obtain p0 where p0: "pCurRxMsg pMI = Some p0"
    using assms(1) by (cases "pCurRxMsg pMI") (simp_all add: rx_finish_def)
  obtain x p1 where p1: "MT_MSG_rdBuf p0 None (nat (expected_len p0)) = Some (x, p1)"
    using assms(1) p0 by (cases "MT_MSG_rdBuf p0 None (nat (expected_len p0))") (auto simp: rx_finish_def)
  obtain k where k: "MT_MSG_calc_chksum p1 True (iobuf_nvalid p1) = Some k"
    using assms p0 p1 by (cases "MT_MSG_calc_chksum p1 True (iobuf_nvalid p1)") (auto simp: rx_finish_def)
  have "k = 0" "m = (MT_MSG_set_type p1 (pSrcIface p1))\<lparr>iobuf_idx := hdr_len (cfg pMI)\<rparr>"
    using assms p0 p1 k by (auto simp: rx_finish_def split: if_splits)
  then show ?thesis using k by (simp only: calc_chksum_set_type)
qed

lemma rx_step_checks:
  assumes "rx_step ops nli ctl pMI = Some (Return (Some m), pMI')" "include_chksum (cfg pMI)" "ctl \<noteq> Return (Some m)"
  shows "MT_MSG_calc_chksum m True (iobuf_nvalid m) = Some 0"
proof (cases ctl)
  case (Read_more n)
  then have "rx_read_more ops nli n pMI = Some (Return (Some m), pMI')" using assms(1) by simp
  then show ?thesis by (cases rule: rx_read_more_cases) (use assms(2) in \<open>auto dest: rx_finish_checks\<close>)
qed (use assms in \<open>auto simp: bind_eq_Some_conv\<close>)

lemma rx_loop_checks:
  assumes "rx_loop ops nli fuel ctl pMI = Returned (Some m, pMI')" "include_chksum (cfg pMI)" "ctl \<noteq> Return (Some m)"
  shows "MT_MSG_calc_chksum m True (iobuf_nvalid m) = Some 0"
  using assms
proof (induction fuel arbitrary: ctl pMI)
  case (Suc fuel)
  show ?case
  proof (cases "rx_step ops nli ctl pMI")
    case None
    then show ?thesis using Suc.prems by (cases ctl) (simp_all del: rx_step.simps)
  next
    case (Some a)
    obtain ctl' pMIb where a: "a = (ctl', pMIb)" by (cases a)
    have "rx_loop ops nli fuel ctl' pMIb = Returned (Some m, pMI')"
      using Suc.prems(1,3) Some a by (cases ctl) (auto simp del: rx_step.simps simp: rx_step.simps(3))
    then show ?thesis
      using Suc.IH[of ctl' pMIb] Suc.prems(2,3) Some a rx_step_keeps[of ops nli ctl pMI ctl' pMIb]
        rx_step_checks[of ops nli ctl pMI m pMIb] by (cases "ctl' = Return (Some m)") auto
  qed
next
  case 0
  then show ?case by (cases ctl) auto
qed

lemma resetMsg_fields:
  "holding (MT_MSG_resetMsg q len (-1) (-1)) [] = wf_msg q"
  "pSrcIface (MT_MSG_resetMsg q len (-1) (-1)) = pSrcIface q"
  by (simp_all add: MT_MSG_resetMsg_def MT_MSG_set_type_def holding_def wf_msg_def)

text \<open>How a call starts when a message is at hand or can be allocated.\<close>

lemma mt_msg_rx_starts:
  assumes "calloc_fails pMI = []" "\<forall>p. pCurRxMsg pMI = Some p \<longrightarrow> wf_msg p \<and> pSrcIface p = Some (cfg pMI)"
  shows "\<exists>p I. mt_msg_rx ops nli fuel pMI = rx_loop ops nli fuel Try_again (I\<lparr>pCurRxMsg := Some p\<rparr>) \<and>
    holding p [] \<and> pSrcIface p = Some (cfg pMI) \<and> cfg I = cfg pMI \<and> hndl I = hndl pMI \<and> calloc_fails I = []"
proof (cases "pCurRxMsg pMI")
  case None
  obtain p ctr where a: "MT_MSG_alloc True (sequence_no pMI) (-1) (-1) (-1) = (Some p, ctr)"
    by (simp add: MT_MSG_alloc_def)
  let ?p = "p\<lparr>pSrcIface := Some (cfg pMI)\<rparr>" and ?I = "pMI\<lparr>sequence_no := ctr, calloc_fails := []\<rparr>"
  have "mt_msg_rx ops nli fuel pMI = rx_loop ops nli fuel Try_again (?I\<lparr>pCurRxMsg := Some ?p\<rparr>)"
    using None a assms(1) by (simp add: mt_msg_rx_def alloc_msg_def MT_MSG_setSrcIface_def)
  moreover have "holding ?p []" using alloc_fields[OF a] by (simp add: holding_def wf_msg_def)
  ultimately show ?thesis by (intro exI[of _ ?p] exI[of _ ?I]) simp
next
  case (Some q)
  let ?p = "MT_MSG_resetMsg q (-1) (-1) (-1)"
  have "mt_msg_rx ops nli fuel pMI = rx_loop ops nli fuel Try_again (pMI\<lparr>pCurRxMsg := Some ?p\<rparr>)"
    using Some by (simp add: mt_msg_rx_def)
  then show ?thesis using Some assms by (intro exI[of _ ?p] exI[of _ pMI]) (simp add: resetMsg_fields)
qed

section \<open>Receiving from a source\<close>

text \<open>A receiver about to look for a message: the message being filled belongs to this interface.\<close>

definition rx_state :: "mt_cfg \<Rightarrow> bytes \<Rightarrow> 's mt_iface \<Rightarrow> bool" where
  "rx_state c got pMI \<longleftrightarrow> cfg pMI = c \<and> (\<exists>p. pCurRxMsg pMI = Some p \<and> holding p got \<and> pSrcIface p = Some c)"

locale mt_source =
  fixes sinv :: "'s \<Rightarrow> bool" and contents :: "'s \<Rightarrow> bytes" and ops :: "'s stream_ops"
  assumes source: "byte_source sinv contents (s_rd ops)"

sublocale mt_source \<subseteq> byte_source sinv contents "s_rd ops"
  by (rule source)

context mt_source
begin

lemma rx_bytes_ok:
  assumes "pCurRxMsg pMI = Some p" "holding p got" "sinv (hndl pMI)" "length got \<le> n" "n \<le> IOBUF_SIZE"
    and "n - length got \<le> length (contents (hndl pMI))"
  obtains s b where "mt_msg_rx_bytes ops False (int n) t pMI =
      Some (int n, pMI\<lparr>hndl := s, pCurRxMsg := Some (p\<lparr>iobuf := b, iobuf_nvalid := int n\<rparr>)\<rparr>)"
    "holding (p\<lparr>iobuf := b, iobuf_nvalid := int n\<rparr>) (got @ take (n - length got) (contents (hndl pMI)))"
    "contents s = drop (n - length got) (contents (hndl pMI))" "sinv s"
proof (cases "n = length got")
  case True
  then show ?thesis
    using that[where s = "hndl pMI" and b = "iobuf p"] assms by (simp add: mt_msg_rx_bytes_def holding_def wf_msg_def)
next
  case False
  let ?k = "n - length got" and ?new = "take (n - length got) (contents (hndl pMI))"
  have k: "0 < ?k" "?k < 2 ^ 31" using False assms(4,5) by (auto simp: IOBUF_SIZE_def)
  obtain s where s: "s_rd ops (hndl pMI) ?k t = (int ?k, ?new, s)" "contents s = drop ?k (contents (hndl pMI))" "sinv s"
    using rdb_enough[OF assms(3) k assms(6)] by metis
  let ?b = "overlay (length got) ?new (iobuf p)"
  have nv: "iobuf_nvalid p = int (length got)" "length (iobuf p) = IOBUF_SIZE" "take (length got) (iobuf p) = got"
    using assms(2) by (auto simp: holding_def wf_msg_def)
  have l: "length ?new = ?k" using assms(6) by simp
  have w: "mem_wr (length got) ?new (iobuf p) = Some ?b"
    using assms(4,5) nv l by (intro mem_wr_overlay) simp
  have b: "take n ?b = got @ ?new" "length ?b = IOBUF_SIZE"
    using assms(4,5) nv l by (simp_all add: overlay_def)
  have e: "nat (int n - int (length got)) = ?k" "\<not> int n \<le> int (length got)" "0 < int ?k" "int (length got) + int ?k = int n"
    using assms(4) False by auto
  have "mt_msg_rx_bytes ops False (int n) t pMI =
      Some (int n, pMI\<lparr>hndl := s, pCurRxMsg := Some (p\<lparr>iobuf := ?b, iobuf_nvalid := int n\<rparr>)\<rparr>)"
    using assms(1) s(1) w e by (simp add: mt_msg_rx_bytes_def nv(1) Let_def del: of_nat_diff)
  moreover have "holding (p\<lparr>iobuf := ?b, iobuf_nvalid := int n\<rparr>) (got @ ?new)"
    using assms(2,4,5,6) b l by (auto simp: holding_def wf_msg_def)
  ultimately show ?thesis using that s by blast
qed

text \<open>One pass that starts inside a frame: the message is delivered and nothing more is read.\<close>

lemma read_more_frame:
  assumes st: "rx_state c got pMI" and inv: "sinv (hndl pMI)"
    and all: "got @ contents (hndl pMI) = mt_frame c c0 c1 pl @ rest"
    and got: "int (length got) \<le> rx_hdr_len c"
    and n: "len_fits c (length pl)" "length (mt_frame c c0 c1 pl) \<le> IOBUF_SIZE"
  shows "\<exists>m pMI'. rx_read_more ops False (rx_hdr_len c) pMI = Some (Return (Some m), pMI') \<and>
    delivered c c0 c1 pl m \<and> pCurRxMsg pMI' = None \<and> cfg pMI' = c \<and>
    sinv (hndl pMI') \<and> contents (hndl pMI') = rest"
proof -
  let ?F = "mt_frame c c0 c1 pl"
  obtain N where N: "rx_hdr_len c = int N" using rx_hdr_len_bounds(1)[of c] by (metis nonneg_int_cases order_trans zero_le_numeral)
  have n1: "length ?F = N + length pl" "length got \<le> N" "0 < N" "N \<le> 6"
    using N rx_hdr_len_bounds[of c] length_mt_frame[of c c0 c1 pl] got by linarith+
  obtain p where p: "pCurRxMsg pMI = Some p" "holding p got" "pSrcIface p = Some c" "cfg pMI = c"
    using st by (auto simp: rx_state_def)
  have len: "length got + length (contents (hndl pMI)) = length ?F + length rest"
    using arg_cong[OF all, of length] by simp
  obtain s b where r1: "mt_msg_rx_bytes ops False (int N) (intermsg_timeout_mSecs pMI) pMI =
      Some (int N, pMI\<lparr>hndl := s, pCurRxMsg := Some (p\<lparr>iobuf := b, iobuf_nvalid := int N\<rparr>)\<rparr>)"
    and h1: "holding (p\<lparr>iobuf := b, iobuf_nvalid := int N\<rparr>) (got @ take (N - length got) (contents (hndl pMI)))"
    and s1: "contents s = drop (N - length got) (contents (hndl pMI))" "sinv s"
    by (rule rx_bytes_ok[OF p(1,2) inv n1(2), of "intermsg_timeout_mSecs pMI"]) (use n n1 len in auto)
  have got1: "got @ take (N - length got) (contents (hndl pMI)) = take N ?F"
    using arg_cong[OF all, of "take N"] n1 by simp
  have s1': "contents s = drop N ?F @ rest"
    using arg_cong[OF all, of "drop N"] n1 s1(1) by simp
  let ?p1 = "p\<lparr>iobuf := b, iobuf_nvalid := int N, iobuf_idx := 0\<rparr>"
  have h: "hdr_bytes c (length pl) c0 c1 = take (nat (hdr_len c)) ?F" "nat (hdr_len c) \<le> N"
    using length_hdr_bytes[of c "length pl" c0 c1] N by (auto simp: mt_frame_def rx_hdr_len_def split: if_splits)
  have tk: "take N ?F = hdr_bytes c (length pl) c0 c1 @ drop (nat (hdr_len c)) (take N ?F)"
    using h append_take_drop_id[of "nat (hdr_len c)" "take N ?F"] by (simp add: min_def)
  have hp1: "holding ?p1 (take N ?F)" using h1 by (simp only: got1 holding_update)
  have sync: "(if frame_sync c then rx_sync False (int N) ?p1 else Some (None, ?p1)) = Some (None, ?p1)"
  proof (cases "frame_sync c")
    case True
    then have "takeWhile (\<lambda>b. b \<noteq> 0xfe) (take N ?F) = []" "take N ?F \<noteq> []"
      using n1(3) by ((cases N; simp add: mt_frame_def hdr_bytes_def)+)
    moreover have "mem_rd 0 N (iobuf ?p1) = Some (take N ?F)" using hp1 n1 n(2) by (simp add: holding_def wf_msg_def mem_rd_def)
    ultimately show ?thesis using True n1 by (simp add: rx_sync_def)
  qed simp
  let ?p2 = "?p1\<lparr>iobuf_idx := hdr_len c, expected_len := int (length pl), cmd0 := uint c0, cmd1 := uint c1\<rparr>"
  have fl: "rx_fields c ?p1 = Some ?p2"
    using rx_fields_ok[of ?p1 c "length pl" c0 c1 "drop (nat (hdr_len c)) (take N ?F)"] hp1 tk n(1) by simp
  let ?pMI1 = "pMI\<lparr>hndl := s, pCurRxMsg := Some ?p2\<rparr>"
  have hp2: "holding ?p2 (take N ?F)" using hp1 by simp
  obtain s' b' where r2: "mt_msg_rx_bytes ops False (int (length ?F)) (intersymbol_timeout_mSecs pMI) ?pMI1 =
      Some (int (length ?F), ?pMI1\<lparr>hndl := s', pCurRxMsg := Some (?p2\<lparr>iobuf := b', iobuf_nvalid := int (length ?F)\<rparr>)\<rparr>)"
    and h2: "holding (?p2\<lparr>iobuf := b', iobuf_nvalid := int (length ?F)\<rparr>) (take N ?F @ take (length pl) (contents s))"
    and s2: "contents s' = drop (length pl) (contents s)" "sinv s'"
    by (rule rx_bytes_ok[of ?pMI1 ?p2 "take N ?F" "length ?F" "intersymbol_timeout_mSecs pMI"])
      (use hp2 s1(2) s1' n(2) n1 in auto)
  have fr: "take N ?F @ take (length pl) (contents s) = ?F" "contents s' = rest"
    using s1' n1 s2(1) by simp_all
  let ?p3 = "?p2\<lparr>iobuf := b', iobuf_nvalid := int (length ?F)\<rparr>"
  let ?pMI2 = "?pMI1\<lparr>hndl := s', pCurRxMsg := Some ?p3\<rparr>"
  obtain m where m: "rx_finish ops False ?pMI2 = Some (Return (Some m),
      ?pMI2\<lparr>pCurRxMsg := None, msg_Dbg := (msg_Dbg pMI)\<lparr>num_rx_pkt := num_rx_pkt (msg_Dbg pMI) + 1\<rparr>\<rparr>)"
    "delivered c c0 c1 pl m"
    using rx_finish_ok[of ?pMI2 ?p3 c c0 c1 pl ops False] h2 fr p(3,4) by auto
  have add: "int_add (int N) (int (length pl)) = Some (int (length ?F))"
    using N n1 n(2) by (simp add: int_add_def IOBUF_SIZE_def)
  have dat: "rx_data ops False (int N) (int N) (pMI\<lparr>hndl := s, pCurRxMsg := Some ?p1\<rparr>) =
      rx_finish ops False ?pMI2"
    using p(4) fl add r2 by (simp add: rx_data_def)
  have "rx_read_more ops False (rx_hdr_len c) pMI = rx_finish ops False ?pMI2"
    using r1 n1(3) N p(4) sync dat by (cases "frame_sync c") (simp_all add: rx_read_more_def)
  then show ?thesis using m fr(2) s2(2) p(4) by auto
qed

text \<open>One pass that starts in front of a frame: a chunk of noise is thrown away, or the start of the
  frame is moved to the front.\<close>

lemma read_more_noise:
  assumes st: "rx_state c [] pMI" and inv: "sinv (hndl pMI)" and sync: "frame_sync c"
    and all: "contents (hndl pMI) = noise @ mt_frame c c0 c1 pl @ rest" "noise \<noteq> []" "0xfe \<notin> set noise"
  shows "\<exists>got pMI'. rx_state c got pMI' \<and> sinv (hndl pMI') \<and>
    rx_read_more ops False (rx_hdr_len c) pMI =
      Some (if nat (rx_hdr_len c) \<le> length noise then Try_again else Read_more (rx_hdr_len c), pMI') \<and>
    (if nat (rx_hdr_len c) \<le> length noise then contents (hndl pMI') = drop (nat (rx_hdr_len c)) noise @ mt_frame c c0 c1 pl @ rest
     else got @ contents (hndl pMI') = mt_frame c c0 c1 pl @ rest \<and> length got \<le> nat (rx_hdr_len c))"
proof -
  let ?F = "mt_frame c c0 c1 pl"
  obtain N where N: "rx_hdr_len c = int N" using rx_hdr_len_bounds(1)[of c] by (metis nonneg_int_cases order_trans zero_le_numeral)
  have n1: "length ?F = N + length pl" "0 < N" "N \<le> IOBUF_SIZE"
    using N rx_hdr_len_bounds[of c] length_mt_frame[of c c0 c1 pl] unfolding IOBUF_SIZE_def by linarith+
  obtain p where p: "pCurRxMsg pMI = Some p" "holding p []" "pSrcIface p = Some c" "cfg pMI = c"
    using st by (auto simp: rx_state_def)
  let ?new = "take N (contents (hndl pMI))"
  obtain s b where r1: "mt_msg_rx_bytes ops False (int N) (intermsg_timeout_mSecs pMI) pMI =
      Some (int N, pMI\<lparr>hndl := s, pCurRxMsg := Some (p\<lparr>iobuf := b, iobuf_nvalid := int N\<rparr>)\<rparr>)"
    and h1: "holding (p\<lparr>iobuf := b, iobuf_nvalid := int N\<rparr>) ?new"
    and s1: "contents s = drop N (contents (hndl pMI))" "sinv s"
    by (rule rx_bytes_ok[OF p(1,2) inv, of N "intermsg_timeout_mSecs pMI"]) (use all n1 in auto)
  let ?p1 = "p\<lparr>iobuf := b, iobuf_nvalid := int N, iobuf_idx := 0\<rparr>"
  have ln: "length ?new = N" "length b = IOBUF_SIZE" "take N b = ?new"
    using h1 by (auto simp: holding_def wf_msg_def)
  have rd: "mem_rd 0 N b = Some ?new" using ln n1(3) by (simp add: mem_rd_def)
  have tw: "takeWhile (\<lambda>b. b \<noteq> 0xfe) ?new = take N noise"
  proof -
    have F: "?F = 0xfe # tl ?F" using sync by (simp add: mt_frame_def hdr_bytes_def)
    have "takeWhile (\<lambda>b. b \<noteq> 0xfe) (take N noise @ xs) = take N noise @ takeWhile (\<lambda>b. b \<noteq> 0xfe) xs" for xs
      using all(3) by (intro takeWhile_append2) (auto dest: in_set_takeD)
    moreover have "takeWhile (\<lambda>b. b \<noteq> 0xfe) (take k (?F @ rest)) = []" for k
      by (subst F) (cases k; simp)
    moreover have "?new = take N noise @ take (N - length noise) (?F @ rest)"
      by (simp only: all(1) take_append[of N noise])
    ultimately show ?thesis by (simp only: append_Nil2)
  qed
  show ?thesis
  proof (cases "N \<le> length noise")
    case True
    have "rx_sync False (int N) ?p1 = Some (Some Try_again, ?p1)"
      using rd ln(1) tw True by (simp add: rx_sync_def)
    then have "rx_read_more ops False (int N) pMI = Some (Try_again, pMI\<lparr>hndl := s, pCurRxMsg := Some ?p1\<rparr>)"
      using r1 n1(2) sync p(4) by (simp add: rx_read_more_def)
    moreover have "rx_state c ?new (pMI\<lparr>hndl := s, pCurRxMsg := Some ?p1\<rparr>)"
      using h1 p by (simp add: rx_state_def)
    ultimately show ?thesis using True s1 N all(1) by fastforce
  next
    case False
    let ?q = "length noise" and ?b = "overlay 0 (drop (length noise) ?new @ replicate (length noise) 0) b"
    let ?p2 = "?p1\<lparr>iobuf := ?b, iobuf_nvalid := int (N - length noise)\<rparr>"
    have w: "mem_wr 0 (drop ?q ?new @ replicate ?q 0) b = Some ?b"
      using ln n1(3) False by (intro mem_wr_overlay) simp
    have "rx_sync False (int N) ?p1 = Some (Some (Read_more (int N)), ?p2)"
      using rd ln(1) tw False w all(2) by (simp add: rx_sync_def Let_def)
    then have "rx_read_more ops False (int N) pMI = Some (Read_more (int N), pMI\<lparr>hndl := s, pCurRxMsg := Some ?p2\<rparr>)"
      using r1 n1(2) sync p(4) by (simp add: rx_read_more_def)
    moreover have "holding ?p2 (drop ?q ?new)"
      using h1 ln n1(3) False le_trans[OF diff_le_self n1(3)] by (simp add: holding_def wf_msg_def overlay_def)
    then have "rx_state c (drop ?q ?new) (pMI\<lparr>hndl := s, pCurRxMsg := Some ?p2\<rparr>)"
      using p by (simp add: rx_state_def)
    moreover have "drop ?q ?new @ contents s = ?F @ rest"
    proof -
      have "?new @ contents s = noise @ ?F @ rest" by (simp only: s1(1) append_take_drop_id all(1))
      from arg_cong[OF this, of "drop ?q"] ln(1) False show ?thesis by simp
    qed
    ultimately show ?thesis using False s1(2) N ln(1) by fastforce
  qed
qed

lemma rx_loop_delivers:
  assumes "\<exists>got. rx_state c got pMI" "sinv (hndl pMI)"
    and "contents (hndl pMI) = noise @ mt_frame c c0 c1 pl @ rest" "0xfe \<notin> set noise" "noise = [] \<or> frame_sync c"
    and "len_fits c (length pl)" "length (mt_frame c c0 c1 pl) \<le> IOBUF_SIZE" "length noise + 3 \<le> fuel"
  shows "\<exists>m pMI'. rx_loop ops False fuel Try_again pMI = Returned (Some m, pMI') \<and>
    delivered c c0 c1 pl m \<and> pCurRxMsg pMI' = None \<and> cfg pMI' = c \<and>
    sinv (hndl pMI') \<and> contents (hndl pMI') = rest"
  using assms
proof (induction "length noise" arbitrary: noise pMI fuel rule: less_induct)
  case less
  obtain got p where p: "pCurRxMsg pMI = Some p" "holding p got" "pSrcIface p = Some c" "cfg pMI = c"
    using less.prems(1) by (auto simp: rx_state_def)
  obtain f1 where f1: "fuel = Suc (Suc (Suc f1))" "length noise \<le> f1"
    using less.prems(8) by (intro that[of "fuel - 3"]) auto
  obtain p0 where p0: "rx_clear p = Some p0" "holding p0 []" "pSrcIface p0 = Some c"
    using p(2,3) by (auto simp: rx_clear_def holding_def wf_msg_def mem_wr_def)
  let ?pMI = "pMI\<lparr>pCurRxMsg := Some p0\<rparr>" and ?n = "rx_hdr_len c" and ?F = "mt_frame c c0 c1 pl"
  have st: "rx_state c [] ?pMI" using p0 p(4) by (simp add: rx_state_def)
  have step1: "rx_loop ops False fuel Try_again pMI = rx_loop ops False (Suc (Suc f1)) (Read_more ?n) ?pMI"
    using f1 p p0 by simp
  show ?case
  proof (cases "noise = []")
    case True
    then have "[] @ contents (hndl ?pMI) = ?F @ rest" using less.prems(3) by simp
    from read_more_frame[OF st _ this] less.prems(2,6,7) rx_hdr_len_bounds(1)[of c] step1
    show ?thesis by force
  next
    case False
    obtain got1 pMI1 where n1: "rx_state c got1 pMI1" "sinv (hndl pMI1)"
      "rx_read_more ops False ?n ?pMI = Some (if nat ?n \<le> length noise then Try_again else Read_more ?n, pMI1)"
      "if nat ?n \<le> length noise then contents (hndl pMI1) = drop (nat ?n) noise @ ?F @ rest
       else got1 @ contents (hndl pMI1) = ?F @ rest \<and> length got1 \<le> nat ?n"
      using read_more_noise[OF st, of noise c0 c1 pl rest] less.prems(2-5) False by auto
    show ?thesis
    proof (cases "nat ?n \<le> length noise")
      case True
      have "length (drop (nat ?n) noise) < length noise" using False rx_hdr_len_bounds(1)[of c] by simp
      moreover have "0xfe \<notin> set (drop (nat ?n) noise)" using less.prems(4) in_set_dropD by fastforce
      moreover have "length (drop (nat ?n) noise) + 3 \<le> Suc f1"
        using True f1(2) rx_hdr_len_bounds(1)[of c] by auto
      ultimately have "\<exists>m pMI'. rx_loop ops False (Suc f1) Try_again pMI1 = Returned (Some m, pMI') \<and>
          delivered c c0 c1 pl m \<and> pCurRxMsg pMI' = None \<and> cfg pMI' = c \<and>
          sinv (hndl pMI') \<and> contents (hndl pMI') = rest"
        using less.hyps[of "drop (nat ?n) noise" pMI1 "Suc f1"] n1 True less.prems(5-7) by auto
      then show ?thesis using step1 n1(3) True by simp
    next
      case near: False
      have "int (length got1) \<le> ?n" using near n1(4) rx_hdr_len_bounds(1)[of c] by (simp add: le_nat_iff)
      then have "\<exists>m pMI'. rx_read_more ops False ?n pMI1 = Some (Return (Some m), pMI') \<and>
          delivered c c0 c1 pl m \<and> pCurRxMsg pMI' = None \<and> cfg pMI' = c \<and>
          sinv (hndl pMI') \<and> contents (hndl pMI') = rest"
        using near n1 less.prems(6,7) by (intro read_more_frame) auto
      then show ?thesis using step1 n1(3) near by force
    qed
  qed
qed

text \<open>The call itself: a message is at hand or can be allocated.\<close>

lemma mt_msg_rx_delivers:
  assumes "cfg pMI = c" "calloc_fails pMI = []"
    and "\<forall>p. pCurRxMsg pMI = Some p \<longrightarrow> wf_msg p \<and> pSrcIface p = Some c"
    and "sinv (hndl pMI)" "contents (hndl pMI) = noise @ mt_frame c c0 c1 pl @ rest"
    and "0xfe \<notin> set noise" "noise = [] \<or> frame_sync c"
    and "len_fits c (length pl)" "length (mt_frame c c0 c1 pl) \<le> IOBUF_SIZE" "length noise + 3 \<le> fuel"
  shows "\<exists>m pMI'. mt_msg_rx ops False fuel pMI = Returned (Some m, pMI') \<and>
    delivered c c0 c1 pl m \<and> pCurRxMsg pMI' = None \<and> cfg pMI' = c \<and> calloc_fails pMI' = [] \<and>
    sinv (hndl pMI') \<and> contents (hndl pMI') = rest"
proof -
  obtain p pMI1 where s: "mt_msg_rx ops False fuel pMI = rx_loop ops False fuel Try_again (pMI1\<lparr>pCurRxMsg := Some p\<rparr>)"
    "holding p []" "pSrcIface p = Some c" "cfg pMI1 = c" "hndl pMI1 = hndl pMI" "calloc_fails pMI1 = []"
    using mt_msg_rx_starts[of pMI ops False fuel] assms(1-3) by auto
  let ?q = "pMI1\<lparr>pCurRxMsg := Some p\<rparr>"
  have st: "\<exists>got. rx_state c got ?q" using s(2-4) by (auto simp: rx_state_def)
  have q: "sinv (hndl ?q)" "contents (hndl ?q) = noise @ mt_frame c c0 c1 pl @ rest"
    using assms(4,5) s(5) by simp_all
  obtain m pMI' where r: "rx_loop ops False fuel Try_again ?q = Returned (Some m, pMI')"
    "delivered c c0 c1 pl m" "pCurRxMsg pMI' = None" "cfg pMI' = c" "sinv (hndl pMI')" "contents (hndl pMI') = rest"
    using rx_loop_delivers[OF st q assms(6-10)] by blast
  have "calloc_fails pMI' = []" using rx_loop_keeps[OF r(1)] s(6) by simp
  then show ?thesis unfolding s(1) using r by blast
qed

text \<open>A declared length larger than the io buffer.\<close>

lemma rx_loop_overflow:
  assumes "rx_state c got pMI" "sinv (hndl pMI)" "contents (hndl pMI) = hdr_bytes c n c0 c1 @ rest"
    and "len_fits c n" "int IOBUF_SIZE < rx_hdr_len c + int n"
    and "rx_hdr_len c + int n \<le> int (length (contents (hndl pMI)))"
  shows "rx_loop ops False (Suc (Suc fuel)) Try_again pMI = Crashed"
proof -
  obtain p where p: "pCurRxMsg pMI = Some p" "holding p got" "pSrcIface p = Some c" "cfg pMI = c"
    using assms(1) by (auto simp: rx_state_def)
  obtain p0 where p0: "rx_clear p = Some p0" "holding p0 []"
    using p(2) by (auto simp: rx_clear_def holding_def wf_msg_def mem_wr_def)
  let ?I = "pMI\<lparr>pCurRxMsg := Some p0\<rparr>" and ?C = "contents (hndl pMI)"
  obtain N where N: "rx_hdr_len c = int N" using rx_hdr_len_bounds(1)[of c] by (metis nonneg_int_cases order_trans zero_le_numeral)
  have n1: "0 < N" "N \<le> IOBUF_SIZE" "N \<le> length ?C" "n < 65536" "nat (hdr_len c) \<le> N" "N \<le> 6"
    using N rx_hdr_len_bounds[of c] assms(4,6) by (auto simp: len_fits_def IOBUF_SIZE_def rx_hdr_len_def split: if_splits)
  obtain s b where r1: "mt_msg_rx_bytes ops False (int N) (intermsg_timeout_mSecs ?I) ?I =
      Some (int N, ?I\<lparr>hndl := s, pCurRxMsg := Some (p0\<lparr>iobuf := b, iobuf_nvalid := int N\<rparr>)\<rparr>)"
    and h1: "holding (p0\<lparr>iobuf := b, iobuf_nvalid := int N\<rparr>) (take N ?C)"
    and s1: "contents s = drop N ?C" "sinv s"
    by (rule rx_bytes_ok[of ?I p0 "[]" N "intermsg_timeout_mSecs ?I"]) (use p0 assms(2) n1 in auto)
  let ?p1 = "p0\<lparr>iobuf := b, iobuf_nvalid := int N, iobuf_idx := 0\<rparr>"
  have lh: "length (hdr_bytes c n c0 c1) = nat (hdr_len c)" using length_hdr_bytes[of c n c0 c1] by linarith
  have tk: "take N ?C = hdr_bytes c n c0 c1 @ take (N - nat (hdr_len c)) rest"
    using n1(5) lh by (simp add: assms(3))
  have hp1: "holding ?p1 (take N ?C)" using h1 by (simp only: holding_update)
  have sync: "(if frame_sync c then rx_sync False (int N) ?p1 else Some (None, ?p1)) = Some (None, ?p1)"
  proof (cases "frame_sync c")
    case True
    then have "takeWhile (\<lambda>b. b \<noteq> 0xfe) (take N ?C) = []" "take N ?C \<noteq> []"
      using n1(1) by (simp_all add: tk hdr_bytes_def)
    moreover have "length (take N ?C) = N" using n1 by simp
    then have "take N b = take N ?C" "length b = IOBUF_SIZE" using h1 by (auto simp: holding_def wf_msg_def)
    then have "mem_rd 0 N (iobuf ?p1) = Some (take N ?C)" using n1 by (simp add: mem_rd_def)
    ultimately show ?thesis using True n1 by (simp add: rx_sync_def)
  qed simp
  let ?p2 = "?p1\<lparr>iobuf_idx := hdr_len c, expected_len := int n, cmd0 := uint c0, cmd1 := uint c1\<rparr>"
  have fl: "rx_fields c ?p1 = Some ?p2"
    using rx_fields_ok[of ?p1 c n c0 c1 "take (N - nat (hdr_len c)) rest"] hp1 tk assms(4) by simp
  have add: "int_add (int N) (int n) = Some (int (N + n))" using n1 by (simp add: int_add_def)
  let ?J = "?I\<lparr>hndl := s, pCurRxMsg := Some ?p2\<rparr>"
  have k: "0 < n" "n < 2 ^ 31" "n \<le> length (contents s)"
    using assms(5,6) N n1 s1(1) by auto
  obtain s' where s': "s_rd ops s n (intersymbol_timeout_mSecs pMI) = (int n, take n (contents s), s')"
    using rdb_enough[OF s1(2) k] by metis
  have "mem_wr N (take n (contents s)) b = None"
    using assms(5) N hp1 k(3) by (auto simp: mem_wr_def holding_def wf_msg_def)
  then have "mt_msg_rx_bytes ops False (int (N + n)) (intersymbol_timeout_mSecs pMI) ?J = None"
    using s' k(1) by (simp add: mt_msg_rx_bytes_def)
  then have "rx_data ops False (int N) (int N) (?I\<lparr>hndl := s, pCurRxMsg := Some ?p1\<rparr>) = None"
    using p(4) fl add by (simp add: rx_data_def)
  then have "rx_read_more ops False (int N) ?I = None"
    using r1 n1(1) p(4) sync by (cases "frame_sync c") (simp_all add: rx_read_more_def)
  then show ?thesis using p p0 N by simp
qed

text \<open>A sync byte followed by silence: every pass asks for more, none ends.\<close>

lemma underflow_fields:
  assumes "holding p [0xfe]" "iobuf_idx p = 0" "frame_sync c"
  shows "\<exists>q. rx_fields c p = Some q \<and> holding q [0xfe] \<and> 0 \<le> expected_len q \<and> pSrcIface q = pSrcIface p"
proof -
  have 1: "MT_MSG_rdU8 p = Some (0xfe, p\<lparr>iobuf_idx := 1\<rparr>)" using rdU8_at[of p "[]" "0xfe" "[]"] assms by simp
  have u: "rdUX_loop 0 n 0 q = Some (-1, q)" if "0 < n" "iobuf_idx q = 1" "holding q [0xfe]" for n q
    using that by (subst rdUX_loop.simps) (simp add: inrange_def holding_def)
  have "(ucast (-1 :: u64) :: u8) = -1" "(ucast (-1 :: u64) :: u16) = -1"
    by (rule bit_word_eqI; auto simp: bit_simps)+
  then have 2: "MT_MSG_rdU8 q = Some (-1, q)" "MT_MSG_rdU16 q = Some (-1, q)" if "iobuf_idx q = 1" "holding q [0xfe]" for q
    using u[OF _ that] that by (simp_all add: MT_MSG_rdU8_def MT_MSG_rdU16_def MT_MSG_rdUX_def init_rd_idx_def holding_def)
  show ?thesis using assms by (simp add: rx_fields_def 1 2)
qed

lemma rx_bytes_silent:
  assumes "pCurRxMsg I = Some q" "holding q [0xfe]" "sinv (hndl I)" "contents (hndl I) = []" "1 < k" "k < 2 ^ 31"
  shows "\<exists>s d p. mt_msg_rx_bytes ops False k t I = Some (1, I\<lparr>hndl := s, pCurRxMsg := Some p, is_dead := d\<rparr>) \<and>
    holding p [0xfe] \<and> pSrcIface p = pSrcIface q \<and> sinv s \<and> contents s = []"
proof -
  have n: "0 < nat (k - 1)" "nat (k - 1) < 2 ^ 31" using assms(5,6) by auto
  obtain s where s: "s_rd ops (hndl I) (nat (k - 1)) t = (0, [], s)" "sinv s" "contents s = []"
    using rdb_empty[OF assms(3) n assms(4)] by metis
  have "mem_wr 1 [] (iobuf q) = Some (iobuf q)" "iobuf_nvalid q = 1"
    using mem_wr_overlay[of 1 "[]" "iobuf q"] assms(2) by (simp_all add: holding_def wf_msg_def IOBUF_SIZE_def)
  then have "mt_msg_rx_bytes ops False k t I = Some (1, I\<lparr>hndl := s, pCurRxMsg := Some (q\<lparr>iobuf := iobuf q, iobuf_nvalid := 1\<rparr>),
      is_dead := (if s_isSocket ops s then is_dead I \<or> \<not> s_isConnected ops s else is_dead I)\<rparr>)"
    using assms(1,5) s(1) by (simp add: mt_msg_rx_bytes_def)
  moreover have "holding (q\<lparr>iobuf := iobuf q, iobuf_nvalid := 1\<rparr>) [0xfe]"
    using assms(2) by (simp add: holding_def wf_msg_def)
  ultimately show ?thesis using s by fastforce
qed

lemma pass_sync_only:
  assumes r1: "mt_msg_rx_bytes ops False n (intermsg_timeout_mSecs pMI) pMI =
      Some (1, pMI\<lparr>hndl := s, pCurRxMsg := Some p1, is_dead := d\<rparr>)" "holding p1 [0xfe]" "pSrcIface p1 = Some c"
      "sinv s" "contents s = []"
    and c: "cfg pMI = c" "frame_sync c" and n: "1 < n" "n < 2 ^ 31"
  shows "rx_read_more ops False n pMI = None \<or>
    (\<exists>k J. rx_read_more ops False n pMI = Some (Read_more k, J) \<and> 1 < k \<and> k < 2 ^ 31 \<and>
      rx_state c [0xfe] J \<and> sinv (hndl J) \<and> contents (hndl J) = [])"
proof -
  let ?p1 = "p1\<lparr>iobuf_idx := 0\<rparr>"
  have sync: "rx_sync False n ?p1 = Some (None, ?p1)"
    using r1(2) by (simp add: rx_sync_def holding_def wf_msg_def mem_rd_def IOBUF_SIZE_def)
  obtain q where q: "rx_fields c ?p1 = Some q" "holding q [0xfe]" "0 \<le> expected_len q" "pSrcIface q = Some c"
    using underflow_fields[of ?p1 c] r1(2,3) c(2) by auto
  let ?I = "pMI\<lparr>hndl := s, is_dead := d, pCurRxMsg := Some ?p1\<rparr>" and ?J = "pMI\<lparr>hndl := s, is_dead := d, pCurRxMsg := Some q\<rparr>"
  have step: "rx_read_more ops False n pMI = rx_data ops False n 1 ?I"
    using r1 sync c by (simp add: rx_read_more_def)
  show ?thesis
  proof (cases "int_add n (expected_len q)")
    case None
    then show ?thesis using step c(1) q by (simp add: rx_data_def)
  next
    case (Some k)
    then have k: "1 < k" "k < 2 ^ 31" using q(3) n by (auto simp: int_add_def split: if_splits)
    obtain s' d' p3 where r2: "mt_msg_rx_bytes ops False k (intersymbol_timeout_mSecs pMI) ?J =
        Some (1, ?J\<lparr>hndl := s', pCurRxMsg := Some p3, is_dead := d'\<rparr>)" "holding p3 [0xfe]" "pSrcIface p3 = Some c"
        "sinv s'" "contents s' = []"
      using rx_bytes_silent[of ?J q k "intersymbol_timeout_mSecs pMI"] q r1 k by auto
    let ?K = "?J\<lparr>hndl := s', pCurRxMsg := Some p3, is_dead := d'\<rparr>"
    have "rx_data ops False n 1 ?I = Some (Read_more k, ?K)"
      using c(1) q(1) Some r2(1) k(1) by (simp add: rx_data_def)
    moreover have "rx_state c [0xfe] ?K" using c(1) r2 by (simp add: rx_state_def)
    ultimately show ?thesis using step r2(4,5) k by auto
  qed
qed

lemma rx_silent_loop:
  assumes "rx_state c [0xfe] pMI" "sinv (hndl pMI)" "contents (hndl pMI) = []" "frame_sync c" "1 < n" "n < 2 ^ 31"
  shows "rx_loop ops False fuel (Read_more n) pMI \<noteq> Returned res"
  using assms
proof (induction fuel arbitrary: n pMI)
  case (Suc fuel)
  obtain p where p: "pCurRxMsg pMI = Some p" "holding p [0xfe]" "pSrcIface p = Some c" "cfg pMI = c"
    using Suc.prems(1) by (auto simp: rx_state_def)
  obtain s d p1 where r1: "mt_msg_rx_bytes ops False n (intermsg_timeout_mSecs pMI) pMI =
      Some (1, pMI\<lparr>hndl := s, pCurRxMsg := Some p1, is_dead := d\<rparr>)" "holding p1 [0xfe]" "pSrcIface p1 = Some c"
      "sinv s" "contents s = []"
    using rx_bytes_silent[OF p(1,2) Suc.prems(2,3,5,6)] p(3) by metis
  from pass_sync_only[OF r1 p(4) Suc.prems(4-6)] Suc.IH Suc.prems(4) show ?case by auto
qed simp

lemma rx_bytes_sync_only:
  assumes "pCurRxMsg I = Some q" "holding q []" "sinv (hndl I)" "contents (hndl I) = [0xfe]" "1 < k" "k < 2 ^ 31"
  shows "\<exists>s p. mt_msg_rx_bytes ops False k t I = Some (1, I\<lparr>hndl := s, pCurRxMsg := Some p, is_dead := is_dead I\<rparr>) \<and>
    holding p [0xfe] \<and> pSrcIface p = pSrcIface q \<and> sinv s \<and> contents s = []"
proof -
  have n: "0 < nat k" "nat k < 2 ^ 31" "1 \<le> nat k" using assms(5,6) by auto
  obtain r bs s where e: "s_rd ops (hndl I) (nat k) t = (r, bs, s)" by (metis prod_cases3)
  have f: "r = 1" "bs = [0xfe]" "contents s = []" "sinv s"
    using rdb_delivers[OF assms(3) n(1,2) e] assms(4) n(3) by auto
  let ?b = "overlay 0 [0xfe] (iobuf q)"
  have "mem_wr 0 [0xfe] (iobuf q) = Some ?b" "iobuf_nvalid q = 0"
    using mem_wr_overlay[of 0 "[0xfe]" "iobuf q"] assms(2) by (simp_all add: holding_def wf_msg_def IOBUF_SIZE_def)
  then have "mt_msg_rx_bytes ops False k t I =
      Some (1, I\<lparr>hndl := s, pCurRxMsg := Some (q\<lparr>iobuf := ?b, iobuf_nvalid := 1\<rparr>), is_dead := is_dead I\<rparr>)"
    using assms(1,5) e f by (simp add: mt_msg_rx_bytes_def)
  moreover have "holding (q\<lparr>iobuf := ?b, iobuf_nvalid := 1\<rparr>) [0xfe]"
    using assms(2) by (simp add: holding_def wf_msg_def overlay_def IOBUF_SIZE_def)
  ultimately show ?thesis using f by fastforce
qed

lemma rx_silent_start:
  assumes "rx_state c got pMI" "sinv (hndl pMI)" "contents (hndl pMI) = [0xfe]" "frame_sync c"
  shows "rx_loop ops False fuel Try_again pMI \<noteq> Returned res"
proof -
  obtain p where p: "pCurRxMsg pMI = Some p" "holding p got" "pSrcIface p = Some c" "cfg pMI = c"
    using assms(1) by (auto simp: rx_state_def)
  obtain p0 where p0: "rx_clear p = Some p0" "holding p0 []" "pSrcIface p0 = Some c"
    using p(2,3) by (auto simp: rx_clear_def holding_def wf_msg_def mem_wr_def)
  let ?n = "rx_hdr_len c" and ?I = "pMI\<lparr>pCurRxMsg := Some p0\<rparr>"
  have b: "1 < ?n" "?n < 2 ^ 31" using rx_hdr_len_bounds[of c] by simp_all
  obtain s p1 where r1: "mt_msg_rx_bytes ops False ?n (intermsg_timeout_mSecs ?I) ?I =
      Some (1, ?I\<lparr>hndl := s, pCurRxMsg := Some p1, is_dead := is_dead ?I\<rparr>)" "holding p1 [0xfe]" "pSrcIface p1 = Some c"
      "sinv s" "contents s = []"
    using rx_bytes_sync_only[of ?I p0 ?n "intermsg_timeout_mSecs ?I"] p0 assms(2,3) b by auto
  have "cfg ?I = c" using p(4) by simp
  from pass_sync_only[OF r1 this assms(4) b]
  have "rx_loop ops False f (Read_more ?n) ?I \<noteq> Returned res" for f
    by (cases f) (use rx_silent_loop[where res = res] assms(4) in auto)
  then show ?thesis using p p0 by (cases fuel) simp_all
qed

end

section \<open>Sending to a sink\<close>

text \<open>A stream that takes what is written to it as long as it has room.\<close>

locale mt_sink =
  fixes winv :: "'s \<Rightarrow> bool" and room :: "'s \<Rightarrow> nat" and written :: "'s \<Rightarrow> bytes" and ops :: "'s stream_ops"
  assumes wr_appends: "winv s \<Longrightarrow> length bs \<le> room s \<Longrightarrow> length bs < 2 ^ 31 \<Longrightarrow> s_wr ops s bs t = (r, s') \<Longrightarrow>
    r = int (length bs) \<and> written s' = written s @ bs \<and> room s' + length bs = room s \<and> winv s'"
begin

lemma tx_raw_sends:
  assumes "ready c pl p" "winv (hndl pMI)"
    and F: "F = mt_frame c (word_of_int (cmd0 p)) (word_of_int (cmd1 p)) pl" "length F \<le> 2176" "length F \<le> room (hndl pMI)"
  shows "\<exists>p' s. MT_MSG_tx_raw ops p pMI = Some (1, p', pMI\<lparr>hndl := s\<rparr>) \<and> winv s \<and>
    written s = written (hndl pMI) @ F \<and> room s + length F = room (hndl pMI)"
proof -
  obtain p' where p': "MT_MSG_format_msg p = Some p'" "wf_msg p'" "iobuf_nvalid p' = int (length F)" "take (length F) (iobuf p') = F"
    using format_ok[OF assms(1) F(1)] by blast
  have rd: "mem_rd 0 (length F) (iobuf p') = Some F"
    using p' F(2) by (simp add: mem_rd_def wf_msg_def IOBUF_SIZE_def)
  obtain r s where w: "s_wr ops (hndl pMI) F (-1) = (r, s)" by fastforce
  have "r = int (length F) \<and> written s = written (hndl pMI) @ F \<and> room s + length F = room (hndl pMI) \<and> winv s"
    by (rule wr_appends[OF assms(2) F(3) _ w]) (use F(2) in simp)
  then show ?thesis using p' rd w F(2) by (intro exI[of _ p'] exI[of _ s]) (simp add: MT_MSG_tx_raw_def)
qed

text \<open>A frame longer than the limit is not sent at all.\<close>

lemma tx_raw_too_long:
  assumes "ready c pl p" "2176 < length (mt_frame c (word_of_int (cmd0 p)) (word_of_int (cmd1 p)) pl)"
  shows "\<exists>p'. MT_MSG_tx_raw ops p pMI = Some (0, p', pMI)"
  using format_ok[OF assms(1) refl] assms(2) by (auto simp: MT_MSG_tx_raw_def)

end

section \<open>Memory streams as the line\<close>

definition mem_dump :: "mem_stream_details io_stream \<Rightarrow> int \<Rightarrow> mem_stream_details io_stream" where
  "mem_dump s t = (case STREAM_rdDump mem_rd_fn (Suc (length (stream_contents mem_held s))) [True] s of
     None \<Rightarrow> s | Some s' \<Rightarrow> s')"

definition mem_ops :: "mem_stream_details io_stream stream_ops" where
  "mem_ops = \<lparr>s_rd = rdBytes mem_rd_fn,
     s_wr = (\<lambda>s bs t. let (r, d) = mem_wr_fn (opaque s) bs t in (r, s\<lparr>opaque := d\<rparr>)),
     s_dump = mem_dump, s_isSocket = (\<lambda>s. False), s_isConnected = (\<lambda>s. False)\<rparr>"

interpretation mline: mt_source "\<lambda>s. mem_inv (opaque s)" "stream_contents mem_held" mem_ops
  by unfold_locales (simp add: mem_ops_def ms.rdb_delivers)

definition mem_winv :: "mem_stream_details \<Rightarrow> bool" where
  "mem_winv d = (mem_valid d \<and> is_wr d \<and> cursor d \<le> bufsiz d \<and> bufsiz d \<le> length (pBytes d))"

interpretation mout: mt_sink "\<lambda>s. mem_winv (opaque s)" "\<lambda>s. bufsiz (opaque s) - cursor (opaque s)"
  "\<lambda>s. take (cursor (opaque s)) (pBytes (opaque s))" mem_ops
  by unfold_locales
    (auto simp: mem_ops_def mem_winv_def mem_wr_fn_def getM_def c_int_small Let_def)

end
