(* ===== verification/Mt_Wire.thy ===== *)
theory Mt_Wire
  imports Mt_Link
begin

text \<open>
  Properties of the link: messages put together, sent over a memory stream, found again behind noise
  and parsed; what the receiver checks before it hands a message out; and two inputs on which the
  receiver of \<^verbatim>\<open>mt_msg.c\<close> fails.
\<close>

section \<open>Helpers\<close>

text \<open>A stream over the given bytes and an idle interface on it.\<close>

definition line_of_bytes :: "bytes \<Rightarrow> mem_stream_details io_stream" where
  "line_of_bytes bs = \<lparr>opaque = \<lparr>mem_valid = True, is_wr = True, is_rd = True, pBytes = bs, mem_alloc = False,
     cursor = 0, bufsiz = length bs\<rparr>, unget_buf = 0, io_error = False\<rparr>"

definition idle_frag :: frag_info where
  "idle_frag = \<lparr>fi_error = False, fi_msg = None, pTxFragData = None, block_cur = 0, block_count = 0, total_size = 0,
     this_frag_size = 0, pTxFragAck = ([], False), tx_ack_semaphore = 0\<rparr>"

definition idle_iface :: "mt_cfg \<Rightarrow> 's \<Rightarrow> 's mt_iface" where
  "idle_iface c s = \<lparr>cfg = c, hndl = s, intermsg_timeout_mSecs = 100, intersymbol_timeout_mSecs = 20,
     flush_timeout_mSecs = 50, is_dead = False, pCurRxMsg = None, rx_list = [], tx_frag = idle_frag, rx_frag = idle_frag,
     msg_Dbg = \<lparr>num_tx_pkt = 0, num_rx_pkt = 0, num_rx_err_no_frame_sync = 0, num_rx_err_checksum = 0,
       num_rx_err_packet_len = 0\<rparr>, sequence_no = 0, calloc_fails = []\<rparr>"

lemma line_of_bytes_create: "STREAM_memCreate (True, True, True) (Some bs) (length bs) = Some (line_of_bytes bs)"
  by (simp add: STREAM_memCreate_def mem_create_def STREAM_createPrivate_def line_of_bytes_def)

lemma line_of_bytes_inv:
  "mem_inv (opaque (line_of_bytes bs))" "stream_contents mem_held (line_of_bytes bs) = bs"
  "mem_winv (opaque (line_of_bytes bs))"
  by (simp_all add: line_of_bytes_def mem_inv_def mem_winv_def stream_contents_def pushed_def mem_held_def)

lemma idle_iface_fields [simp]:
  "cfg (idle_iface c s) = c" "hndl (idle_iface c s) = s" "pCurRxMsg (idle_iface c s) = None"
  "calloc_fails (idle_iface c s) = []"
  by (simp_all add: idle_iface_def)

text \<open>An interface that is ready to receive: what it holds of a message is its own.\<close>

definition rx_ready :: "'s mt_iface \<Rightarrow> bool" where
  "rx_ready pMI \<longleftrightarrow> calloc_fails pMI = [] \<and> (\<forall>p. pCurRxMsg pMI = Some p \<longrightarrow> wf_msg p \<and> pSrcIface p = Some (cfg pMI))"

lemma last_int_le: "last_int fs \<le> length (fields_bytes fs)"
  by (induction fs) auto

lemma delivered_fields:
  assumes "delivered c c0 c1 (fields_bytes fs) m"
  shows "rd_fields fs m = Some (fs, m\<lparr>iobuf_idx := hdr_len c + int (length (fields_bytes fs))\<rparr>)"
proof -
  let ?bs = "fields_bytes fs" and ?F = "mt_frame c c0 c1 (fields_bytes fs)"
  have h: "wf_msg m" "\<not> is_error m" "iobuf_nvalid m = int (length ?F)" "take (length ?F) (iobuf m) = ?F"
    "length ?F \<le> IOBUF_SIZE" "iobuf_idx m = hdr_len c"
    using assms by (auto simp: delivered_def holding_def)
  have lh: "length (hdr_bytes c (length ?bs) c0 c1) = nat (hdr_len c)" "nat (hdr_len c) + length ?bs \<le> length ?F"
    using length_hdr_bytes[of c "length ?bs" c0 c1] hdr_len_bounds(1)[of c] by (auto simp: mt_frame_def)
  have "take (length ?bs) (drop (nat (hdr_len c)) (take (length ?F) (iobuf m))) = ?bs"
    unfolding h(4) using lh(1) by (simp add: mt_frame_def)
  moreover have "length ?bs \<le> length ?F - nat (hdr_len c)" using lh(2) by simp
  ultimately have "take (length ?bs) (drop (nat (hdr_len c)) (iobuf m)) = ?bs"
    by (simp add: drop_take min_absorb1)
  moreover have "hdr_len c + int (length ?bs) \<le> int (length ?F)" using lh(2) hdr_len_bounds(1)[of c] by linarith
  moreover from this have "hdr_len c + int (last_int fs) \<le> int (length ?F)" using last_int_le[of fs] by linarith
  ultimately show ?thesis
    using rd_fields_ok[OF h(1,2), of fs] h(3,5,6) hdr_len_bounds(1)[of c] by simp
qed

section \<open>Properties\<close>



text \<open>C2: End to end: what one side writes the other side reads. A message allocated, addressed, filled with
  any fields that fit and sent by \<^verbatim>\<open>MT_MSG_tx_raw\<close> into an empty memory stream is, behind noise and before
  anything else, received by \<^verbatim>\<open>mt_msg_rx\<close> on an interface with the same configuration, and reading the
  same fields from it gives the values written.\<close>

theorem fields_end_to_end:
  assumes "MT_MSG_alloc True ctr (-1) c0 c1 = (Some p0, ctr')" "hndl txI = line_of_bytes mem"
    and "rx_hdr_len c + int (length (fields_bytes fs)) \<le> min 2176 (int (length mem))"
    and "len_fits c (length (fields_bytes fs))"
  shows "\<exists>p1 p2 p3 s. MT_MSG_setDestIface p0 (Some c) = Some p1 \<and> wr_fields fs p1 = Some p2 \<and>
    MT_MSG_tx_raw mem_ops p2 txI = Some (1, p3, txI\<lparr>hndl := s\<rparr>) \<and>
    (\<forall>rxI noise rest fuel. rx_ready rxI \<and> cfg rxI = c \<and> mem_inv (opaque (hndl rxI)) \<and>
       0xfe \<notin> set noise \<and> (noise = [] \<or> frame_sync c) \<and> length noise + 3 \<le> fuel \<and>
       stream_contents mem_held (hndl rxI) = noise @ take (cursor (opaque s)) (pBytes (opaque s)) @ rest \<longrightarrow>
       (\<exists>m m' rxI'. mt_msg_rx mem_ops False fuel rxI = Returned (Some m, rxI') \<and>
          rd_fields fs m = Some (fs, m') \<and> cmd0 m = c0 mod 256 \<and> cmd1 m = c1 mod 256 \<and>
          stream_contents mem_held (hndl rxI') = rest))"
proof -
  let ?bs = "fields_bytes fs" and ?a = "word_of_int c0 :: u8" and ?b = "word_of_int c1 :: u8"
  let ?F = "mt_frame c ?a ?b ?bs"
  have n: "hdr_len c + int (length ?bs) < int IOBUF_SIZE"
    using assms(3) by (auto simp: rx_hdr_len_def IOBUF_SIZE_def split: if_splits)
  have l: "length ?F \<le> 2176" "length ?F \<le> length mem" "length ?F \<le> IOBUF_SIZE"
    using assms(3) length_mt_frame[of c ?a ?b ?bs] by (auto simp: IOBUF_SIZE_def)
  obtain p1 p2 where p: "MT_MSG_setDestIface p0 (Some c) = Some p1" "wr_fields fs p1 = Some p2"
    "ready c ?bs p2" "cmd0 p2 = c0" "cmd1 p2 = c1"
    using built_ready[OF assms(1) n] by blast
  have w: "mem_winv (opaque (hndl txI))" "length ?F \<le> bufsiz (opaque (hndl txI)) - cursor (opaque (hndl txI))"
    using assms(2) line_of_bytes_inv(3)[of mem] l by (simp_all add: line_of_bytes_def)
  have F: "?F = mt_frame c (word_of_int (cmd0 p2)) (word_of_int (cmd1 p2)) ?bs" using p by simp
  obtain q s where tx: "MT_MSG_tx_raw mem_ops p2 txI = Some (1, q, txI\<lparr>hndl := s\<rparr>)"
    "take (cursor (opaque s)) (pBytes (opaque s)) = ?F"
    using mout.tx_raw_sends[OF p(3) w(1) F l(1) w(2)] assms(2) by (auto simp: line_of_bytes_def)
  have u: "uint ?a = c0 mod 256" "uint ?b = c1 mod 256" by (simp_all add: unsigned_of_int take_bit_eq_mod)
  have rx: "\<exists>m m' rxI'. mt_msg_rx mem_ops False fuel rxI = Returned (Some m, rxI') \<and>
      rd_fields fs m = Some (fs, m') \<and> cmd0 m = c0 mod 256 \<and> cmd1 m = c1 mod 256 \<and>
      stream_contents mem_held (hndl rxI') = rest"
    if rxI: "rx_ready rxI" "cfg rxI = c" "mem_inv (opaque (hndl rxI))" "0xfe \<notin> set noise" "noise = [] \<or> frame_sync c"
      "length noise + 3 \<le> fuel" "stream_contents mem_held (hndl rxI) = noise @ ?F @ rest" for rxI noise rest fuel
  proof -
    obtain m rxI' where m: "mt_msg_rx mem_ops False fuel rxI = Returned (Some m, rxI')" "delivered c ?a ?b ?bs m"
      "stream_contents mem_held (hndl rxI') = rest"
      using mline.mt_msg_rx_delivers[OF rxI(2) _ _ rxI(3,7,4,5) assms(4) l(3) rxI(6)] rxI(1,2)
      by (auto simp: rx_ready_def)
    then show ?thesis using delivered_fields[OF m(2)] u by (auto simp: delivered_def)
  qed
  show ?thesis
    by (intro exI[of _ p1] exI[of _ p2] exI[of _ q] exI[of _ s] conjI, rule p(1), rule p(2), rule tx(1))
      (unfold tx(2), intro allI impI, elim conjE, rule rx)
qed

theorem fields_end_to_end_witness:
  "\<exists>p0 p1 p2 p3 s m m' rxI'. MT_MSG_alloc True 9 (-1) 0x42 1 = (Some p0, 10) \<and>
     MT_MSG_setDestIface p0 (Some sample_cfg) = Some p1 \<and> wr_fields [FU8 7, FU16 0x1234] p1 = Some p2 \<and>
     MT_MSG_tx_raw mem_ops p2 (idle_iface sample_cfg (line_of_bytes (replicate 20 0))) =
       Some (1, p3, (idle_iface sample_cfg (line_of_bytes (replicate 20 0)))\<lparr>hndl := s\<rparr>) \<and>
     mt_msg_rx mem_ops False 4 (idle_iface sample_cfg
       (line_of_bytes ([5] @ take (cursor (opaque s)) (pBytes (opaque s)) @ [6]))) = Returned (Some m, rxI') \<and>
     rd_fields [FU8 7, FU16 0x1234] m = Some ([FU8 7, FU16 0x1234], m')"
proof -
  let ?I = "idle_iface sample_cfg (line_of_bytes (replicate 20 0))" and ?fs = "[FU8 7, FU16 0x1234]"
  obtain p0 where p0: "MT_MSG_alloc True 9 (-1) 0x42 1 = (Some p0, 10)" by (simp add: MT_MSG_alloc_def)
  have h: "hndl ?I = line_of_bytes (replicate 20 0)" by simp
  have l: "rx_hdr_len sample_cfg + int (length (fields_bytes ?fs)) \<le> min 2176 (int (length (replicate 20 (0 :: u8))))"
    "len_fits sample_cfg (length (fields_bytes ?fs))" "frame_sync sample_cfg"
    by (simp_all add: rx_hdr_len_def hdr_len_def len_fits_def sample_cfg_def)
  obtain p1 p2 p3 s where t: "MT_MSG_setDestIface p0 (Some sample_cfg) = Some p1" "wr_fields ?fs p1 = Some p2"
    "MT_MSG_tx_raw mem_ops p2 ?I = Some (1, p3, ?I\<lparr>hndl := s\<rparr>)"
    and rx: "rx_ready rxI \<and> cfg rxI = sample_cfg \<and> mem_inv (opaque (hndl rxI)) \<and>
       0xfe \<notin> set noise \<and> (noise = [] \<or> frame_sync sample_cfg) \<and> length noise + 3 \<le> fuel \<and>
       stream_contents mem_held (hndl rxI) = noise @ take (cursor (opaque s)) (pBytes (opaque s)) @ rest \<Longrightarrow>
       \<exists>m m' rxI'. mt_msg_rx mem_ops False fuel rxI = Returned (Some m, rxI') \<and>
          rd_fields ?fs m = Some (?fs, m') \<and> cmd0 m = 0x42 mod 256 \<and> cmd1 m = 1 mod 256 \<and>
          stream_contents mem_held (hndl rxI') = rest" for rxI noise rest fuel
    using fields_end_to_end[OF p0 h l(1,2)] by blast
  let ?L = "[5] @ take (cursor (opaque s)) (pBytes (opaque s)) @ [6]"
  have "rx_ready (idle_iface sample_cfg (line_of_bytes ?L)) \<and> cfg (idle_iface sample_cfg (line_of_bytes ?L)) = sample_cfg \<and>
      mem_inv (opaque (hndl (idle_iface sample_cfg (line_of_bytes ?L)))) \<and>
      0xfe \<notin> set [5 :: u8] \<and> ([5 :: u8] = [] \<or> frame_sync sample_cfg) \<and> length [5 :: u8] + 3 \<le> 4 \<and>
      stream_contents mem_held (hndl (idle_iface sample_cfg (line_of_bytes ?L))) = ?L"
    using line_of_bytes_inv[of ?L] l(3) by (simp add: rx_ready_def)
  from rx[OF this] p0 t show ?thesis by blast
qed

text \<open>C19: No unchecked message leaves the receiver. Whatever the stream delivers and however it behaves, and in
  both builds, a message that \<^verbatim>\<open>mt_msg_rx\<close> returns on an interface with checksums passes the checksum test
  over all its valid bytes.\<close>

theorem rx_checks_sum:
  assumes "mt_msg_rx ops nli fuel pMI = Returned (Some m, pMI')" "include_chksum (cfg pMI)"
  shows "MT_MSG_calc_chksum m True (iobuf_nvalid m) = Some 0"
proof (cases "pCurRxMsg pMI")
  case None
  then obtain p I where "rx_loop ops nli fuel Try_again (I\<lparr>pCurRxMsg := Some p\<rparr>) = Returned (Some m, pMI')" "cfg I = cfg pMI"
    using assms(1) by (auto simp: mt_msg_rx_def alloc_msg_def Let_def split: option.splits prod.splits)
  then show ?thesis using rx_loop_checks[of ops nli fuel Try_again] assms(2) by fastforce
next
  case (Some p)
  then show ?thesis using assms rx_loop_checks[of ops nli fuel Try_again] by (fastforce simp: mt_msg_rx_def)
qed

theorem rx_checks_sum_witness:
  "\<exists>m pMI'. mt_msg_rx mem_ops False 3 (idle_iface sample_cfg (line_of_bytes (mt_frame sample_cfg 0x42 1 [7]))) =
     Returned (Some m, pMI') \<and> MT_MSG_calc_chksum m True (iobuf_nvalid m) = Some 0"
proof -
  let ?I = "idle_iface sample_cfg (line_of_bytes (mt_frame sample_cfg 0x42 1 [7]))"
  have "\<exists>m pMI'. mt_msg_rx mem_ops False 3 ?I = Returned (Some m, pMI') \<and> delivered sample_cfg 0x42 1 [7] m \<and>
      pCurRxMsg pMI' = None \<and> cfg pMI' = sample_cfg \<and> calloc_fails pMI' = [] \<and>
      mem_inv (opaque (hndl pMI')) \<and> stream_contents mem_held (hndl pMI') = []"
    by (rule mline.mt_msg_rx_delivers[where noise = "[]"])
      (use line_of_bytes_inv[of "mt_frame sample_cfg 0x42 1 [7]"] in
        \<open>simp_all add: len_fits_def sample_cfg_def mt_frame_def hdr_bytes_def len_bytes_def IOBUF_SIZE_def\<close>)
  then obtain m pMI' where m: "mt_msg_rx mem_ops False 3 ?I = Returned (Some m, pMI')" by blast
  moreover have "include_chksum (cfg ?I)" by (simp add: sample_cfg_def)
  ultimately show ?thesis using rx_checks_sum by blast
qed

section \<open>Two inputs the receiver does not survive\<close>

text \<open>C27: A length field larger than the io buffer overruns it. The receiver reads as many bytes as a two byte
  length field announces without comparing it to the 4096 bytes it has: when that many bytes arrive, they
  are stored behind the end of the buffer.\<close>

theorem rx_long_length_overruns:
  assumes "rx_ready pMI" "c = cfg pMI" "mem_inv (opaque (hndl pMI))"
    and "stream_contents mem_held (hndl pMI) = hdr_bytes c n c0 c1 @ rest" "len_fits c n"
    and "int IOBUF_SIZE < rx_hdr_len c + int n" "rx_hdr_len c + int n \<le> int (length (hdr_bytes c n c0 c1 @ rest))" "2 \<le> fuel"
  shows "mt_msg_rx mem_ops False fuel pMI = Crashed"
proof -
  obtain f where f: "fuel = Suc (Suc f)" using assms(8) by (metis Suc_le_D numeral_2_eq_2 Suc_le_mono)
  obtain p I where s: "mt_msg_rx mem_ops False fuel pMI = rx_loop mem_ops False fuel Try_again (I\<lparr>pCurRxMsg := Some p\<rparr>)"
    "holding p []" "pSrcIface p = Some c" "cfg I = c" "hndl I = hndl pMI"
    using mt_msg_rx_starts[of pMI mem_ops False fuel] assms(1,2) by (auto simp: rx_ready_def)
  have "rx_state c [] (I\<lparr>pCurRxMsg := Some p\<rparr>)" using s by (simp add: rx_state_def)
  from mline.rx_loop_overflow[OF this, of n c0 c1 rest f] s f assms(3-7) show ?thesis by simp
qed

theorem rx_long_length_overruns_witness:
  "mt_msg_rx mem_ops False 2 (idle_iface (sample_cfg\<lparr>len_2bytes := True\<rparr>) (line_of_bytes
     (hdr_bytes (sample_cfg\<lparr>len_2bytes := True\<rparr>) 5000 0x42 1 @ replicate 5001 0))) = Crashed"
proof -
  let ?c = "sample_cfg\<lparr>len_2bytes := True\<rparr>"
  have h: "length (hdr_bytes ?c 5000 0x42 1) = 5"
    using length_hdr_bytes[of ?c 5000 "0x42" 1] by (simp add: hdr_len_def sample_cfg_def)
  show ?thesis
    by (rule rx_long_length_overruns[where c = ?c and n = 5000 and ?c0.0 = "0x42" and ?c1.0 = 1 and rest = "replicate 5001 0"])
      (use line_of_bytes_inv[of "hdr_bytes ?c 5000 0x42 1 @ replicate 5001 0"] h in
        \<open>simp_all add: rx_ready_def len_fits_def rx_hdr_len_def hdr_len_def IOBUF_SIZE_def\<close>)
qed



end
