(* ===== verification/Ring_Buffer.thy ===== *)
theory Ring_Buffer
  imports Queue_Iface
begin

text \<open>
  The ring buffer template of the daemon (\<^verbatim>\<open>src/util/RingBuffer.h\<close>), which keeps the packet,
  link quality and state histories of the statistics collector. The template argument \<open>I\<close> is
  the length of \<open>mBuffer\<close>; element counts are non-negative; a pointer into \<open>mBuffer\<close> is an index
  and \<^verbatim>\<open>NULL\<close> is \<open>None\<close>; reading past the caller's array is \<open>None\<close>; the exception of \<^verbatim>\<open>push\<close> is
  a value of \<open>rb_error\<close>. The buffer is shown to refine a bounded list.
\<close>

section \<open>State and operations\<close>

record 'a ring_buffer =
  mReadIdx :: nat
  mWriteIdx :: nat
  mCount :: nat
  mBuffer :: "'a list"

datatype rb_error = overflow_error

definition buffer_size :: "'a ring_buffer \<Rightarrow> nat" where
  "buffer_size rb = length (mBuffer rb)"

definition rb_clear :: "'a ring_buffer \<Rightarrow> 'a ring_buffer" where
  "rb_clear rb = rb\<lparr>mReadIdx := 0, mWriteIdx := 0, mCount := 0\<rparr>"

definition space_available :: "'a ring_buffer \<Rightarrow> nat" where
  "space_available rb = buffer_size rb - mCount rb"

definition rb_empty :: "'a ring_buffer \<Rightarrow> bool" where
  "rb_empty rb \<longleftrightarrow> mCount rb = 0"

definition rb_full :: "'a ring_buffer \<Rightarrow> bool" where
  "rb_full rb \<longleftrightarrow> mCount rb = buffer_size rb"

definition size_of_data_ptr :: "'a ring_buffer \<Rightarrow> nat" where
  "size_of_data_ptr rb =
     (if mWriteIdx rb \<ge> mReadIdx rb then mWriteIdx rb - mReadIdx rb
      else buffer_size rb - mReadIdx rb)"

text \<open>The store \<open>mBuffer[mWriteIdx] = v\<close> followed by the step of the write index.\<close>

definition rb_store :: "'a \<Rightarrow> 'a ring_buffer \<Rightarrow> 'a ring_buffer" where
  "rb_store v rb =
     rb\<lparr>mBuffer := (mBuffer rb)[mWriteIdx rb := v],
        mWriteIdx := (mWriteIdx rb + 1) mod buffer_size rb\<rparr>"

definition rb_skip :: "'a ring_buffer \<Rightarrow> 'a ring_buffer" where
  "rb_skip rb = rb\<lparr>mReadIdx := (mReadIdx rb + 1) mod buffer_size rb, mCount := mCount rb - 1\<rparr>"

fun push_loop :: "'a list \<Rightarrow> nat \<Rightarrow> 'a ring_buffer \<Rightarrow> 'a ring_buffer option" where
  "push_loop vs 0 rb = Some rb"
| "push_loop [] (Suc n) rb = None"
| "push_loop (v # vs) (Suc n) rb =
     (let rb1 = rb_store v rb in push_loop vs n (rb1\<lparr>mCount := mCount rb1 + 1\<rparr>))"

definition rb_push :: "'a list \<Rightarrow> nat \<Rightarrow> 'a ring_buffer \<Rightarrow> (rb_error + 'a ring_buffer) option" where
  "rb_push vs value_count rb =
     (if space_available rb < value_count then Some (Inl overflow_error)
      else map_option Inr (push_loop vs value_count rb))"

fun pop_loop :: "nat \<Rightarrow> 'a ring_buffer \<Rightarrow> 'a ring_buffer" where
  "pop_loop 0 rb = rb"
| "pop_loop (Suc n) rb = pop_loop n (rb_skip rb)"

definition rb_pop :: "nat \<Rightarrow> 'a ring_buffer \<Rightarrow> nat \<times> 'a ring_buffer" where
  "rb_pop value_count rb =
     (let bytes_read = (if mCount rb < value_count then mCount rb else value_count);
          rb1 = pop_loop bytes_read rb
      in (bytes_read,
          if mReadIdx rb1 = mWriteIdx rb1 then rb1\<lparr>mReadIdx := 0, mWriteIdx := 0\<rparr> else rb1))"

fun pull_loop :: "nat \<Rightarrow> 'a ring_buffer \<Rightarrow> 'a list \<times> 'a ring_buffer" where
  "pull_loop 0 rb = ([], rb)"
| "pull_loop (Suc n) rb =
     (let (vs, rb1) = pull_loop n (rb_skip rb) in (mBuffer rb ! mReadIdx rb # vs, rb1))"

definition rb_pull :: "nat \<Rightarrow> 'a ring_buffer \<Rightarrow> nat \<times> 'a list \<times> 'a ring_buffer" where
  "rb_pull value_count rb =
     (let bytes_read = (if mCount rb < value_count then mCount rb else value_count)
      in (bytes_read, pull_loop bytes_read rb))"

definition rb_front :: "'a ring_buffer \<Rightarrow> nat option" where
  "rb_front rb = (if mCount rb = 0 then None else Some (mReadIdx rb))"

definition rb_back :: "'a ring_buffer \<Rightarrow> nat option" where
  "rb_back rb =
     (if mCount rb = 0 then None
      else if mWriteIdx rb = 0 then Some (buffer_size rb - 1)
      else Some (mWriteIdx rb - 1))"

definition rb_write :: "'a \<Rightarrow> 'a ring_buffer \<Rightarrow> bool \<times> 'a ring_buffer" where
  "rb_write v rb =
     (if mCount rb = buffer_size rb then (False, rb)
      else let rb1 = rb_store v rb in (True, rb1\<lparr>mCount := mCount rb1 + 1\<rparr>))"

definition force_write :: "'a \<Rightarrow> 'a ring_buffer \<Rightarrow> 'a ring_buffer" where
  "force_write v rb =
     (let rb1 = rb_store v rb
      in if mCount rb1 = buffer_size rb1 then rb1\<lparr>mReadIdx := mWriteIdx rb1\<rparr>
         else rb1\<lparr>mCount := mCount rb1 + 1\<rparr>)"

definition rb_remove :: "'a ring_buffer \<Rightarrow> bool \<times> 'a ring_buffer" where
  "rb_remove rb = (if mCount rb = 0 then (False, rb) else (True, rb_skip rb))"

definition rb_read :: "'a \<Rightarrow> 'a ring_buffer \<Rightarrow> bool \<times> 'a \<times> 'a ring_buffer" where
  "rb_read v rb =
     (let v1 = (case rb_front rb of None \<Rightarrow> v | Some f \<Rightarrow> mBuffer rb ! f);
          (ok, rb1) = rb_remove rb
      in (ok, v1, rb1))"

section \<open>Iterators\<close>

definition iter_advance :: "'a ring_buffer \<Rightarrow> nat \<Rightarrow> nat option" where
  "iter_advance rb p =
     (let p1 = (if p + 1 = buffer_size rb then 0 else p + 1)
      in if p1 = mWriteIdx rb then None else Some p1)"

definition riter_advance :: "'a ring_buffer \<Rightarrow> nat \<Rightarrow> nat option" where
  "riter_advance rb p =
     (if p = mReadIdx rb then None
      else if p = 0 then Some (buffer_size rb - 1) else Some (p - 1))"

text \<open>A client loop \<^verbatim>\<open>for (it = begin(); it != end(); ++it)\<close>: the elements visited, \<open>None\<close> when
  the fuel ends before the iterator does.\<close>

fun rb_walk :: "('a ring_buffer \<Rightarrow> nat \<Rightarrow> nat option) \<Rightarrow> nat \<Rightarrow> 'a ring_buffer \<Rightarrow> nat option \<Rightarrow> 'a list option" where
  "rb_walk adv fuel rb None = Some []"
| "rb_walk adv 0 rb (Some p) = None"
| "rb_walk adv (Suc fuel) rb (Some p) =
     map_option (Cons (mBuffer rb ! p)) (rb_walk adv fuel rb (adv rb p))"

section \<open>Invariant and contents\<close>

definition rb_inv :: "'a ring_buffer \<Rightarrow> bool" where
  "rb_inv rb \<longleftrightarrow> mReadIdx rb < buffer_size rb \<and> mCount rb \<le> buffer_size rb \<and>
     mWriteIdx rb = (mReadIdx rb + mCount rb) mod buffer_size rb"

definition rb_contents :: "'a ring_buffer \<Rightarrow> 'a list" where
  "rb_contents rb = ring_contents (mReadIdx rb) (mCount rb) (mBuffer rb)"

lemma rb_inv_cases:
  assumes "rb_inv rb"
  obtains "mReadIdx rb + mCount rb < buffer_size rb" "mWriteIdx rb = mReadIdx rb + mCount rb"
        | "buffer_size rb \<le> mReadIdx rb + mCount rb" "mWriteIdx rb = mReadIdx rb + mCount rb - buffer_size rb"
          "mWriteIdx rb \<le> mReadIdx rb"
proof (cases "mReadIdx rb + mCount rb < buffer_size rb")
  case True
  with assms that(1) show ?thesis by (simp add: rb_inv_def)
next
  case False
  moreover have "mReadIdx rb + mCount rb < 2 * buffer_size rb" using assms by (simp add: rb_inv_def)
  ultimately have "(mReadIdx rb + mCount rb) mod buffer_size rb = mReadIdx rb + mCount rb - buffer_size rb"
    by (subst le_mod_geq) simp_all
  then show ?thesis using assms False by (intro that(2)) (auto simp: rb_inv_def)
qed

lemma ring_contents_map:
  assumes "r < length b" and "c \<le> length b"
  shows "ring_contents r c b = map (\<lambda>i. b ! ((r + i) mod length b)) [0..<c]"
proof (rule nth_equalityI)
  show "length (ring_contents r c b) = length (map (\<lambda>i. b ! ((r + i) mod length b)) [0..<c])"
    using assms by (simp add: length_ring_contents)
  fix i
  assume "i < length (ring_contents r c b)"
  then have i: "i < c" using assms by (simp add: length_ring_contents)
  show "ring_contents r c b ! i = map (\<lambda>i. b ! ((r + i) mod length b)) [0..<c] ! i"
  proof (cases "r + i < length b")
    case True
    then show ?thesis using assms i by (auto simp: ring_contents_def nth_append)
  next
    case False
    then have "(r + i) mod length b = r + i - length b"
      using assms i by (subst le_mod_geq) simp_all
    moreover have "\<not> r + c \<le> length b" using False i by simp
    moreover have "i - (length b - r) = r + i - length b" "\<not> i < length b - r" using assms False by simp_all
    ultimately show ?thesis using False assms i by (simp add: ring_contents_def nth_append)
  qed
qed

lemma rb_contents_map:
  "rb_inv rb \<Longrightarrow>
   rb_contents rb = map (\<lambda>i. mBuffer rb ! ((mReadIdx rb + i) mod buffer_size rb)) [0..<mCount rb]"
  by (simp add: rb_contents_def rb_inv_def buffer_size_def ring_contents_map)

lemma length_rb_contents [simp]: "rb_inv rb \<Longrightarrow> length (rb_contents rb) = mCount rb"
  by (simp add: rb_contents_map)

lemma rb_inv_size: "rb_inv rb \<Longrightarrow> 0 < buffer_size rb"
  by (simp add: rb_inv_def)

lemma rb_clear_inv: "0 < buffer_size rb \<Longrightarrow> rb_inv (rb_clear rb) \<and> rb_contents (rb_clear rb) = []"
  by (simp add: rb_clear_def rb_inv_def rb_contents_def buffer_size_def)


lemma mod_shift_inj:
  fixes s :: nat
  assumes "(r + i) mod s = (r + j) mod s" and "i < s" and "j < s"
  shows "i = j"
proof -
  let ?q = "r mod s"
  have "(r + k) mod s = (if ?q + k < s then ?q + k else ?q + k - s)" if "k < s" for k
  proof -
    have "?q < s" using that by simp
    moreover have "(r + k) mod s = (?q + k) mod s" by (simp add: mod_add_left_eq)
    moreover have "(?q + k) mod s = ?q + k - s" if "\<not> ?q + k < s"
      using that \<open>?q < s\<close> \<open>k < s\<close> le_mod_geq[of s "?q + k"] mod_less[of "?q + k - s" s] by linarith
    ultimately show ?thesis by simp
  qed
  then show ?thesis using assms mod_less_divisor[of s r] by (auto split: if_splits)
qed

section \<open>One element at a time\<close>

lemma rb_skip_step:
  assumes "rb_inv rb" and "0 < mCount rb"
  shows "rb_inv (rb_skip rb)"
    and "rb_contents rb = mBuffer rb ! mReadIdx rb # rb_contents (rb_skip rb)"
proof -
  let ?s = "buffer_size rb"
  have idx: "((mReadIdx rb + 1) mod ?s + i) mod ?s = (mReadIdx rb + Suc i) mod ?s" for i
    by (simp add: mod_add_left_eq)
  show inv: "rb_inv (rb_skip rb)"
    using assms idx[of "mCount rb - 1"] rb_inv_size[OF assms(1)]
    by (auto simp: rb_inv_def rb_skip_def buffer_size_def)
  have "[0..<mCount rb] = 0 # map Suc [0..<mCount rb - 1]"
    using assms(2) by (cases "mCount rb") (simp_all add: upt_conv_Cons map_Suc_upt del: upt_Suc)
  moreover have "mReadIdx rb mod ?s = mReadIdx rb" using assms(1) by (simp add: rb_inv_def)
  ultimately show "rb_contents rb = mBuffer rb ! mReadIdx rb # rb_contents (rb_skip rb)"
    using idx by (simp add: rb_contents_map[OF inv] rb_contents_map[OF assms(1)])
      (simp add: rb_skip_def buffer_size_def)
qed

lemma rb_store_step:
  fixes v :: 'a
  assumes "rb_inv rb" and "mCount rb < buffer_size rb"
  defines "rb1 \<equiv> (rb_store v rb)\<lparr>mCount := mCount rb + 1\<rparr>"
  shows "rb_inv rb1" and "rb_contents rb1 = rb_contents rb @ [v]"
proof -
  let ?s = "buffer_size rb"
  have w: "mWriteIdx rb = (mReadIdx rb + mCount rb) mod ?s" "mWriteIdx rb < ?s"
    using assms(1) by (simp_all add: rb_inv_def)
  show inv: "rb_inv rb1"
    using assms(1,2) w(1) by (simp add: rb_inv_def rb1_def rb_store_def buffer_size_def mod_add_left_eq mod_Suc_eq)
  have "mWriteIdx rb \<noteq> (mReadIdx rb + i) mod ?s" if "i < mCount rb" for i
    using mod_shift_inj[of "mReadIdx rb" i ?s "mCount rb"] that assms(2) w(1) by auto
  then show "rb_contents rb1 = rb_contents rb @ [v]"
    using w by (simp add: rb_contents_map[OF inv] rb_contents_map[OF assms(1)])
      (simp add: rb1_def rb_store_def buffer_size_def)
qed

lemma rb_store_over:
  fixes v :: 'a
  assumes "rb_inv rb" and "mCount rb = buffer_size rb"
  defines "rb1 \<equiv> (rb_store v rb)\<lparr>mReadIdx := (mWriteIdx rb + 1) mod buffer_size rb\<rparr>"
  shows "rb_inv rb1" and "rb_contents rb1 = tl (rb_contents rb) @ [v]"
proof -
  let ?s = "buffer_size rb"
  have pos: "0 < ?s" using assms(1) by (rule rb_inv_size)
  have w: "mWriteIdx rb = mReadIdx rb" "mReadIdx rb < ?s" using assms(1,2) by (simp_all add: rb_inv_def)
  show inv: "rb_inv rb1"
    using assms(1,2) w pos by (simp add: rb_inv_def rb1_def rb_store_def buffer_size_def)
  let ?skip = "rb_skip rb"
  have sk: "rb_contents rb = mBuffer rb ! mReadIdx rb # rb_contents ?skip" "rb_inv ?skip"
    using rb_skip_step[OF assms(1)] assms(2) pos by simp_all
  have "rb1 = (rb_store v ?skip)\<lparr>mCount := mCount ?skip + 1\<rparr>"
    using w pos assms(2) by (simp add: rb1_def rb_store_def rb_skip_def buffer_size_def)
  moreover have "mCount ?skip < buffer_size ?skip"
    using assms(2) pos by (simp add: rb_skip_def buffer_size_def)
  ultimately show "rb_contents rb1 = tl (rb_contents rb) @ [v]"
    using rb_store_step(2)[OF sk(2)] sk(1) by simp
qed

lemma buffer_size_step [simp]:
  "buffer_size (rb_skip rb) = buffer_size rb"
  "buffer_size (rb_store v rb) = buffer_size rb"
  "buffer_size (rb\<lparr>mCount := c\<rparr>) = buffer_size rb"
  "buffer_size (rb\<lparr>mReadIdx := r\<rparr>) = buffer_size rb"
  "buffer_size (rb\<lparr>mWriteIdx := w\<rparr>) = buffer_size rb"
  "buffer_size (rb_clear rb) = buffer_size rb"
  "mCount (rb_skip rb) = mCount rb - 1"
  "mCount (rb_store v rb) = mCount rb"
  "mWriteIdx (rb_store v rb) = (mWriteIdx rb + 1) mod buffer_size rb"
  "mWriteIdx (rb_skip rb) = mWriteIdx rb"
  by (simp_all add: rb_skip_def rb_store_def buffer_size_def rb_clear_def)


section \<open>Whole operations\<close>

lemma push_loop_appends:
  assumes "rb_inv rb" and "mCount rb + length vs \<le> buffer_size rb"
  shows "\<exists>rb'. push_loop vs (length vs) rb = Some rb' \<and> rb_inv rb' \<and>
     rb_contents rb' = rb_contents rb @ vs \<and> buffer_size rb' = buffer_size rb"
  using assms
proof (induction vs arbitrary: rb)
  case (Cons v vs)
  let ?rb1 = "(rb_store v rb)\<lparr>mCount := mCount rb + 1\<rparr>"
  have "rb_inv ?rb1" "rb_contents ?rb1 = rb_contents rb @ [v]"
    using rb_store_step[of rb v] Cons.prems by simp_all
  then show ?case using Cons.IH[of ?rb1] Cons.prems by (auto simp: Let_def)
qed simp

lemma rb_push_full: "space_available rb < n \<Longrightarrow> rb_push vs n rb = Some (Inl overflow_error)"
  by (simp add: rb_push_def)

lemma rb_push_appends:
  assumes "rb_inv rb" and "length vs \<le> space_available rb"
  shows "\<exists>rb'. rb_push vs (length vs) rb = Some (Inr rb') \<and> rb_inv rb' \<and>
     rb_contents rb' = rb_contents rb @ vs \<and> buffer_size rb' = buffer_size rb"
proof -
  have "mCount rb + length vs \<le> buffer_size rb"
    using assms by (auto simp: space_available_def rb_inv_def)
  with push_loop_appends[OF assms(1)] assms(2) show ?thesis by (fastforce simp: rb_push_def)
qed

lemma pop_loop_drops:
  assumes "rb_inv rb" and "n \<le> mCount rb"
  shows "rb_inv (pop_loop n rb) \<and> rb_contents (pop_loop n rb) = drop n (rb_contents rb) \<and>
     mCount (pop_loop n rb) = mCount rb - n \<and> buffer_size (pop_loop n rb) = buffer_size rb"
  using assms
proof (induction n arbitrary: rb)
  case (Suc n)
  then have "rb_inv (rb_skip rb)" "rb_contents rb = mBuffer rb ! mReadIdx rb # rb_contents (rb_skip rb)"
    using rb_skip_step[of rb] by auto
  then show ?case using Suc.IH[of "rb_skip rb"] Suc.prems by simp
qed simp

lemma pull_loop_pop: "snd (pull_loop n rb) = pop_loop n rb"
  by (induction n arbitrary: rb) (simp_all add: split_def)

lemma pull_loop_takes:
  assumes "rb_inv rb" and "n \<le> mCount rb"
  shows "fst (pull_loop n rb) = take n (rb_contents rb)"
  using assms
proof (induction n arbitrary: rb)
  case (Suc n)
  then have "rb_inv (rb_skip rb)" "rb_contents rb = mBuffer rb ! mReadIdx rb # rb_contents (rb_skip rb)"
    using rb_skip_step[of rb] by auto
  then show ?case using Suc.IH[of "rb_skip rb"] Suc.prems by (simp add: split_def)
qed simp

lemma rb_idx_eq: "rb_inv rb \<Longrightarrow> mReadIdx rb = mWriteIdx rb \<longleftrightarrow> mCount rb = 0 \<or> mCount rb = buffer_size rb"
proof -
  assume inv: "rb_inv rb"
  then have "mReadIdx rb < buffer_size rb" by (simp add: rb_inv_def)
  with inv show ?thesis by (cases rule: rb_inv_cases) auto
qed

lemma rb_pop_drops:
  assumes inv: "rb_inv rb" and ok: "0 < n \<or> \<not> rb_full rb"
  shows "\<exists>rb'. rb_pop n rb = (min n (mCount rb), rb') \<and> rb_inv rb' \<and>
     rb_contents rb' = drop n (rb_contents rb) \<and> buffer_size rb' = buffer_size rb"
proof -
  let ?k = "min n (mCount rb)"
  let ?rb1 = "pop_loop ?k rb"
  have k: "(if mCount rb < n then mCount rb else n) = ?k" by auto
  have l: "rb_inv ?rb1" "rb_contents ?rb1 = drop ?k (rb_contents rb)" "mCount ?rb1 = mCount rb - ?k"
      "buffer_size ?rb1 = buffer_size rb"
    using pop_loop_drops[OF inv, of ?k] by auto
  have d: "drop ?k (rb_contents rb) = drop n (rb_contents rb)" using inv by (cases "mCount rb < n") auto
  show ?thesis
  proof (cases "mReadIdx ?rb1 = mWriteIdx ?rb1")
    case True
    have "mCount ?rb1 = 0"
      using True rb_idx_eq[OF l(1)] l(3,4) ok inv rb_inv_size[OF inv]
      by (auto simp: rb_full_def rb_inv_def)
    moreover from this have "drop ?k (rb_contents rb) = []" using l(1,2) by (metis length_rb_contents length_0_conv)
    ultimately show ?thesis
      using True l d rb_inv_size[OF l(1)]
      by (simp add: rb_pop_def k Let_def rb_inv_def rb_contents_def buffer_size_def)
  next
    case False
    then show ?thesis using l d by (simp add: rb_pop_def k Let_def)
  qed
qed

lemma rb_pull_takes:
  assumes inv: "rb_inv rb"
  shows "\<exists>rb'. rb_pull n rb = (min n (mCount rb), take n (rb_contents rb), rb') \<and> rb_inv rb' \<and>
     rb_contents rb' = drop n (rb_contents rb) \<and> buffer_size rb' = buffer_size rb"
proof -
  let ?k = "min n (mCount rb)"
  have k: "(if mCount rb < n then mCount rb else n) = ?k" by auto
  have "drop ?k (rb_contents rb) = drop n (rb_contents rb)" "take ?k (rb_contents rb) = take n (rb_contents rb)"
    using inv by (cases "mCount rb < n"; auto)+
  then show ?thesis
    using pop_loop_drops[OF inv, of ?k] pull_loop_takes[OF inv, of ?k] pull_loop_pop[of ?k rb]
    by (cases "pull_loop ?k rb") (simp add: rb_pull_def k Let_def)
qed

lemma force_write_shifts:
  assumes inv: "rb_inv rb"
  shows "rb_inv (force_write v rb) \<and> buffer_size (force_write v rb) = buffer_size rb \<and>
     rb_contents (force_write v rb) =
       (if rb_full rb then tl (rb_contents rb) else rb_contents rb) @ [v]"
proof (cases "mCount rb = buffer_size rb")
  case True
  then show ?thesis using rb_store_over[OF inv True, of v] by (simp add: force_write_def rb_full_def Let_def)
next
  case False
  then have "mCount rb < buffer_size rb" using inv by (simp add: rb_inv_def)
  with False rb_store_step[OF inv, of v] show ?thesis by (simp add: force_write_def rb_full_def Let_def)
qed


section \<open>Refinement of a bounded list\<close>

datatype 'a rb_op =
  OpPush "'a list" | OpPop nat | OpPull nat | OpWrite 'a | OpForce 'a | OpRead 'a | OpClear

datatype 'a rb_res =
  ResUnit | ResThrow | ResCount nat | ResValues nat "'a list" | ResBool bool | ResRead bool 'a

fun rb_step :: "'a rb_op \<Rightarrow> 'a ring_buffer \<Rightarrow> ('a rb_res \<times> 'a ring_buffer) option" where
  "rb_step (OpPush vs) rb =
     (case rb_push vs (length vs) rb of None \<Rightarrow> None
      | Some (Inl _) \<Rightarrow> Some (ResThrow, rb) | Some (Inr rb1) \<Rightarrow> Some (ResUnit, rb1))"
| "rb_step (OpPop n) rb = (let (k, rb1) = rb_pop n rb in Some (ResCount k, rb1))"
| "rb_step (OpPull n) rb = (let (k, vs, rb1) = rb_pull n rb in Some (ResValues k vs, rb1))"
| "rb_step (OpWrite v) rb = (let (ok, rb1) = rb_write v rb in Some (ResBool ok, rb1))"
| "rb_step (OpForce v) rb = Some (ResUnit, force_write v rb)"
| "rb_step (OpRead v) rb = (let (ok, v1, rb1) = rb_read v rb in Some (ResRead ok v1, rb1))"
| "rb_step OpClear rb = Some (ResUnit, rb_clear rb)"

text \<open>The specification: a list of at most \<open>size\<close> elements.\<close>

fun list_step :: "nat \<Rightarrow> 'a rb_op \<Rightarrow> 'a list \<Rightarrow> 'a rb_res \<times> 'a list" where
  "list_step cap (OpPush vs) q =
     (if length q + length vs \<le> cap then (ResUnit, q @ vs) else (ResThrow, q))"
| "list_step cap (OpPop n) q = (ResCount (min n (length q)), drop n q)"
| "list_step cap (OpPull n) q = (ResValues (min n (length q)) (take n q), drop n q)"
| "list_step cap (OpWrite v) q =
     (if length q < cap then (ResBool True, q @ [v]) else (ResBool False, q))"
| "list_step cap (OpForce v) q =
     (ResUnit, (if length q < cap then q else tl q) @ [v])"
| "list_step cap (OpRead v) q =
     (case q of [] \<Rightarrow> (ResRead False v, []) | x # xs \<Rightarrow> (ResRead True x, xs))"
| "list_step cap OpClear q = (ResUnit, [])"

text \<open>\<^verbatim>\<open>pop(0)\<close> is left out: on a full buffer it does not behave as a removal of nothing.\<close>

fun rb_op_ok :: "'a rb_op \<Rightarrow> bool" where
  "rb_op_ok (OpPop n) \<longleftrightarrow> 0 < n"
| "rb_op_ok _ \<longleftrightarrow> True"

definition rb_refines :: "nat \<Rightarrow> 'a ring_buffer \<Rightarrow> 'a list \<Rightarrow> bool" where
  "rb_refines cap rb q \<longleftrightarrow> rb_inv rb \<and> buffer_size rb = cap \<and> rb_contents rb = q"

lemma rb_refines_write:
  assumes "rb_refines cap rb q"
  shows "\<exists>r rb' q'. rb_step (OpWrite v) rb = Some (r, rb') \<and> list_step cap (OpWrite v) q = (r, q') \<and>
           rb_refines cap rb' q'"
proof (cases "mCount rb = buffer_size rb")
  case True
  then show ?thesis using assms by (auto simp: rb_write_def rb_refines_def)
next
  case False
  then have lt: "mCount rb < buffer_size rb" using assms by (simp add: rb_refines_def rb_inv_def)
  then show ?thesis
    using assms rb_store_step[of rb v] by (auto simp: rb_write_def rb_refines_def Let_def)
qed

lemma rb_refines_read:
  assumes "rb_refines cap rb q"
  shows "\<exists>r rb' q'. rb_step (OpRead v) rb = Some (r, rb') \<and> list_step cap (OpRead v) q = (r, q') \<and>
           rb_refines cap rb' q'"
proof (cases "mCount rb = 0")
  case True
  then have "rb_contents rb = []" using assms length_rb_contents[of rb] by (simp add: rb_refines_def)
  then show ?thesis using True assms by (auto simp: rb_read_def rb_remove_def rb_front_def rb_refines_def)
next
  case False
  then show ?thesis
    using assms rb_skip_step[of rb] by (auto simp: rb_read_def rb_remove_def rb_front_def rb_refines_def)
qed

lemma rb_refines_step:
  assumes "rb_refines cap rb q" and "rb_op_ok op"
  shows "\<exists>r rb' q'. rb_step op rb = Some (r, rb') \<and> list_step cap op q = (r, q') \<and> rb_refines cap rb' q'"
proof -
  have inv: "rb_inv rb" and sz: "cap = buffer_size rb" and q: "q = rb_contents rb"
    using assms(1) by (simp_all add: rb_refines_def)
  have sp: "space_available rb = cap - mCount rb" "mCount rb \<le> cap"
    using inv sz by (simp_all add: space_available_def rb_inv_def)
  show ?thesis
  proof (cases op)
    case (OpPush vs)
    show ?thesis
    proof (cases "length vs \<le> space_available rb")
      case True
      then show ?thesis using rb_push_appends[OF inv True] OpPush inv sz q sp by (auto simp: rb_refines_def)
    next
      case False
      then show ?thesis using OpPush rb_push_full[of rb "length vs" vs] inv sz q sp by (auto simp: rb_refines_def)
    qed
  next
    case (OpPop n)
    then show ?thesis using rb_pop_drops[OF inv, of n] assms(2) sz q inv by (auto simp: rb_refines_def)
  next
    case (OpPull n)
    then show ?thesis using rb_pull_takes[OF inv, of n] sz q inv by (auto simp: rb_refines_def)
  next
    case (OpForce v)
    then show ?thesis
      using force_write_shifts[OF inv, of v] sz q sp inv by (auto simp: rb_refines_def rb_full_def)
  next
    case OpClear
    then show ?thesis using rb_clear_inv[OF rb_inv_size[OF inv]] sz by (simp add: rb_refines_def)
  next
    case (OpWrite v)
    then show ?thesis using rb_refines_write[OF assms(1)] by simp
  next
    case (OpRead v)
    then show ?thesis using rb_refines_read[OF assms(1)] by simp
  qed
qed

interpretation rbs: simulation "rb_refines cap" rb_step "list_step cap" rb_op_ok for cap
  by unfold_locales (rule rb_refines_step)


interpretation rbq: bounded_queue rb_inv rb_contents buffer_size
  "\<lambda>rb vs. case rb_push vs (length vs) rb of Some (Inr rb1) \<Rightarrow> (length vs, rb1) | _ \<Rightarrow> (0, rb)"
  "\<lambda>rb n. snd (rb_pull n rb)"
proof (unfold_locales, goal_cases)
  case (1 q)
  then show ?case by (simp add: rb_inv_def)
next
  case (2 q xs n q')
  then show ?case using rb_push_appends[of q xs] rb_push_full[of q "length xs" xs]
    by (cases "length xs \<le> space_available q") auto
next
  case (3 q xs n q')
  then show ?case using rb_push_appends[of q xs] rb_push_full[of q "length xs" xs]
    by (cases "length xs \<le> space_available q") auto
next
  case (4 q xs)
  then have "length xs \<le> space_available q" by (simp add: space_available_def)
  with 4 rb_push_appends[of q xs] show ?case by auto
next
  case (5 q n ys q')
  then show ?case using rb_pull_takes[of q n] by auto
next
  case (6 q n ys q')
  then show ?case using rb_pull_takes[of q n] by auto
qed

section \<open>Walking the buffer\<close>

lemma iter_advance_idx:
  assumes inv: "rb_inv rb" and i: "i < mCount rb"
  shows "iter_advance rb ((mReadIdx rb + i) mod buffer_size rb) =
    (if Suc i = mCount rb then None else Some ((mReadIdx rb + Suc i) mod buffer_size rb))"
proof -
  let ?s = "buffer_size rb" and ?r = "mReadIdx rb"
  have s: "0 < ?s" "mCount rb \<le> ?s" "mWriteIdx rb = (?r + mCount rb) mod ?s"
    using inv by (simp_all add: rb_inv_def)
  have nxt: "(if (?r + i) mod ?s + 1 = ?s then 0 else (?r + i) mod ?s + 1) = (?r + Suc i) mod ?s"
    using mod_Suc[of "?r + i" ?s] s(1) by simp
  have "(?r + Suc i) mod ?s = mWriteIdx rb \<longleftrightarrow> Suc i = mCount rb"
  proof (cases "mCount rb = ?s")
    case True
    show ?thesis
    proof (cases "Suc i = ?s")
      case F: False
      then have "(?r + Suc i) mod ?s \<noteq> (?r + 0) mod ?s"
        using mod_shift_inj[of ?r "Suc i" ?s 0] i True by auto
      moreover have "mWriteIdx rb = (?r + 0) mod ?s" using s(3) True by simp
      ultimately show ?thesis using F True by simp
    qed (use s(3) True in simp)
  next
    case False
    then have "(?r + Suc i) mod ?s = (?r + mCount rb) mod ?s \<Longrightarrow> Suc i = mCount rb"
      using mod_shift_inj[of ?r "Suc i" ?s "mCount rb"] i s(2) by linarith
    then show ?thesis using s(3) by metis
  qed
  then show ?thesis using nxt by (simp add: iter_advance_def Let_def)
qed

lemma riter_advance_idx:
  assumes inv: "rb_inv rb" and i: "i < mCount rb"
  shows "riter_advance rb ((mReadIdx rb + i) mod buffer_size rb) =
    (case i of 0 \<Rightarrow> None | Suc j \<Rightarrow> Some ((mReadIdx rb + j) mod buffer_size rb))"
proof -
  let ?s = "buffer_size rb" and ?r = "mReadIdx rb"
  have s: "0 < ?s" "mCount rb \<le> ?s" "?r < ?s" using inv by (simp_all add: rb_inv_def)
  show ?thesis
  proof (cases i)
    case (Suc j)
    have "(?r + i) mod ?s \<noteq> ?r" using mod_shift_inj[of ?r i ?s 0] i s Suc by auto
    then show ?thesis using Suc mod_Suc[of "?r + j" ?s] s by (auto simp: riter_advance_def)
  qed (use s in \<open>simp add: riter_advance_def\<close>)
qed

lemma rb_walk_forward:
  assumes "rb_inv rb" and "i < mCount rb" and "mCount rb - i \<le> fuel"
  shows "rb_walk iter_advance fuel rb (Some ((mReadIdx rb + i) mod buffer_size rb)) =
    Some (drop i (rb_contents rb))"
  using assms(2,3)
proof (induction fuel arbitrary: i)
  case (Suc fuel)
  have "drop i (rb_contents rb) = rb_contents rb ! i # drop (Suc i) (rb_contents rb)"
    using Suc.prems(1) assms(1) by (simp add: Cons_nth_drop_Suc)
  moreover have "rb_contents rb ! i = mBuffer rb ! ((mReadIdx rb + i) mod buffer_size rb)"
    using Suc.prems(1) assms(1) by (simp add: rb_contents_map)
  ultimately show ?case
    using Suc.IH[of "Suc i"] Suc.prems iter_advance_idx[OF assms(1) Suc.prems(1)] assms(1) by auto
qed simp

lemma rb_walk_backward:
  assumes "rb_inv rb" and "i < mCount rb" and "i < fuel"
  shows "rb_walk riter_advance fuel rb (Some ((mReadIdx rb + i) mod buffer_size rb)) =
    Some (rev (take (Suc i) (rb_contents rb)))"
  using assms(2,3)
proof (induction i arbitrary: fuel)
  case 0
  obtain f where f: "fuel = Suc f" using 0 by (cases fuel) auto
  have "take (Suc 0) (rb_contents rb) = [mBuffer rb ! (mReadIdx rb mod buffer_size rb)]"
    using 0 assms(1) by (simp add: take_Suc_conv_app_nth rb_contents_map)
  then show ?case using riter_advance_idx[OF assms(1) 0(1)] f by simp
next
  case (Suc i)
  obtain f where f: "fuel = Suc f" using Suc.prems by (cases fuel) auto
  have "take (Suc (Suc i)) (rb_contents rb) = take (Suc i) (rb_contents rb) @
      [mBuffer rb ! ((mReadIdx rb + Suc i) mod buffer_size rb)]"
    using Suc.prems assms(1) by (simp add: take_Suc_conv_app_nth rb_contents_map)
  then show ?case using riter_advance_idx[OF assms(1) Suc.prems(1)] Suc f by simp
qed

lemma rb_back_idx:
  assumes "rb_inv rb" and "0 < mCount rb"
  shows "rb_back rb = Some ((mReadIdx rb + (mCount rb - 1)) mod buffer_size rb)"
proof -
  obtain c where c: "mCount rb = Suc c" using assms(2) by (cases "mCount rb") auto
  have "mWriteIdx rb = Suc (mReadIdx rb + c) mod buffer_size rb" "0 < buffer_size rb"
    using assms(1) c by (simp_all add: rb_inv_def)
  then show ?thesis using c mod_Suc[of "mReadIdx rb + c" "buffer_size rb"] by (auto simp: rb_back_def)
qed

lemma rb_walks:
  assumes "rb_inv rb" and "mCount rb \<le> fuel"
  shows "rb_walk iter_advance fuel rb (rb_front rb) = Some (rb_contents rb)"
    and "rb_walk riter_advance fuel rb (rb_back rb) = Some (rev (rb_contents rb))"
proof -
  have nil: "rb_contents rb = []" if "mCount rb = 0"
    using that length_rb_contents[OF assms(1)] by simp
  have r: "mReadIdx rb mod buffer_size rb = mReadIdx rb" using assms(1) by (simp add: rb_inv_def)
  show "rb_walk iter_advance fuel rb (rb_front rb) = Some (rb_contents rb)"
    using rb_walk_forward[OF assms(1), of 0 fuel] assms(2) nil r
    by (cases "mCount rb = 0") (simp_all add: rb_front_def)
  show "rb_walk riter_advance fuel rb (rb_back rb) = Some (rev (rb_contents rb))"
  proof (cases "mCount rb = 0")
    case False
    then show ?thesis
      using rb_walk_backward[OF assms(1), of "mCount rb - 1" fuel] rb_back_idx[OF assms(1)] assms
      by simp
  qed (use nil in \<open>simp add: rb_back_def\<close>)
qed


section \<open>Properties\<close>

lemma force_write_history:
  assumes "0 < buffer_size rb"
  shows "rb_inv (fold force_write xs (rb_clear rb)) \<and>
    buffer_size (fold force_write xs (rb_clear rb)) = buffer_size rb \<and>
    rb_contents (fold force_write xs (rb_clear rb)) = drop (length xs - buffer_size rb) xs"
proof (induction xs rule: rev_induct)
  case Nil
  then show ?case using rb_clear_inv[OF assms] by simp
next
  case (snoc x xs)
  let ?rb = "fold force_write xs (rb_clear rb)"
  have full: "rb_full ?rb \<longleftrightarrow> buffer_size rb \<le> length xs"
    using snoc length_rb_contents[of ?rb] assms by (auto simp: rb_full_def)
  show ?case
    using force_write_shifts[of ?rb x] snoc full assms
    by (auto simp: drop_Suc[symmetric] Suc_diff_le tl_drop)
qed

text \<open>C4: The ring buffer refines a list of at most \<open>I\<close> elements. After construction, every sequence
  of pushes, positive pops, pulls, writes, forced writes, reads and clears returns what the same
  sequence returns on the list (a push that does not fit throws, a write on a full buffer returns
  false, a forced write drops the oldest element), never leaves its array, and both iterators
  then visit exactly the list, the reverse one from its end.\<close>

theorem ring_buffer_refines_list:
  assumes "0 < buffer_size rb" and "list_all rb_op_ok ops"
  shows "\<exists>rs rb' q. run_machine rb_step ops (rb_clear rb) = Some (rs, rb') \<and>
    run_spec (list_step (buffer_size rb)) ops [] = (rs, q) \<and> rb_inv rb' \<and> rb_contents rb' = q \<and>
    rb_walk iter_advance (buffer_size rb) rb' (rb_front rb') = Some q \<and>
    rb_walk riter_advance (buffer_size rb) rb' (rb_back rb') = Some (rev q)"
proof -
  have "rb_refines (buffer_size rb) (rb_clear rb) []"
    using rb_clear_inv[OF assms(1)] by (simp add: rb_refines_def)
  from rbs.run_simulates[OF this assms(2)] obtain rs rb' q where
    r: "run_machine rb_step ops (rb_clear rb) = Some (rs, rb')"
    "run_spec (list_step (buffer_size rb)) ops [] = (rs, q)" "rb_refines (buffer_size rb) rb' q"
    by blast
  moreover from r(3) have "rb_inv rb'" "mCount rb' \<le> buffer_size rb" "q = rb_contents rb'"
    by (simp_all add: rb_refines_def rb_inv_def)
  ultimately show ?thesis using rb_walks[of rb' "buffer_size rb"] by simp
qed

theorem ring_buffer_refines_list_witness:
  "\<exists>rs rb' q. run_machine rb_step [OpPush [1, 2], OpForce 3, OpForce 4, OpPop 1, OpRead 9]
      (rb_clear \<lparr>mReadIdx = 0, mWriteIdx = 0, mCount = 0, mBuffer = replicate 3 (0::nat)\<rparr>) = Some (rs, rb') \<and>
    rs = [ResUnit, ResUnit, ResUnit, ResCount 1, ResRead True 3] \<and> rb_contents rb' = [4] \<and> q = [4::nat]"
  using ring_buffer_refines_list[of "\<lparr>mReadIdx = 0, mWriteIdx = 0, mCount = 0, mBuffer = replicate 3 (0::nat)\<rparr>"
      "[OpPush [1, 2], OpForce 3, OpForce 4, OpPop 1, OpRead 9]"]
  by (auto simp: buffer_size_def)

text \<open>C37: A history kept with \<^verbatim>\<open>force_write\<close> holds the last \<open>I\<close> values: after any sequence of forced
  writes into a fresh buffer, the reverse iterator visits the newest \<open>I\<close> of them, newest first, and
  ends after at most \<open>I\<close> steps.\<close>

theorem ring_buffer_history:
  assumes "0 < buffer_size rb"
  shows "rb_walk riter_advance (buffer_size rb) (fold force_write xs (rb_clear rb))
           (rb_back (fold force_write xs (rb_clear rb))) = Some (take (buffer_size rb) (rev xs))"
proof -
  have "take (buffer_size rb) (rev xs) = rev (drop (length xs - buffer_size rb) xs)"
    by (simp add: take_rev)
  with force_write_history[OF assms, of xs] show ?thesis
    using rb_walks(2)[of "fold force_write xs (rb_clear rb)" "buffer_size rb"]
    by (simp add: rb_inv_def)
qed

theorem ring_buffer_history_witness:
  "rb_walk riter_advance 2 (fold force_write [1, 2, 3] (rb_clear \<lparr>mReadIdx = 0, mWriteIdx = 0, mCount = 0, mBuffer = [0, 0::nat]\<rparr>))
     (rb_back (fold force_write [1, 2, 3] (rb_clear \<lparr>mReadIdx = 0, mWriteIdx = 0, mCount = 0, mBuffer = [0, 0::nat]\<rparr>))) = Some [3, 2]"
  using ring_buffer_history[of "\<lparr>mReadIdx = 0, mWriteIdx = 0, mCount = 0, mBuffer = [0, 0::nat]\<rparr>" "[1, 2, 3]"]
  by (simp add: buffer_size_def numeral_2_eq_2)

text \<open>C38: \<^verbatim>\<open>pop(0)\<close> on a full buffer reorders it: the test for an empty buffer after the removal
  (equal indices) also holds of a full one, so the indices are reset and the elements are read
  from the start of the array instead of from the read index; and \<^verbatim>\<open>size_of_data_ptr\<close> reports no
  data for a full buffer.\<close>

theorem ring_buffer_full_misread:
  assumes "rb_inv rb" and "rb_full rb"
  shows "fst (rb_pop 0 rb) = 0 \<and> rb_contents (snd (rb_pop 0 rb)) = mBuffer rb \<and>
    rb_contents rb = rotate (mReadIdx rb) (mBuffer rb) \<and> size_of_data_ptr rb = 0"
proof -
  have idx: "mReadIdx rb = mWriteIdx rb" using rb_idx_eq[OF assms(1)] assms(2) by (simp add: rb_full_def)
  have c: "mCount rb = length (mBuffer rb)" using assms(2) by (simp add: rb_full_def buffer_size_def)
  have r: "mReadIdx rb < length (mBuffer rb)" using assms(1) by (simp add: rb_inv_def buffer_size_def)
  have "rb_contents rb = rotate (mReadIdx rb) (mBuffer rb)"
    using r by (simp add: rb_contents_def ring_contents_def c rotate_drop_take)
  then show ?thesis
    using idx c by (simp add: rb_pop_def size_of_data_ptr_def rb_contents_def ring_contents_def)
qed

theorem ring_buffer_full_misread_witness:
  "rb_inv \<lparr>mReadIdx = 1, mWriteIdx = 1, mCount = 2, mBuffer = [5, 4::nat]\<rparr> \<and>
   rb_contents \<lparr>mReadIdx = 1, mWriteIdx = 1, mCount = 2, mBuffer = [5, 4::nat]\<rparr> = [4, 5] \<and>
   rb_contents (snd (rb_pop 0 \<lparr>mReadIdx = 1, mWriteIdx = 1, mCount = 2, mBuffer = [5, 4::nat]\<rparr>)) = [5, 4]"
  using ring_buffer_full_misread[of "\<lparr>mReadIdx = 1, mWriteIdx = 1, mCount = 2, mBuffer = [5, 4::nat]\<rparr>"]
  by (simp add: rb_inv_def rb_full_def buffer_size_def rotate_def mod_Suc)

end
