(* ===== verification/Spinel_Pack.thy ===== *)
theory Spinel_Pack
  imports Prelude "HOL-Library.Sublist"
begin

unbundle bit_operations_syntax

text \<open>
  The Spinel data encoding of the Rust daemon: \<^verbatim>\<open>crates/spinel/src/pack.rs\<close> (the writer and the
  reader of single fields), \<^verbatim>\<open>frame.rs\<close> (header, command and payload), \<^verbatim>\<open>vendor.rs\<close> (channel
  lists and frequencies) and the frame builders of \<^verbatim>\<open>property.rs\<close>. A \<^verbatim>\<open>Result\<close> is a sum, \<open>Inl\<close>
  its error; a panic is \<open>None\<close>; a signed integer is the word of its two's complement; a \<^verbatim>\<open>String\<close>
  is its UTF-8 bytes. What every field promises is the locale \<open>field_codec\<close>.
\<close>

section \<open>Errors, writer and reader\<close>

datatype SpinelError =
  Underflow | InvalidUtf8 | InvalidPackedUint | InvalidEscape | CrcMismatch | FrameTooLarge |
  InvalidHeader | InvalidValue

definition SPINEL_MAX_UINT_PACKED :: u32 where "SPINEL_MAX_UINT_PACKED = 0x1FFFFF"

record pack_writer =
  wbuf :: bytes

record pack_reader =
  rdata :: bytes
  roffset :: nat

text \<open>\<^verbatim>\<open>to_le_bytes\<close> and \<^verbatim>\<open>from_le_bytes\<close> of the integer types.\<close>

fun to_le_bytes :: "nat \<Rightarrow> 'a::len word \<Rightarrow> bytes" where
  "to_le_bytes 0 v = []"
| "to_le_bytes (Suc n) v = ucast v # to_le_bytes n (drop_bit 8 v)"

fun of_le_bytes :: "bytes \<Rightarrow> 'a::len word" where
  "of_le_bytes [] = 0"
| "of_le_bytes (b # bs) = ucast b OR push_bit 8 (of_le_bytes bs)"

definition writer_new :: pack_writer where
  "writer_new = \<lparr>wbuf = []\<rparr>"

definition write_bytes :: "bytes \<Rightarrow> pack_writer \<Rightarrow> pack_writer" where
  "write_bytes data w = w\<lparr>wbuf := wbuf w @ data\<rparr>"

definition write_uint_packed :: "u32 \<Rightarrow> pack_writer \<Rightarrow> pack_writer option" where
  "write_uint_packed val w =
     (if val \<le> SPINEL_MAX_UINT_PACKED then
        Some (if val < 0x80 then write_bytes [ucast val] w
              else if val < 0x4000 then
                write_bytes [0x80 OR ucast (val AND 0x7F), ucast (drop_bit 7 val)] w
              else
                write_bytes [0x80 OR ucast (val AND 0x7F), 0x80 OR ucast (drop_bit 7 val AND 0x7F),
                             ucast (drop_bit 14 val)] w)
      else None)"

definition write_bool :: "bool \<Rightarrow> pack_writer \<Rightarrow> pack_writer" where
  "write_bool val w = write_bytes [if val then 1 else 0] w"

definition write_uint8 :: "u8 \<Rightarrow> pack_writer \<Rightarrow> pack_writer" where
  "write_uint8 val w = write_bytes [val] w"

definition write_uint16 :: "u16 \<Rightarrow> pack_writer \<Rightarrow> pack_writer" where
  "write_uint16 val w = write_bytes (to_le_bytes 2 val) w"

definition write_uint32 :: "u32 \<Rightarrow> pack_writer \<Rightarrow> pack_writer" where
  "write_uint32 val w = write_bytes (to_le_bytes 4 val) w"

definition write_uint64 :: "u64 \<Rightarrow> pack_writer \<Rightarrow> pack_writer" where
  "write_uint64 val w = write_bytes (to_le_bytes 8 val) w"

definition write_int8 :: "u8 \<Rightarrow> pack_writer \<Rightarrow> pack_writer" where
  "write_int8 val w = write_bytes [val] w"

definition write_int16 :: "u16 \<Rightarrow> pack_writer \<Rightarrow> pack_writer" where
  "write_int16 val w = write_bytes (to_le_bytes 2 val) w"

definition write_int32 :: "u32 \<Rightarrow> pack_writer \<Rightarrow> pack_writer" where
  "write_int32 val w = write_bytes (to_le_bytes 4 val) w"

definition write_int64 :: "u64 \<Rightarrow> pack_writer \<Rightarrow> pack_writer" where
  "write_int64 val w = write_bytes (to_le_bytes 8 val) w"

definition write_ipv6 :: "bytes \<Rightarrow> pack_writer \<Rightarrow> pack_writer" where
  "write_ipv6 addr w = write_bytes addr w"

definition write_eui64 :: "bytes \<Rightarrow> pack_writer \<Rightarrow> pack_writer" where
  "write_eui64 addr w = write_bytes addr w"

definition write_eui48 :: "bytes \<Rightarrow> pack_writer \<Rightarrow> pack_writer" where
  "write_eui48 addr w = write_bytes addr w"

definition write_data_with_len :: "bytes \<Rightarrow> pack_writer \<Rightarrow> pack_writer" where
  "write_data_with_len data w = write_bytes data (write_uint16 (of_nat (length data)) w)"

definition write_utf8 :: "bytes \<Rightarrow> pack_writer \<Rightarrow> pack_writer" where
  "write_utf8 s w = write_bytes [0] (write_bytes s w)"

definition write_struct_start :: "pack_writer \<Rightarrow> nat \<times> pack_writer" where
  "write_struct_start w = (length (wbuf w), write_bytes [0, 0] w)"

text \<open>\<open>None\<close>: the subtraction or the slice is out of range.\<close>

definition write_struct_end :: "nat \<Rightarrow> pack_writer \<Rightarrow> pack_writer option" where
  "write_struct_end start_pos w =
     (if start_pos + 2 \<le> length (wbuf w) then
        do { b \<leftarrow> mem_wr start_pos (to_le_bytes 2 (of_nat (length (wbuf w) - start_pos - 2) :: u16)) (wbuf w);
             Some (w\<lparr>wbuf := b\<rparr>) }
      else None)"

definition reader_new :: "bytes \<Rightarrow> pack_reader" where
  "reader_new data = \<lparr>rdata = data, roffset = 0\<rparr>"

definition advance :: "nat \<Rightarrow> pack_reader \<Rightarrow> pack_reader" where
  "advance n r = r\<lparr>roffset := roffset r + n\<rparr>"

text \<open>The operator \<^verbatim>\<open>?\<close>: an error ends the caller.\<close>

definition try_bind :: "('e + 'a) \<times> 's \<Rightarrow> ('a \<Rightarrow> 's \<Rightarrow> ('e + 'b) \<times> 's) \<Rightarrow> ('e + 'b) \<times> 's" where
  "try_bind m f = (case m of (Inl e, s) \<Rightarrow> (Inl e, s) | (Inr v, s) \<Rightarrow> f v s)"

lemma try_bind_simps [simp]:
  "try_bind (Inl e, s) f = (Inl e, s)" "try_bind (Inr v, s) f = f v s"
  by (simp_all add: try_bind_def)

definition remaining :: "pack_reader \<Rightarrow> nat" where
  "remaining r = length (rdata r) - roffset r"

definition read_bytes :: "nat \<Rightarrow> pack_reader \<Rightarrow> (SpinelError + bytes) \<times> pack_reader" where
  "read_bytes n r =
     (if roffset r + n > length (rdata r) then (Inl Underflow, r)
      else (Inr (take n (drop (roffset r) (rdata r))), advance n r))"

text \<open>The loop of \<^verbatim>\<open>read_uint_packed\<close>; at most five bytes are read.\<close>

function read_packed_loop :: "u32 \<Rightarrow> nat \<Rightarrow> pack_reader \<Rightarrow> (SpinelError + u32) \<times> pack_reader" where
  "read_packed_loop result shift r =
     (if roffset r \<ge> length (rdata r) then (Inl Underflow, r)
      else let byte = rdata r ! roffset r;
               r1 = advance 1 r;
               result1 = result OR push_bit shift (ucast (byte AND 0x7F))
           in if byte AND 0x80 = 0 then (Inr result1, r1)
              else if shift + 7 \<ge> 35 then (Inl InvalidPackedUint, r1)
              else read_packed_loop result1 (shift + 7) r1)"
  by pat_completeness auto
termination by (relation "measure (\<lambda>(_, shift, _). 35 - shift)") auto

declare read_packed_loop.simps [simp del]

definition read_uint_packed :: "pack_reader \<Rightarrow> (SpinelError + u32) \<times> pack_reader" where
  "read_uint_packed r =
     try_bind (read_packed_loop 0 0 r)
       (\<lambda>result r1. if result > SPINEL_MAX_UINT_PACKED then (Inl InvalidPackedUint, r1) else (Inr result, r1))"

definition read_uint8 :: "pack_reader \<Rightarrow> (SpinelError + u8) \<times> pack_reader" where
  "read_uint8 r =
     (if roffset r \<ge> length (rdata r) then (Inl Underflow, r)
      else (Inr (rdata r ! roffset r), advance 1 r))"

definition read_bool :: "pack_reader \<Rightarrow> (SpinelError + bool) \<times> pack_reader" where
  "read_bool r = try_bind (read_uint8 r) (\<lambda>v r1. (Inr (v \<noteq> 0), r1))"

definition read_le :: "nat \<Rightarrow> pack_reader \<Rightarrow> (SpinelError + 'a::len word) \<times> pack_reader" where
  "read_le n r =
     (if roffset r + n > length (rdata r) then (Inl Underflow, r)
      else (Inr (of_le_bytes (map (\<lambda>i. rdata r ! (roffset r + i)) [0..<n])), advance n r))"

definition read_uint16 :: "pack_reader \<Rightarrow> (SpinelError + u16) \<times> pack_reader" where
  "read_uint16 = read_le 2"

definition read_uint32 :: "pack_reader \<Rightarrow> (SpinelError + u32) \<times> pack_reader" where
  "read_uint32 = read_le 4"

definition read_uint64 :: "pack_reader \<Rightarrow> (SpinelError + u64) \<times> pack_reader" where
  "read_uint64 = read_le 8"

definition read_int8 :: "pack_reader \<Rightarrow> (SpinelError + u8) \<times> pack_reader" where
  "read_int8 r = read_uint8 r"

definition read_int16 :: "pack_reader \<Rightarrow> (SpinelError + u16) \<times> pack_reader" where
  "read_int16 r = read_uint16 r"

definition read_int32 :: "pack_reader \<Rightarrow> (SpinelError + u32) \<times> pack_reader" where
  "read_int32 r = read_uint32 r"

definition read_int64 :: "pack_reader \<Rightarrow> (SpinelError + u64) \<times> pack_reader" where
  "read_int64 r = read_uint64 r"

definition read_ipv6 :: "pack_reader \<Rightarrow> (SpinelError + bytes) \<times> pack_reader" where
  "read_ipv6 = read_bytes 16"

definition read_eui64 :: "pack_reader \<Rightarrow> (SpinelError + bytes) \<times> pack_reader" where
  "read_eui64 = read_bytes 8"

definition read_eui48 :: "pack_reader \<Rightarrow> (SpinelError + bytes) \<times> pack_reader" where
  "read_eui48 = read_bytes 6"

definition read_data_with_len :: "pack_reader \<Rightarrow> (SpinelError + bytes) \<times> pack_reader" where
  "read_data_with_len r = try_bind (read_uint16 r) (\<lambda>len r1. read_bytes (unat len) r1)"

text \<open>\<^verbatim>\<open>std::str::from_utf8\<close>: the well-formed sequences of the Unicode standard.\<close>

definition utf8_cont :: "u8 \<Rightarrow> bool" where
  "utf8_cont b \<longleftrightarrow> 0x80 \<le> b \<and> b \<le> 0xBF"

definition utf8_second :: "u8 \<Rightarrow> u8 \<Rightarrow> bool" where
  "utf8_second b c \<longleftrightarrow>
     (if b = 0xE0 then 0xA0 \<le> c \<and> c \<le> 0xBF else if b = 0xED then 0x80 \<le> c \<and> c \<le> 0x9F
      else if b = 0xF0 then 0x90 \<le> c \<and> c \<le> 0xBF else if b = 0xF4 then 0x80 \<le> c \<and> c \<le> 0x8F
      else utf8_cont c)"

fun utf8_valid :: "bytes \<Rightarrow> bool" where
  "utf8_valid [] = True"
| "utf8_valid (b # bs) =
     (if b < 0x80 then utf8_valid bs
      else if 0xC2 \<le> b \<and> b \<le> 0xDF then
        (case bs of c # cs \<Rightarrow> utf8_cont c \<and> utf8_valid cs | _ \<Rightarrow> False)
      else if 0xE0 \<le> b \<and> b \<le> 0xEF then
        (case bs of c # d # ds \<Rightarrow> utf8_second b c \<and> utf8_cont d \<and> utf8_valid ds | _ \<Rightarrow> False)
      else if 0xF0 \<le> b \<and> b \<le> 0xF4 then
        (case bs of c # d # e # es \<Rightarrow> utf8_second b c \<and> utf8_cont d \<and> utf8_cont e \<and> utf8_valid es
         | _ \<Rightarrow> False)
      else False)"

definition read_utf8 :: "pack_reader \<Rightarrow> (SpinelError + bytes) \<times> pack_reader" where
  "read_utf8 r =
     (let s = takeWhile (\<lambda>b. b \<noteq> 0) (drop (roffset r) (rdata r)); r1 = advance (length s) r
      in if roffset r1 \<ge> length (rdata r) then (Inl Underflow, r1)
         else if utf8_valid s then (Inr s, advance 1 r1) else (Inl InvalidUtf8, r1))"


definition read_struct :: "pack_reader \<Rightarrow> (SpinelError + bytes) \<times> pack_reader" where
  "read_struct r = read_data_with_len r"

lemmas write_defs =
  write_bool_def write_uint8_def write_int8_def write_uint16_def write_int16_def write_uint32_def
  write_int32_def write_uint64_def write_int64_def write_ipv6_def write_eui64_def write_eui48_def
  write_data_with_len_def write_utf8_def write_bytes_def

section \<open>Reader positions\<close>

definition reader_at :: "pack_reader \<Rightarrow> bytes \<Rightarrow> bool" where
  "reader_at r xs \<longleftrightarrow> roffset r \<le> length (rdata r) \<and> drop (roffset r) (rdata r) = xs"

lemma reader_at_new [simp]: "reader_at (reader_new data) data"
  by (simp add: reader_at_def reader_new_def)

lemma reader_at_advance: "reader_at r (xs @ ys) \<Longrightarrow> reader_at (advance (length xs) r) ys"
proof -
  assume r: "reader_at r (xs @ ys)"
  then have "length (rdata r) - roffset r = length xs + length ys"
    by (metis reader_at_def length_append length_drop)
  moreover have "drop (length xs + roffset r) (rdata r) = ys"
    using r by (metis reader_at_def append_eq_conv_conj drop_drop)
  ultimately show ?thesis using r by (auto simp: reader_at_def advance_def add.commute)
qed

lemma reader_at_length: "reader_at r xs \<Longrightarrow> length (rdata r) = roffset r + length xs"
  by (auto simp: reader_at_def)

lemma remaining_at: "reader_at r xs \<Longrightarrow> remaining r = length xs"
  by (simp add: remaining_def reader_at_length)

lemma read_bytes_at:
  "reader_at r xs \<Longrightarrow>
   read_bytes n r = (if length xs < n then (Inl Underflow, r) else (Inr (take n xs), advance n r))"
  by (auto simp: read_bytes_def reader_at_length) (auto simp: reader_at_def)

lemma nth_at: "reader_at r xs \<Longrightarrow> i < length xs \<Longrightarrow> rdata r ! (roffset r + i) = xs ! i"
  by (auto simp: reader_at_def)

lemma read_uint8_at:
  "reader_at r [] \<Longrightarrow> read_uint8 r = (Inl Underflow, r)"
  "reader_at r (b # xs) \<Longrightarrow> read_uint8 r = (Inr b, advance 1 r)"
  using nth_at[of r "b # xs" 0] by (auto simp: read_uint8_def reader_at_length)

lemma read_le_at:
  assumes "reader_at r xs"
  shows "read_le n r =
    (if length xs < n then (Inl Underflow, r) else (Inr (of_le_bytes (take n xs)), advance n r))"
proof (cases "length xs < n")
  case False
  then have "map (\<lambda>i. rdata r ! (roffset r + i)) [0..<n] = take n xs"
    using nth_at[OF assms] by (intro nth_equalityI) auto
  with False show ?thesis using reader_at_length[OF assms] by (simp add: read_le_def)
qed (use reader_at_length[OF assms] in \<open>simp add: read_le_def\<close>)

lemma read_packed_at_nil: "reader_at r [] \<Longrightarrow> read_packed_loop result shift r = (Inl Underflow, r)"
  by (subst read_packed_loop.simps) (simp add: reader_at_length)

lemma read_packed_at_Cons:
  "reader_at r (b # xs) \<Longrightarrow> read_packed_loop result shift r =
     (if b AND 0x80 = 0 then (Inr (result OR push_bit shift (ucast (b AND 0x7F))), advance 1 r)
      else if 35 \<le> shift + 7 then (Inl InvalidPackedUint, advance 1 r)
      else read_packed_loop (result OR push_bit shift (ucast (b AND 0x7F))) (shift + 7) (advance 1 r))"
  using nth_at[of r "b # xs" 0] by (subst read_packed_loop.simps) (simp add: reader_at_length Let_def)

lemma reader_at_tl: "reader_at r (b # xs) \<Longrightarrow> reader_at (advance (Suc 0) r) xs"
  using reader_at_advance[of r "[b]" xs] by simp

lemma advance_add [simp]: "advance m (advance n r) = advance (n + m) r"
  by (simp add: advance_def)

lemma advance_0 [simp]: "advance 0 r = r"
  by (simp add: advance_def)

section \<open>Little endian\<close>

lemma length_to_le_bytes [simp]: "length (to_le_bytes n v) = n"
  by (induction n arbitrary: v) simp_all

lemma of_le_bytes_take: "of_le_bytes (to_le_bytes n v) = take_bit (8 * n) v"
proof (induction n arbitrary: v)
  case (Suc n)
  show ?case
    by (rule bit_word_eqI) (auto simp: Suc bit_simps dest: bit_imp_le_length)
qed simp

lemma to_le_bytes_inverse: "LENGTH('a) \<le> 8 * n \<Longrightarrow> of_le_bytes (to_le_bytes n v) = v" for v :: "'a::len word"
  by (simp add: of_le_bytes_take take_bit_word_eq_self)


section \<open>What a field promises\<close>

locale field_codec =
  fixes ok :: "'v \<Rightarrow> bool"
    and enc :: "'v \<Rightarrow> bytes"
    and rdr :: "pack_reader \<Rightarrow> (SpinelError + 'v) \<times> pack_reader"
  assumes decodes: "ok v \<Longrightarrow> reader_at r (enc v @ rest) \<Longrightarrow> rdr r = (Inr v, advance (length (enc v)) r)"
    and truncated: "ok v \<Longrightarrow> strict_prefix p (enc v) \<Longrightarrow> reader_at r p \<Longrightarrow> fst (rdr r) = Inl Underflow"
begin

lemma decodes_new: "ok v \<Longrightarrow> rdr (reader_new (enc v @ rest)) = (Inr v, advance (length (enc v)) (reader_new (enc v @ rest)))"
  by (rule decodes[OF _ reader_at_new])

text \<open>No field value is a prefix of another: a sequence of fields has one reading.\<close>

lemma unique_reading:
  assumes "ok v" and "ok w" and "enc v @ xs = enc w @ ys"
  shows "v = w \<and> xs = ys"
proof -
  have "rdr (reader_new (enc v @ xs)) = (Inr v, advance (length (enc v)) (reader_new (enc v @ xs)))"
    using assms(1) by (rule decodes_new)
  moreover have "rdr (reader_new (enc v @ xs)) = (Inr w, advance (length (enc w)) (reader_new (enc v @ xs)))"
    using decodes_new[OF assms(2), of ys] assms(3) by simp
  ultimately show ?thesis using assms(3) by simp
qed

end

lemma strict_prefix_short: "strict_prefix p xs \<Longrightarrow> length p < length xs"
  by (rule prefix_length_less)

interpretation fc_u8: field_codec "\<lambda>_. True" "\<lambda>v. [v]" read_uint8
  by unfold_locales (auto simp: read_uint8_at strict_prefix_def prefix_Cons)

lemma read_le_codec:
  assumes "LENGTH('a) \<le> 8 * n"
  shows "field_codec (\<lambda>_. True) (to_le_bytes n) (read_le n :: _ \<Rightarrow> (SpinelError + 'a::len word) \<times> _)"
  using assms
  by unfold_locales (auto simp: read_le_at to_le_bytes_inverse dest!: strict_prefix_short)

interpretation fc_u16: field_codec "\<lambda>_. True" "to_le_bytes 2" read_uint16
  unfolding read_uint16_def by (rule read_le_codec) simp

interpretation fc_u32: field_codec "\<lambda>_. True" "to_le_bytes 4" read_uint32
  unfolding read_uint32_def by (rule read_le_codec) simp

interpretation fc_u64: field_codec "\<lambda>_. True" "to_le_bytes 8" read_uint64
  unfolding read_uint64_def by (rule read_le_codec) simp

interpretation fc_bool: field_codec "\<lambda>_. True" "\<lambda>b. [if b then 1 else 0]" read_bool
  by unfold_locales (auto simp: read_bool_def read_uint8_at strict_prefix_def prefix_Cons)

interpretation fc_raw: field_codec "\<lambda>bs. length bs = n" "\<lambda>bs. bs" "read_bytes n" for n
  by unfold_locales (auto simp: read_bytes_at dest!: strict_prefix_short)

lemma read_data_with_len_at:
  assumes "length bs < 2 ^ 16" and "reader_at r (to_le_bytes 2 (of_nat (length bs) :: u16) @ xs)"
  shows "read_data_with_len r =
    (if length xs < length bs then (Inl Underflow, advance 2 r)
     else (Inr (take (length bs) xs), advance (2 + length bs) r))"
proof -
  have "unat (of_nat (length bs) :: u16) = length bs"
    using assms(1) by (simp add: unsigned_of_nat take_bit_nat_eq_self)
  then show ?thesis
    using fc_u16.decodes[OF _ assms(2)] reader_at_advance[OF assms(2)]
    by (auto simp: read_data_with_len_def read_bytes_at)
qed

interpretation fc_dwl: field_codec "\<lambda>bs. length bs < 2 ^ 16"
  "\<lambda>bs. to_le_bytes 2 (of_nat (length bs) :: u16) @ bs" read_data_with_len
proof (unfold_locales, goal_cases)
  case (1 v r rest)
  then show ?case using read_data_with_len_at[of v r "v @ rest"] by simp
next
  case (2 v p r)
  let ?l = "to_le_bytes 2 (of_nat (length v) :: u16)"
  consider "strict_prefix p ?l" | q where "p = ?l @ q" "strict_prefix q v"
    using 2(2) by (cases "p = ?l") (auto simp: strict_prefix_def prefix_append)
  then show ?case
  proof cases
    case 1
    then show ?thesis using fc_u16.truncated[OF _ _ 2(3)]
      by (cases "read_uint16 r") (auto simp: read_data_with_len_def)
  next
    case (2 q)
    then show ?thesis
      using read_data_with_len_at[of v r q] \<open>length v < 2 ^ 16\<close> \<open>reader_at r p\<close> strict_prefix_short[of q v]
      by simp
  qed
qed

lemma read_utf8_at:
  assumes "reader_at r xs"
  shows "read_utf8 r =
    (let s = takeWhile (\<lambda>b. b \<noteq> 0) xs
     in if length s = length xs then (Inl Underflow, advance (length s) r)
        else if utf8_valid s then (Inr s, advance (length s + 1) r)
        else (Inl InvalidUtf8, advance (length s) r))"
proof -
  have "length (takeWhile (\<lambda>b. b \<noteq> 0) xs) \<le> length xs" by (rule length_takeWhile_le)
  moreover have "roffset (advance n r) = roffset r + n" for n by (simp add: advance_def)
  moreover have "drop (roffset r) (rdata r) = xs" using assms by (simp add: reader_at_def)
  ultimately show ?thesis using reader_at_length[OF assms] by (auto simp: read_utf8_def Let_def)
qed

lemma takeWhile_no_nul: "0 \<notin> set s \<Longrightarrow> takeWhile (\<lambda>b. b \<noteq> 0) (s @ 0 # xs) = s" for s :: bytes
  by (induction s) auto

interpretation fc_utf8: field_codec "\<lambda>s. utf8_valid s \<and> 0 \<notin> set s" "\<lambda>s. s @ [0]" read_utf8
proof (unfold_locales, goal_cases)
  case (1 v r rest)
  then show ?case using takeWhile_no_nul[of v rest] by (simp add: read_utf8_at)
next
  case (2 v p r)
  then have "prefix p v" by (auto simp: strict_prefix_def)
  then have "0 \<notin> set p" using 2(1) set_mono_prefix by fastforce
  then have all: "takeWhile (\<lambda>b. b \<noteq> 0) p = p" by (auto simp: takeWhile_eq_all_conv)
  from read_utf8_at[OF 2(3)] show ?case by (simp only: all Let_def) simp
qed


section \<open>Packed integers\<close>

definition packed_bytes :: "u32 \<Rightarrow> bytes" where
  "packed_bytes val =
     (if val < 0x80 then [ucast val]
      else if val < 0x4000 then [0x80 OR ucast (val AND 0x7F), ucast (drop_bit 7 val)]
      else [0x80 OR ucast (val AND 0x7F), 0x80 OR ucast (drop_bit 7 val AND 0x7F), ucast (drop_bit 14 val)])"

lemma write_uint_packed_bytes:
  "val \<le> SPINEL_MAX_UINT_PACKED \<Longrightarrow> write_uint_packed val w = Some (write_bytes (packed_bytes val) w)"
  by (simp add: write_uint_packed_def packed_bytes_def)

lemma u32_bits_below:
  fixes val :: u32
  assumes "uint val < 2 ^ n" and "bit val k"
  shows "k < n"
proof -
  have "take_bit n (uint val) = uint val" using assms(1) by (simp add: take_bit_int_eq_self)
  moreover have "bit (uint val) k" using assms(2) bit_imp_le_length[OF assms(2)] by (simp add: bit_uint_iff)
  ultimately show ?thesis by (metis bit_take_bit_iff)
qed

lemma const_0x80_bit: "bit (0x80 :: int) k \<longleftrightarrow> k = 7"
proof -
  have "(0x80 :: int) = 2 ^ 7" by simp
  then show ?thesis by (simp only: bit_exp_iff) (simp add: possible_bit_def)
qed

lemma const_0x7F_bit: "bit (0x7F :: int) k \<longleftrightarrow> k < 7"
proof -
  have "(0x7F :: int) = mask 7" by (simp add: mask_eq_exp_minus_1)
  then show ?thesis by (simp only: bit_mask_iff) (auto simp: possible_bit_def)
qed

lemma const_0x3F80_bit: "bit (0x3F80 :: int) k \<longleftrightarrow> 7 \<le> k \<and> k < 14"
proof -
  have "(0x3F80 :: int) = push_bit 7 0x7F" by simp
  then show ?thesis by (simp only: bit_push_bit_iff const_0x7F_bit) (auto simp: possible_bit_def)
qed

lemma and_0x80_eq_0: "b AND 0x80 = 0 \<longleftrightarrow> \<not> bit b 7" for b :: u8
proof
  have "bit (b AND 0x80) 7 \<longleftrightarrow> bit b 7" by (simp add: bit_simps const_0x80_bit)
  then show "b AND 0x80 = 0 \<Longrightarrow> \<not> bit b 7" by auto
  assume "\<not> bit b 7"
  then show "b AND 0x80 = 0" by (intro bit_word_eqI) (auto simp: bit_simps const_0x80_bit)
qed

lemma packed_byte_cont: "\<not> (0x80 OR c) AND 0x80 = 0" for c :: u8
  by (simp add: and_0x80_eq_0 bit_simps const_0x80_bit)

lemma packed_byte_value: "(0x80 OR ucast (x AND 0x7F)) AND 0x7F = (ucast (x AND 0x7F) :: u8)" for x :: u32
  by (rule bit_word_eqI) (auto simp: bit_simps const_0x80_bit const_0x7F_bit)

lemma packed_last:
  fixes x :: u32
  assumes "x < 0x80"
  shows "(ucast x :: u8) AND 0x80 = 0" and "ucast ((ucast x :: u8) AND 0x7F) = x"
proof -
  have b: "bit x k \<Longrightarrow> k < 7" for k using u32_bits_below[of x 7 k] assms by (simp add: word_less_def)
  show "(ucast x :: u8) AND 0x80 = 0" using b by (auto simp: and_0x80_eq_0 bit_simps)
  show "ucast ((ucast x :: u8) AND 0x7F) = x"
    by (rule bit_word_eqI) (auto simp: bit_simps const_0x7F_bit dest: b)
qed

lemma packed_low: "ucast (ucast (x AND 0x7F) :: u8) = x AND 0x7F" for x :: u32
  by (rule bit_word_eqI) (auto simp: bit_simps const_0x7F_bit)

lemma packed_high:
  "x < 0x4000 \<Longrightarrow> drop_bit 7 x < 0x80" "x \<le> 0x1FFFFF \<Longrightarrow> drop_bit 14 x < 0x80" for x :: u32
  by (simp_all add: word_less_def word_le_def unsigned_drop_bit_eq) (simp_all add: drop_bit_eq_div take_bit_int_eq_self)

lemma packed_join:
  "(x AND 0x7F) OR push_bit 7 (drop_bit 7 x) = x"
  "(x AND 0x7F) OR push_bit 7 (drop_bit 7 x AND 0x7F) OR push_bit 14 (drop_bit 14 x) = x" for x :: u32
proof -
  show "(x AND 0x7F) OR push_bit 7 (drop_bit 7 x) = x"
  proof (rule bit_word_eqI)
    fix n show "bit ((x AND 0x7F) OR push_bit 7 (drop_bit 7 x)) n \<longleftrightarrow> bit x n"
      by (cases "n < 7") (auto simp: bit_simps const_0x7F_bit dest: bit_imp_le_length)
  qed
  show "(x AND 0x7F) OR push_bit 7 (drop_bit 7 x AND 0x7F) OR push_bit 14 (drop_bit 14 x) = x"
  proof (rule bit_word_eqI)
    fix n show "bit ((x AND 0x7F) OR push_bit 7 (drop_bit 7 x AND 0x7F) OR push_bit 14 (drop_bit 14 x)) n \<longleftrightarrow> bit x n"
      by (cases "n < 7"; cases "n < 14") (auto simp: bit_simps const_0x7F_bit const_0x3F80_bit dest: bit_imp_le_length)
  qed
qed

lemmas packed_simps = packed_byte_cont packed_byte_value packed_low packed_last packed_join

lemma packed_loop_decodes:
  assumes "val \<le> SPINEL_MAX_UINT_PACKED" and r: "reader_at r (packed_bytes val @ rest)"
  shows "read_packed_loop 0 0 r = (Inr val, advance (length (packed_bytes val)) r)"
proof -
  have m: "val \<le> 0x1FFFFF" using assms(1) by (simp add: SPINEL_MAX_UINT_PACKED_def)
  consider "val < 0x80" | "\<not> val < 0x80" "val < 0x4000" | "\<not> val < 0x80" "\<not> val < 0x4000" by blast
  then show ?thesis
  proof cases
    case 1
    then show ?thesis using r by (simp add: packed_bytes_def read_packed_at_Cons packed_simps)
  next
    case 2
    then have r: "reader_at r ((0x80 OR ucast (val AND 0x7F)) # ucast (drop_bit 7 val) # rest)"
      using r by (simp add: packed_bytes_def)
    from read_packed_at_Cons[OF reader_at_tl[OF r]] packed_last[OF packed_high(1)[OF 2(2)]] 2
    show ?thesis by (simp add: packed_bytes_def read_packed_at_Cons[OF r] packed_simps)
  next
    case 3
    then have r: "reader_at r ((0x80 OR ucast (val AND 0x7F)) # (0x80 OR ucast (drop_bit 7 val AND 0x7F)) #
        ucast (drop_bit 14 val) # rest)"
      using r by (simp add: packed_bytes_def)
    from read_packed_at_Cons[OF reader_at_tl[OF r]] read_packed_at_Cons[OF reader_at_tl[OF reader_at_tl[OF r]]]
      packed_last[OF packed_high(2)[OF m]] 3
    show ?thesis
      by (simp add: packed_bytes_def read_packed_at_Cons[OF r] packed_simps packed_join(2)[of val, simplified] or.assoc)
  qed
qed


lemma packed_bytes_cases:
  obtains b where "packed_bytes val = [b]"
  | b c where "packed_bytes val = [0x80 OR b, c]"
  | b c d where "packed_bytes val = [0x80 OR b, 0x80 OR c, d]"
proof -
  consider "val < 0x80" | "\<not> val < 0x80" "val < 0x4000" | "\<not> val < 0x80" "\<not> val < 0x4000" by blast
  then show ?thesis
  proof cases
    case 1
    show ?thesis by (rule that(1)) (simp add: packed_bytes_def 1)
  next
    case 2
    show ?thesis by (rule that(2)) (simp add: packed_bytes_def 2)
  next
    case 3
    show ?thesis by (rule that(3)) (simp add: packed_bytes_def 3)
  qed
qed

lemma packed_loop_truncated:
  assumes "strict_prefix p (packed_bytes val)" and "reader_at r p"
  shows "fst (read_packed_loop 0 0 r) = Inl Underflow"
proof -
  have one: "fst (read_packed_loop x s q) = Inl Underflow" if "reader_at q [0x80 OR b]" "s + 7 < 35" for x s q b
    using that reader_at_tl[OF that(1)] by (simp add: read_packed_at_Cons read_packed_at_nil packed_byte_cont)
  consider "p = []" | b where "p = [0x80 OR b]" | b c where "p = [0x80 OR b, 0x80 OR c]"
    using assms(1) by (cases rule: packed_bytes_cases[of val]) (auto simp: strict_prefix_def prefix_Cons)
  then show ?thesis
  proof cases
    case 1
    then show ?thesis using assms(2) by (simp add: read_packed_at_nil)
  next
    case 2
    then show ?thesis using assms(2) one by simp
  next
    case 3
    then have r: "reader_at r [0x80 OR b, 0x80 OR c]" using assms(2) by simp
    show ?thesis
      using one[OF reader_at_tl[OF r]] by (simp add: read_packed_at_Cons[OF r] packed_byte_cont)
  qed
qed

interpretation fc_packed: field_codec "\<lambda>v. v \<le> SPINEL_MAX_UINT_PACKED" packed_bytes read_uint_packed
proof (unfold_locales, goal_cases)
  case (1 v r rest)
  then show ?case using packed_loop_decodes[of v r rest] by (simp add: read_uint_packed_def)
next
  case (2 v p r)
  then show ?case using packed_loop_truncated[of p v r]
    by (cases "read_packed_loop 0 0 r") (auto simp: read_uint_packed_def)
qed

text \<open>The number a LEB128 sequence stands for, without a bound.\<close>

fun leb_value :: "bytes \<Rightarrow> nat" where
  "leb_value [] = 0"
| "leb_value (b # bs) = unat (b AND 0x7F) + 128 * leb_value bs"

lemma leb_or_step:
  "(of_nat (unat (b AND 0x7F) + 128 * v) :: u32) = ucast (b AND 0x7F) OR push_bit 7 (of_nat v)" for b :: u8
proof -
  have "(of_nat (unat (b AND 0x7F) + 128 * v) :: u32) = ucast (b AND 0x7F) + push_bit 7 (of_nat v)"
    by (simp add: push_bit_eq_mult)
  also have "\<dots> = ucast (b AND 0x7F) OR push_bit 7 (of_nat v)"
    by (rule disjunctive_add) (auto simp: bit_simps const_0x7F_bit)
  finally show ?thesis .
qed

lemma packed_loop_value:
  assumes "list_all (\<lambda>b. bit b 7) cs" and "\<not> bit t 7" and "length cs * 7 + shift < 35"
    and "reader_at r (cs @ t # rest)"
  shows "read_packed_loop result shift r =
    (Inr (result OR push_bit shift (of_nat (leb_value (cs @ [t])))), advance (Suc (length cs)) r)"
  using assms
proof (induction cs arbitrary: result shift r)
  case Nil
  then show ?case using leb_or_step[of t 0] by (simp add: read_packed_at_Cons and_0x80_eq_0)
next
  case (Cons c cs)
  have "read_packed_loop result shift r =
      read_packed_loop (result OR push_bit shift (ucast (c AND 0x7F))) (shift + 7) (advance 1 r)"
    using Cons.prems by (simp add: read_packed_at_Cons and_0x80_eq_0)
  also have "\<dots> = (Inr ((result OR push_bit shift (ucast (c AND 0x7F))) OR
      push_bit (shift + 7) (of_nat (leb_value (cs @ [t])))), advance (Suc (length cs)) (advance 1 r))"
    using Cons.prems reader_at_tl[of r c "cs @ t # rest"] by (intro Cons.IH) auto
  also have "(result OR push_bit shift (ucast (c AND 0x7F))) OR push_bit (shift + 7) (of_nat (leb_value (cs @ [t]))) =
      result OR push_bit shift (of_nat (leb_value (c # cs @ [t])))"
    by (simp only: leb_value.simps leb_or_step push_bit_or push_bit_push_bit or.assoc add.commute)
  finally show ?case by (simp add: advance_def)
qed


lemma packed_loop_end:
  assumes "list_all (\<lambda>b. bit b 7) cs" and "length cs * 7 + shift < 35" and "reader_at r cs"
  shows "fst (read_packed_loop result shift r) = Inl Underflow"
  using assms
proof (induction cs arbitrary: result shift r)
  case (Cons c cs)
  then show ?case using reader_at_tl[of r c cs] by (simp add: read_packed_at_Cons and_0x80_eq_0 Cons.IH)
qed (simp add: read_packed_at_nil)

lemma packed_loop_too_long:
  assumes "list_all (\<lambda>b. bit b 7) cs" and "35 \<le> length cs * 7 + shift" and "reader_at r (cs @ rest)"
    and "cs \<noteq> []"
  shows "fst (read_packed_loop result shift r) = Inl InvalidPackedUint"
  using assms
proof (induction cs arbitrary: result shift r)
  case (Cons c cs)
  show ?case
  proof (cases "35 \<le> shift + 7")
    case True
    then show ?thesis using Cons.prems by (simp add: read_packed_at_Cons and_0x80_eq_0)
  next
    case False
    then have "cs \<noteq> []" using Cons.prems(2) by auto
    then show ?thesis
      using Cons.prems False reader_at_tl[of r c "cs @ rest"] by (simp add: read_packed_at_Cons and_0x80_eq_0 Cons.IH)
  qed
qed simp

section \<open>Spinel frames\<close>

definition SPINEL_HEADER_FLAG :: u8 where "SPINEL_HEADER_FLAG = 0x80"
definition SPINEL_HEADER_IID_MASK :: u8 where "SPINEL_HEADER_IID_MASK = 0x30"
definition SPINEL_HEADER_IID_SHIFT :: nat where "SPINEL_HEADER_IID_SHIFT = 4"
definition SPINEL_HEADER_TID_MASK :: u8 where "SPINEL_HEADER_TID_MASK = 0x0F"

record spinel_frame =
  header :: u8
  command_id :: u32
  payload :: bytes

definition frame_new :: "u32 \<Rightarrow> bytes \<Rightarrow> spinel_frame" where
  "frame_new command pay = \<lparr>header = SPINEL_HEADER_FLAG, command_id = command, payload = pay\<rparr>"

definition frame_with_header :: "u8 \<Rightarrow> u32 \<Rightarrow> bytes \<Rightarrow> spinel_frame" where
  "frame_with_header hdr command pay = \<lparr>header = hdr, command_id = command, payload = pay\<rparr>"

definition frame_encode :: "spinel_frame \<Rightarrow> bytes option" where
  "frame_encode f =
     do { w \<leftarrow> write_uint_packed (command_id f) (write_uint8 (header f) writer_new);
          Some (wbuf (write_bytes (payload f) w)) }"

definition frame_decode :: "bytes \<Rightarrow> SpinelError + spinel_frame" where
  "frame_decode data =
     (if data = [] then Inl InvalidHeader
      else fst (try_bind (read_uint8 (reader_new data)) (\<lambda>hdr r.
        if hdr AND SPINEL_HEADER_FLAG = 0 then (Inl InvalidHeader, r)
        else try_bind (read_uint_packed r) (\<lambda>command r.
          try_bind (if remaining r > 0 then read_bytes (remaining r) r else (Inr [], r)) (\<lambda>pay r.
            (Inr \<lparr>header = hdr, command_id = command, payload = pay\<rparr>, r))))))"

definition frame_iid :: "spinel_frame \<Rightarrow> u8" where
  "frame_iid f = drop_bit SPINEL_HEADER_IID_SHIFT (header f AND SPINEL_HEADER_IID_MASK)"

definition frame_tid :: "spinel_frame \<Rightarrow> u8" where
  "frame_tid f = header f AND SPINEL_HEADER_TID_MASK"

definition frame_has_flag :: "spinel_frame \<Rightarrow> bool" where
  "frame_has_flag f \<longleftrightarrow> header f AND SPINEL_HEADER_FLAG \<noteq> 0"

text \<open>Without \<^verbatim>\<open>debug_assert\<close>, as in a release build.\<close>

definition make_header :: "u8 \<Rightarrow> u8 \<Rightarrow> u8" where
  "make_header iid tid =
     SPINEL_HEADER_FLAG OR (push_bit SPINEL_HEADER_IID_SHIFT iid AND SPINEL_HEADER_IID_MASK)
       OR (tid AND SPINEL_HEADER_TID_MASK)"

definition CMD_PROP_VALUE_GET :: u32 where "CMD_PROP_VALUE_GET = 2"
definition CMD_PROP_VALUE_SET :: u32 where "CMD_PROP_VALUE_SET = 3"
definition CMD_PROP_VALUE_IS :: u32 where "CMD_PROP_VALUE_IS = 6"

definition prop_value_get :: "u32 \<Rightarrow> spinel_frame option" where
  "prop_value_get prop =
     do { w \<leftarrow> write_uint_packed prop writer_new; Some (frame_new CMD_PROP_VALUE_GET (wbuf w)) }"

definition prop_value_set :: "u32 \<Rightarrow> bytes \<Rightarrow> spinel_frame option" where
  "prop_value_set prop pay =
     do { w \<leftarrow> write_uint_packed prop writer_new;
          Some (frame_new CMD_PROP_VALUE_SET (wbuf (write_bytes pay w))) }"

definition prop_value_is :: "u32 \<Rightarrow> bytes \<Rightarrow> spinel_frame option" where
  "prop_value_is prop pay =
     do { w \<leftarrow> write_uint_packed prop writer_new;
          Some (frame_new CMD_PROP_VALUE_IS (wbuf (write_bytes pay w))) }"

lemma frame_encode_bytes:
  "command_id f \<le> SPINEL_MAX_UINT_PACKED \<Longrightarrow>
   frame_encode f = Some (header f # packed_bytes (command_id f) @ payload f)"
  by (simp add: frame_encode_def write_uint_packed_bytes write_defs writer_new_def)

lemma u8_bits_below:
  fixes val :: u8
  assumes "uint val < 2 ^ n" and "bit val k"
  shows "k < n"
proof -
  have "take_bit n (uint val) = uint val" using assms(1) by (simp add: take_bit_int_eq_self)
  moreover have "bit (uint val) k" using assms(2) bit_imp_le_length[OF assms(2)] by (simp add: bit_uint_iff)
  ultimately show ?thesis by (metis bit_take_bit_iff)
qed

lemma const_0x30_bit: "bit (0x30 :: int) k \<longleftrightarrow> k = 4 \<or> k = 5"
proof -
  have "(0x30 :: int) = push_bit 4 (mask 2)" by (simp add: mask_eq_exp_minus_1)
  then show ?thesis by (simp only: bit_push_bit_iff bit_mask_iff) (auto simp: possible_bit_def)
qed

lemma const_0x0F_bit: "bit (0x0F :: int) k \<longleftrightarrow> k < 4"
proof -
  have "(0x0F :: int) = mask 4" by (simp add: mask_eq_exp_minus_1)
  then show ?thesis by (simp only: bit_mask_iff) (auto simp: possible_bit_def)
qed

lemma const_3_bit: "bit (3 :: int) k \<longleftrightarrow> k < 2"
proof -
  have "(3 :: int) = mask 2" by (simp add: mask_eq_exp_minus_1)
  then show ?thesis by (simp only: bit_mask_iff) (auto simp: possible_bit_def)
qed

lemma const_8_bit: "bit (8 :: int) k \<longleftrightarrow> k = 3"
proof -
  have "(8 :: int) = 2 ^ 3" by simp
  then show ?thesis by (simp only: bit_exp_iff) (simp add: possible_bit_def)
qed

lemmas header_bits = const_3_bit const_8_bit const_0x80_bit const_0x30_bit const_0x0F_bit SPINEL_HEADER_FLAG_def
  SPINEL_HEADER_IID_MASK_def SPINEL_HEADER_IID_SHIFT_def SPINEL_HEADER_TID_MASK_def

lemma make_header_fields:
  assumes "iid < 4" and "tid < 16" and "header f = make_header iid tid"
  shows "frame_iid f = iid" and "frame_tid f = tid" and "frame_has_flag f"
proof -
  have i: "bit iid k \<Longrightarrow> k < 2" and t: "bit tid k \<Longrightarrow> k < 4" for k
    using u8_bits_below[of iid 2 k] u8_bits_below[of tid 4 k] assms(1,2) by (simp_all add: word_less_def)
  show "frame_iid f = iid"
  proof (rule bit_word_eqI)
    fix n show "bit (frame_iid f) n \<longleftrightarrow> bit iid n"
      by (auto simp: frame_iid_def assms(3) make_header_def bit_simps header_bits dest: i t)
  qed
  show "frame_tid f = tid"
    by (rule bit_word_eqI) (auto simp: frame_tid_def assms(3) make_header_def bit_simps header_bits dest: i t)
  have "bit (header f) 7" by (simp add: assms(3) make_header_def bit_simps header_bits)
  then show "frame_has_flag f" by (simp add: frame_has_flag_def and_0x80_eq_0 SPINEL_HEADER_FLAG_def)
qed

lemma frame_decode_Cons:
  "frame_decode (h # xs) =
     (if h AND SPINEL_HEADER_FLAG = 0 then Inl InvalidHeader
      else case read_uint_packed (advance (Suc 0) (reader_new (h # xs))) of
        (Inl e, _) \<Rightarrow> Inl e
      | (Inr command, r) \<Rightarrow>
          fst (try_bind (if remaining r > 0 then read_bytes (remaining r) r else (Inr [], r))
                 (\<lambda>pay r. (Inr \<lparr>header = h, command_id = command, payload = pay\<rparr>, r))))"
  using read_uint8_at(2)[OF reader_at_new, of h xs]
  by (auto simp: frame_decode_def try_bind_def split: prod.splits sum.splits)

lemma frame_decode_bytes:
  assumes "h AND SPINEL_HEADER_FLAG \<noteq> 0" and "command \<le> SPINEL_MAX_UINT_PACKED"
  shows "frame_decode (h # packed_bytes command @ pay) =
    Inr \<lparr>header = h, command_id = command, payload = pay\<rparr>"
proof -
  let ?r = "advance (Suc 0) (reader_new (h # packed_bytes command @ pay))"
  have r: "reader_at ?r (packed_bytes command @ pay)"
    using reader_at_tl[OF reader_at_new] by simp
  note d = fc_packed.decodes[OF assms(2) r]
  have at: "reader_at (advance (length (packed_bytes command)) ?r) pay" using reader_at_advance[OF r] .
  show ?thesis
    using assms(1) remaining_at[OF at] read_bytes_at[OF at] by (simp add: frame_decode_Cons d)
qed


section \<open>Vendor values\<close>

definition CHANNEL_LIST_LEN :: nat where "CHANNEL_LIST_LEN = 17"

definition cl_set :: "bytes \<Rightarrow> u8 \<Rightarrow> bytes" where
  "cl_set l channel =
     (if unat channel < CHANNEL_LIST_LEN * 8 then
        l[unat channel div 8 := l ! (unat channel div 8) OR push_bit (unat (channel mod 8)) 1]
      else l)"

definition cl_is_set :: "bytes \<Rightarrow> u8 \<Rightarrow> bool" where
  "cl_is_set l channel \<longleftrightarrow>
     (if unat channel \<ge> CHANNEL_LIST_LEN * 8 then False
      else l ! (unat channel div 8) AND push_bit (unat (channel mod 8)) 1 \<noteq> 0)"

definition count_ones :: "u8 \<Rightarrow> nat" where
  "count_ones b = length (filter (bit b) [0..<8])"

definition cl_count :: "bytes \<Rightarrow> nat" where
  "cl_count l = sum_list (map count_ones l)"

definition cl_encode :: "bytes \<Rightarrow> bytes" where
  "cl_encode l = l"

definition cl_decode :: "bytes \<Rightarrow> SpinelError + bytes" where
  "cl_decode data =
     (if length data < CHANNEL_LIST_LEN then Inl Underflow else Inr (take CHANNEL_LIST_LEN data))"

definition spacing_encode :: "u32 \<Rightarrow> bytes" where
  "spacing_encode v = wbuf (write_uint32 v writer_new)"

definition spacing_decode :: "bytes \<Rightarrow> SpinelError + u32" where
  "spacing_decode data = fst (read_uint32 (reader_new data))"

record ch0_center_freq =
  mhz :: u16
  khz :: u16

definition freq_encode :: "ch0_center_freq \<Rightarrow> bytes" where
  "freq_encode f = wbuf (write_uint16 (khz f) (write_uint16 (mhz f) writer_new))"

definition freq_decode :: "bytes \<Rightarrow> SpinelError + ch0_center_freq" where
  "freq_decode data =
     fst (try_bind (read_uint16 (reader_new data)) (\<lambda>m r.
       try_bind (read_uint16 r) (\<lambda>k r. (Inr \<lparr>mhz = m, khz = k\<rparr>, r))))"

lemma channel_bit: "unat (channel mod 8) = unat channel mod 8" for channel :: u8
  by (simp add: unat_mod)

lemma cl_is_set_bit:
  "length l = CHANNEL_LIST_LEN \<Longrightarrow> cl_is_set l c \<longleftrightarrow>
     unat c < CHANNEL_LIST_LEN * 8 \<and> bit (l ! (unat c div 8)) (unat c mod 8)"
  by (auto simp: cl_is_set_def channel_bit bit_iff_and_push_bit_not_eq_0)

lemma cl_set_is_set:
  assumes "length l = CHANNEL_LIST_LEN"
  shows "cl_is_set (cl_set l c) d \<longleftrightarrow> (d = c \<and> unat c < CHANNEL_LIST_LEN * 8) \<or> cl_is_set l d"
proof (cases "unat c < CHANNEL_LIST_LEN * 8")
  case True
  have len: "length (cl_set l c) = CHANNEL_LIST_LEN" using assms by (simp add: cl_set_def)
  have i: "unat c div 8 < length l" using True assms by (simp add: CHANNEL_LIST_LEN_def)
  have eq: "d = c \<longleftrightarrow> unat d div 8 = unat c div 8 \<and> unat d mod 8 = unat c mod 8"
    by (metis div_mult_mod_eq word_unat_eq_iff)
  show ?thesis
    using True i eq assms by (auto simp: cl_is_set_bit[OF len] cl_is_set_bit[OF assms])
      (auto simp: cl_set_def channel_bit nth_list_update bit_simps split: if_splits)
qed (simp add: cl_set_def)


lemma count_ones_card: "count_ones b = card {k. k < 8 \<and> bit b k}"
proof -
  have "{k. k < 8 \<and> bit b k} = set (filter (bit b) [0..<8])" by auto
  then show ?thesis by (simp add: count_ones_def distinct_card[symmetric])
qed

lemma cl_count_card:
  assumes "length l = CHANNEL_LIST_LEN"
  shows "cl_count l = card {c. cl_is_set l c}"
proof -
  let ?S = "SIGMA i:{..<CHANNEL_LIST_LEN}. {k. k < 8 \<and> bit (l ! i) k}"
  let ?f = "\<lambda>c::u8. (unat c div 8, unat c mod 8)"
  have "cl_count l = (\<Sum>i<CHANNEL_LIST_LEN. count_ones (l ! i))"
    using assms by (simp add: cl_count_def sum_list_sum_nth atLeast0LessThan)
  also have "\<dots> = card ?S" by (simp add: count_ones_card)
  also have "?S = ?f ` {c. cl_is_set l c}"
  proof (intro equalityI subsetI)
    fix x
    assume "x \<in> ?S"
    then obtain i k where x: "x = (i, k)" "i < CHANNEL_LIST_LEN" "k < 8" "bit (l ! i) k" by auto
    let ?c = "of_nat (8 * i + k) :: u8"
    have "unat ?c = 8 * i + k"
      using x(2,3) unat_of_nat[of "8 * i + k", where 'a = 8] by (simp del: of_nat_add of_nat_mult add: CHANNEL_LIST_LEN_def)
    then show "x \<in> ?f ` {c. cl_is_set l c}"
      using x by (intro image_eqI[of _ _ ?c]) (auto simp: cl_is_set_bit[OF assms] CHANNEL_LIST_LEN_def)
  qed (auto simp: cl_is_set_bit[OF assms])
  also have "card \<dots> = card {c. cl_is_set l c}"
    by (intro card_image inj_onI) (metis div_mult_mod_eq fst_conv snd_conv word_unat_eq_iff)
  finally show ?thesis .
qed

lemma read_packed_bounded: "read_uint_packed r = (Inr v, r') \<Longrightarrow> v \<le> SPINEL_MAX_UINT_PACKED"
  by (auto simp: read_uint_packed_def try_bind_def split: prod.splits sum.splits if_splits)

lemma frame_decode_valid:
  assumes "frame_decode xs = Inr g"
  shows "frame_has_flag g \<and> command_id g \<le> SPINEL_MAX_UINT_PACKED"
proof (cases xs)
  case Nil
  then show ?thesis using assms by (simp add: frame_decode_def)
next
  case (Cons h ys)
  obtain e r where p: "read_uint_packed (advance (Suc 0) (reader_new (h # ys))) = (e, r)" by fastforce
  then show ?thesis
    using assms Cons read_packed_bounded
    by (auto simp: frame_decode_Cons frame_has_flag_def try_bind_def
        split: if_splits sum.splits prod.splits)
qed

section \<open>Properties\<close>

text \<open>C34: \<^verbatim>\<open>read_uint_packed\<close> on every input, for \<open>cs\<close> the leading bytes with the continuation bit: fewer
  than five of them and then a final byte give the LEB128 number modulo \<open>2\<^sup>3\<^sup>2\<close>, refused only when that
  remainder exceeds the maximum (so \<^verbatim>\<open>80 80 80 80 10\<close>, which stands for \<open>2\<^sup>3\<^sup>2\<close>, is read as 0); fewer
  than five and then the end of the data is an underflow; five are refused.\<close>

theorem packed_read_spec:
  assumes "list_all (\<lambda>b. bit b 7) cs"
  shows "(length cs < 5 \<and> \<not> bit t 7 \<longrightarrow>
      fst (read_uint_packed (reader_new (cs @ t # rest))) =
        (let n = of_nat (leb_value (cs @ [t]))
         in if n > SPINEL_MAX_UINT_PACKED then Inl InvalidPackedUint else Inr n)) \<and>
    (length cs < 5 \<longrightarrow> fst (read_uint_packed (reader_new cs)) = Inl Underflow) \<and>
    (5 \<le> length cs \<longrightarrow> fst (read_uint_packed (reader_new (cs @ rest))) = Inl InvalidPackedUint)"
proof (intro conjI impI)
  assume "length cs < 5 \<and> \<not> bit t 7"
  then show "fst (read_uint_packed (reader_new (cs @ t # rest))) =
      (let n = of_nat (leb_value (cs @ [t]))
       in if n > SPINEL_MAX_UINT_PACKED then Inl InvalidPackedUint else Inr n)"
    using packed_loop_value[OF assms, of t 0 "reader_new (cs @ t # rest)" rest 0]
    by (simp add: read_uint_packed_def Let_def)
next
  assume "length cs < 5"
  then have "fst (read_packed_loop 0 0 (reader_new cs)) = Inl Underflow"
    by (intro packed_loop_end[OF assms]) simp_all
  then show "fst (read_uint_packed (reader_new cs)) = Inl Underflow"
    by (cases "read_packed_loop 0 0 (reader_new cs)") (simp add: read_uint_packed_def)
next
  assume "5 \<le> length cs"
  then have "fst (read_packed_loop 0 0 (reader_new (cs @ rest))) = Inl InvalidPackedUint"
    by (intro packed_loop_too_long[OF assms, of _ _ rest]) auto
  then show "fst (read_uint_packed (reader_new (cs @ rest))) = Inl InvalidPackedUint"
    by (cases "read_packed_loop 0 0 (reader_new (cs @ rest))") (simp add: read_uint_packed_def)
qed

theorem packed_read_spec_witness:
  "fst (read_uint_packed (reader_new [0x80, 0x80, 0x80, 0x80, 0x10])) = Inr 0 \<and>
   leb_value [0x80, 0x80, 0x80, 0x80, 0x10] = 2 ^ 32"
  using packed_read_spec[of "[0x80, 0x80, 0x80, 0x80]" "0x10" "[]"]
  by (simp add: SPINEL_MAX_UINT_PACKED_def bit_simps const_0x80_bit)

text \<open>C8: Spinel frames round trip and are validated. A frame whose command is at most 2097151 and whose
  header is made of an interface id below 4 and a transaction id below 16 encodes, decodes to the
  same frame, and gives back both ids; every frame that decodes has the header flag and a command
  in range; and a frame cut inside its command is refused.\<close>

theorem spinel_frame_roundtrip:
  assumes "header f = make_header iid tid" and "iid < 4" and "tid < 16"
    and "command_id f \<le> SPINEL_MAX_UINT_PACKED"
    and "strict_prefix p (packed_bytes (command_id f))"
  shows "\<exists>bs. frame_encode f = Some bs \<and> frame_decode bs = Inr f \<and>
    frame_iid f = iid \<and> frame_tid f = tid \<and> frame_has_flag f \<and>
    frame_decode (header f # p) = Inl Underflow \<and>
    (\<forall>g. frame_decode xs = Inr g \<longrightarrow> frame_has_flag g \<and> command_id g \<le> SPINEL_MAX_UINT_PACKED)"
proof -
  note hdr = make_header_fields[OF assms(2,3,1)]
  have flag: "header f AND SPINEL_HEADER_FLAG \<noteq> 0" using hdr(3) by (simp add: frame_has_flag_def)
  have "frame_decode (header f # packed_bytes (command_id f) @ payload f) = Inr f"
    using frame_decode_bytes[OF flag assms(4)] by simp
  moreover have "frame_decode (header f # p) = Inl Underflow"
    using fc_packed.truncated[OF assms(4,5) reader_at_tl[OF reader_at_new[of "header f # p"]]] flag
    by (cases "read_uint_packed (advance (Suc 0) (reader_new (header f # p)))") (auto simp: frame_decode_Cons)
  moreover have "frame_has_flag g \<and> command_id g \<le> SPINEL_MAX_UINT_PACKED" if "frame_decode xs = Inr g" for g
    using frame_decode_valid[OF that] .
  ultimately show ?thesis using frame_encode_bytes[OF assms(4)] hdr by blast
qed

theorem spinel_frame_roundtrip_witness:
  "\<exists>bs. frame_encode (frame_with_header (make_header 2 5) 200 [1]) = Some bs \<and>
     frame_decode bs = Inr (frame_with_header (make_header 2 5) 200 [1])"
  using spinel_frame_roundtrip[of "frame_with_header (make_header 2 5) 200 [1]" 2 5 "[]"]
  by (auto simp: frame_with_header_def SPINEL_MAX_UINT_PACKED_def packed_bytes_def strict_prefix_def)



end
