(* ===== verification/Spinel_Format.thy ===== *)
theory Spinel_Format
  imports Spinel_Pack
begin

text \<open>
  The pack format engine of \<^verbatim>\<open>crates/spinel/src/property.rs\<close>: format strings such as \<open>CiD\<close> or
  \<open>t(CS)\<close> are parsed to tokens, and a list of values is encoded or decoded along them. A format
  string is its bytes, as in the code; the parser's nested loop runs on fuel, and the length of the
  string is shown to be enough. A panic is \<open>None\<close>.
\<close>

section \<open>Tokens, values, errors\<close>

datatype PackFormatToken =
  TBool | TUint8 | TInt8 | TUint16 | TInt16 | TUint32 | TInt32 | TUint64 | TInt64 | TUintPacked |
  TIpv6 | TEui64 | TEui48 | TData | TDataWithLen | TUtf8 |
  TStruct "PackFormatToken list" | TArray "PackFormatToken list"

datatype PackFormatError = UnknownToken char | UnbalancedBrackets | FmtUnderflow

datatype PackValue =
  VBool bool | VUint8 u8 | VInt8 u8 | VUint16 u16 | VInt16 u16 | VUint32 u32 | VInt32 u32 |
  VUint64 u64 | VInt64 u64 | VUintPacked u32 | VIpv6 bytes | VEui64 bytes | VEui48 bytes |
  VData bytes | VUtf8 bytes

text \<open>\<^verbatim>\<open>impl From<SpinelError> for PackFormatError\<close>: every error becomes an underflow.\<close>

fun format_error :: "SpinelError \<Rightarrow> PackFormatError" where
  "format_error Underflow = FmtUnderflow"
| "format_error _ = FmtUnderflow"

section \<open>Parsing a format string\<close>

definition simple_token :: "char \<Rightarrow> PackFormatToken option" where
  "simple_token c =
     (if c = CHR ''b'' then Some TBool else if c = CHR ''C'' then Some TUint8
      else if c = CHR ''c'' then Some TInt8 else if c = CHR ''S'' then Some TUint16
      else if c = CHR ''s'' then Some TInt16 else if c = CHR ''L'' then Some TUint32
      else if c = CHR ''l'' then Some TInt32 else if c = CHR ''X'' then Some TUint64
      else if c = CHR ''x'' then Some TInt64 else if c = CHR ''i'' then Some TUintPacked
      else if c = CHR ''6'' then Some TIpv6 else if c = CHR ''E'' then Some TEui64
      else if c = CHR ''e'' then Some TEui48 else if c = CHR ''D'' then Some TData
      else if c = CHR ''d'' then Some TDataWithLen else if c = CHR ''U'' then Some TUtf8
      else None)"

text \<open>\<open>parse_loop\<close> is the loop of \<^verbatim>\<open>parse_tokens\<close> with the tokens so far and \<^verbatim>\<open>*pos\<close>; it returns the
  result and the new position. Out of fuel is \<open>None\<close>.\<close>

fun parse_loop ::
  "nat \<Rightarrow> string \<Rightarrow> PackFormatToken list \<Rightarrow> nat \<Rightarrow> ((PackFormatError + PackFormatToken list) \<times> nat) option"
where
  "parse_loop 0 bs toks pos = None"
| "parse_loop (Suc fuel) bs toks pos =
     (if pos \<ge> length bs then Some (Inr toks, pos)
      else let c = bs ! pos in
        if c = CHR '')'' then Some (Inr toks, pos)
        else if c = CHR ''('' then
          (case parse_loop fuel bs [] (pos + 1) of
             None \<Rightarrow> None
           | Some (Inl e, p) \<Rightarrow> Some (Inl e, p)
           | Some (Inr inner, p) \<Rightarrow>
               if p \<ge> length bs \<or> bs ! p \<noteq> CHR '')'' then Some (Inl UnbalancedBrackets, p)
               else parse_loop fuel bs (toks @ [TStruct inner]) (p + 1 + 1))
        else if c = CHR ''t'' \<or> c = CHR ''A'' then
          (if pos + 1 \<ge> length bs \<or> bs ! (pos + 1) \<noteq> CHR ''('' then
             Some (Inl UnbalancedBrackets, pos + 1)
           else case parse_loop fuel bs [] (pos + 1 + 1) of
             None \<Rightarrow> None
           | Some (Inl e, p) \<Rightarrow> Some (Inl e, p)
           | Some (Inr inner, p) \<Rightarrow>
               if p \<ge> length bs \<or> bs ! p \<noteq> CHR '')'' then Some (Inl UnbalancedBrackets, p)
               else parse_loop fuel bs
                      (toks @ [if c = CHR ''t'' then TStruct inner else TArray inner]) (p + 1 + 1))
        else case simple_token c of
          Some t \<Rightarrow> parse_loop fuel bs (toks @ [t]) (pos + 1)
        | None \<Rightarrow> Some (Inl (UnknownToken c), pos))"

definition format_parse :: "string \<Rightarrow> (PackFormatError + PackFormatToken list) option" where
  "format_parse fmt = map_option fst (parse_loop (Suc (length fmt)) fmt [] 0)"

section \<open>Encoding and decoding\<close>

definition ok_write :: "pack_writer \<Rightarrow> (PackFormatError + pack_writer) option" where
  "ok_write w = Some (Inr w)"

primrec encode_token :: "PackFormatToken \<Rightarrow> PackValue \<Rightarrow> pack_writer \<Rightarrow> (PackFormatError + pack_writer) option" where
  "encode_token TBool val w =
     (case val of VBool v \<Rightarrow> ok_write (write_bool v w) | _ \<Rightarrow> Some (Inl (UnknownToken CHR ''b'')))"
| "encode_token TUint8 val w =
     (case val of VUint8 v \<Rightarrow> ok_write (write_uint8 v w) | _ \<Rightarrow> Some (Inl (UnknownToken CHR ''C'')))"
| "encode_token TInt8 val w =
     (case val of VInt8 v \<Rightarrow> ok_write (write_int8 v w) | _ \<Rightarrow> Some (Inl (UnknownToken CHR ''c'')))"
| "encode_token TUint16 val w =
     (case val of VUint16 v \<Rightarrow> ok_write (write_uint16 v w) | _ \<Rightarrow> Some (Inl (UnknownToken CHR ''S'')))"
| "encode_token TInt16 val w =
     (case val of VInt16 v \<Rightarrow> ok_write (write_int16 v w) | _ \<Rightarrow> Some (Inl (UnknownToken CHR ''s'')))"
| "encode_token TUint32 val w =
     (case val of VUint32 v \<Rightarrow> ok_write (write_uint32 v w) | _ \<Rightarrow> Some (Inl (UnknownToken CHR ''L'')))"
| "encode_token TInt32 val w =
     (case val of VInt32 v \<Rightarrow> ok_write (write_int32 v w) | _ \<Rightarrow> Some (Inl (UnknownToken CHR ''l'')))"
| "encode_token TUint64 val w =
     (case val of VUint64 v \<Rightarrow> ok_write (write_uint64 v w) | _ \<Rightarrow> Some (Inl (UnknownToken CHR ''X'')))"
| "encode_token TInt64 val w =
     (case val of VInt64 v \<Rightarrow> ok_write (write_int64 v w) | _ \<Rightarrow> Some (Inl (UnknownToken CHR ''x'')))"
| "encode_token TUintPacked val w =
     (case val of VUintPacked v \<Rightarrow> map_option Inr (write_uint_packed v w) | _ \<Rightarrow> Some (Inl (UnknownToken CHR ''i'')))"
| "encode_token TIpv6 val w =
     (case val of VIpv6 v \<Rightarrow> ok_write (write_ipv6 v w) | _ \<Rightarrow> Some (Inl (UnknownToken CHR ''6'')))"
| "encode_token TEui64 val w =
     (case val of VEui64 v \<Rightarrow> ok_write (write_eui64 v w) | _ \<Rightarrow> Some (Inl (UnknownToken CHR ''E'')))"
| "encode_token TEui48 val w =
     (case val of VEui48 v \<Rightarrow> ok_write (write_eui48 v w) | _ \<Rightarrow> Some (Inl (UnknownToken CHR ''e'')))"
| "encode_token TData val w =
     (case val of VData v \<Rightarrow> ok_write (write_bytes v w) | _ \<Rightarrow> Some (Inl (UnknownToken CHR ''D'')))"
| "encode_token TDataWithLen val w =
     (case val of VData v \<Rightarrow> ok_write (write_data_with_len v w) | _ \<Rightarrow> Some (Inl (UnknownToken CHR ''d'')))"
| "encode_token TUtf8 val w =
     (case val of VUtf8 v \<Rightarrow> ok_write (write_utf8 v w) | _ \<Rightarrow> Some (Inl (UnknownToken CHR ''U'')))"
| "encode_token (TStruct inner) val w =
     (case val of VData v \<Rightarrow> ok_write (write_data_with_len v w) | _ \<Rightarrow> Some (Inl (UnknownToken CHR ''t'')))"
| "encode_token (TArray inner) val w =
     (case val of VData v \<Rightarrow> ok_write (write_bytes v w) | _ \<Rightarrow> Some (Inl (UnknownToken CHR ''A'')))"

definition wrap :: "('a \<Rightarrow> PackValue) \<Rightarrow> (SpinelError + 'a) \<times> pack_reader \<Rightarrow> (PackFormatError + PackValue) \<times> pack_reader" where
  "wrap con m = (case m of (Inl e, r) \<Rightarrow> (Inl (format_error e), r) | (Inr v, r) \<Rightarrow> (Inr (con v), r))"

primrec decode_token :: "PackFormatToken \<Rightarrow> pack_reader \<Rightarrow> (PackFormatError + PackValue) \<times> pack_reader" where
  "decode_token TBool r = wrap VBool (read_bool r)"
| "decode_token TUint8 r = wrap VUint8 (read_uint8 r)"
| "decode_token TInt8 r = wrap VInt8 (read_int8 r)"
| "decode_token TUint16 r = wrap VUint16 (read_uint16 r)"
| "decode_token TInt16 r = wrap VInt16 (read_int16 r)"
| "decode_token TUint32 r = wrap VUint32 (read_uint32 r)"
| "decode_token TInt32 r = wrap VInt32 (read_int32 r)"
| "decode_token TUint64 r = wrap VUint64 (read_uint64 r)"
| "decode_token TInt64 r = wrap VInt64 (read_int64 r)"
| "decode_token TUintPacked r = wrap VUintPacked (read_uint_packed r)"
| "decode_token TIpv6 r = wrap VIpv6 (read_ipv6 r)"
| "decode_token TEui64 r = wrap VEui64 (read_eui64 r)"
| "decode_token TEui48 r = wrap VEui48 (read_eui48 r)"
| "decode_token TData r = wrap VData (read_bytes (remaining r) r)"
| "decode_token TDataWithLen r = wrap VData (read_data_with_len r)"
| "decode_token TUtf8 r = wrap VUtf8 (read_utf8 r)"
| "decode_token (TStruct inner) r = wrap VData (read_struct r)"
| "decode_token (TArray inner) r = wrap VData (read_bytes (remaining r) r)"

fun encode_tokens ::
  "(PackFormatToken \<times> PackValue) list \<Rightarrow> pack_writer \<Rightarrow> (PackFormatError + pack_writer) option"
where
  "encode_tokens [] w = Some (Inr w)"
| "encode_tokens ((tok, val) # rest) w =
     do { res \<leftarrow> encode_token tok val w;
          case res of Inl e \<Rightarrow> Some (Inl e) | Inr w1 \<Rightarrow> encode_tokens rest w1 }"

definition format_encode :: "PackFormatToken list \<Rightarrow> PackValue list \<Rightarrow> (PackFormatError + bytes) option" where
  "format_encode toks values =
     (if length values \<noteq> length toks then Some (Inl (UnknownToken CHR ''?''))
      else map_option (map_sum id wbuf) (encode_tokens (zip toks values) writer_new))"

fun decode_tokens :: "PackFormatToken list \<Rightarrow> pack_reader \<Rightarrow> PackFormatError + PackValue list" where
  "decode_tokens [] r = Inr []"
| "decode_tokens (tok # toks) r =
     (case decode_token tok r of
        (Inl e, _) \<Rightarrow> Inl e
      | (Inr v, r1) \<Rightarrow> map_sum id (Cons v) (decode_tokens toks r1))"

definition format_decode :: "PackFormatToken list \<Rightarrow> bytes \<Rightarrow> PackFormatError + PackValue list" where
  "format_decode toks data = decode_tokens toks (reader_new data)"


section \<open>The values a token carries\<close>

primrec greedy :: "PackFormatToken \<Rightarrow> bool" where
  "greedy TBool = False" | "greedy TUint8 = False" | "greedy TInt8 = False"
| "greedy TUint16 = False" | "greedy TInt16 = False" | "greedy TUint32 = False"
| "greedy TInt32 = False" | "greedy TUint64 = False" | "greedy TInt64 = False"
| "greedy TUintPacked = False" | "greedy TIpv6 = False" | "greedy TEui64 = False"
| "greedy TEui48 = False" | "greedy TData = True" | "greedy TDataWithLen = False"
| "greedy TUtf8 = False" | "greedy (TStruct inner) = False" | "greedy (TArray inner) = True"

inductive fits :: "PackFormatToken \<Rightarrow> PackValue \<Rightarrow> bytes \<Rightarrow> bool" where
  "fits TBool (VBool b) [if b then 1 else 0]"
| "fits TUint8 (VUint8 v) [v]"
| "fits TInt8 (VInt8 v) [v]"
| "fits TUint16 (VUint16 v16) (to_le_bytes 2 v16)"
| "fits TInt16 (VInt16 v16) (to_le_bytes 2 v16)"
| "fits TUint32 (VUint32 v32) (to_le_bytes 4 v32)"
| "fits TInt32 (VInt32 v32) (to_le_bytes 4 v32)"
| "fits TUint64 (VUint64 v64) (to_le_bytes 8 v64)"
| "fits TInt64 (VInt64 v64) (to_le_bytes 8 v64)"
| "v32 \<le> SPINEL_MAX_UINT_PACKED \<Longrightarrow> fits TUintPacked (VUintPacked v32) (packed_bytes v32)"
| "length bs = 16 \<Longrightarrow> fits TIpv6 (VIpv6 bs) bs"
| "length bs = 8 \<Longrightarrow> fits TEui64 (VEui64 bs) bs"
| "length bs = 6 \<Longrightarrow> fits TEui48 (VEui48 bs) bs"
| "fits TData (VData bs) bs"
| "length bs < 2 ^ 16 \<Longrightarrow> fits TDataWithLen (VData bs) (to_le_bytes 2 (of_nat (length bs) :: u16) @ bs)"
| "utf8_valid bs \<Longrightarrow> 0 \<notin> set bs \<Longrightarrow> fits TUtf8 (VUtf8 bs) (bs @ [0])"
| "length bs < 2 ^ 16 \<Longrightarrow> fits (TStruct inner) (VData bs) (to_le_bytes 2 (of_nat (length bs) :: u16) @ bs)"
| "fits (TArray inner) (VData bs) bs"

lemma encode_token_fits: "fits tok val bs \<Longrightarrow> encode_token tok val w = Some (Inr (write_bytes bs w))"
  by (induction rule: fits.induct) (simp_all add: ok_write_def write_defs write_uint_packed_bytes)

lemmas read_defs = read_int8_def read_int16_def read_int32_def read_int64_def read_ipv6_def read_eui64_def
  read_eui48_def read_struct_def

lemma wrap_Inr [simp]: "wrap con (Inr v, r) = (Inr (con v), r)"
  by (simp add: wrap_def)

lemma wrap_Inl: "fst m = Inl Underflow \<Longrightarrow> fst (wrap con m) = Inl FmtUnderflow"
  by (auto simp: wrap_def split: prod.splits)

lemma read_remaining: "reader_at r bs \<Longrightarrow> read_bytes (remaining r) r = (Inr bs, advance (length bs) r)"
  by (simp add: read_bytes_at remaining_at)

lemma decode_token_fits:
  assumes "fits tok val bs" and "reader_at r (bs @ rest)" and "greedy tok \<longrightarrow> rest = []"
  shows "decode_token tok r = (Inr val, advance (length bs) r)"
  using assms
proof (induction arbitrary: r rule: fits.induct)
  case (15 bs)
  then show ?case using fc_dwl.decodes[of bs r rest] by simp
next
  case (16 bs)
  then show ?case using fc_utf8.decodes[of bs r rest] by simp
next
  case (17 bs)
  then show ?case using fc_dwl.decodes[of bs r rest] by (simp add: read_defs)
qed (simp_all add: read_defs fc_bool.decodes[simplified] fc_u8.decodes[simplified] fc_u16.decodes fc_u32.decodes
    fc_u64.decodes fc_packed.decodes fc_raw.decodes read_remaining)

lemma decode_token_truncated:
  assumes "fits tok val bs" and "strict_prefix p bs" and "reader_at r p" and "\<not> greedy tok"
  shows "fst (decode_token tok r) = Inl FmtUnderflow"
  using assms
proof (induction rule: fits.induct)
  case (15 bs)
  then show ?case using fc_dwl.truncated[of bs p r] by (simp add: wrap_Inl)
next
  case (16 bs)
  then show ?case using fc_utf8.truncated[of bs p r] by (simp add: wrap_Inl)
next
  case (17 bs)
  then show ?case using fc_dwl.truncated[of bs p r] by (simp add: read_defs wrap_Inl)
qed (auto simp: read_defs intro!: wrap_Inl fc_bool.truncated fc_u8.truncated fc_u16.truncated fc_u32.truncated
    fc_u64.truncated fc_packed.truncated fc_raw.truncated)

section \<open>Whole formats\<close>

inductive fits_all :: "PackFormatToken list \<Rightarrow> PackValue list \<Rightarrow> bytes \<Rightarrow> bool" where
  "fits_all [] [] []"
| "fits tok val bs \<Longrightarrow> greedy tok \<longrightarrow> toks = [] \<Longrightarrow> fits_all toks vals cs \<Longrightarrow> fits_all (tok # toks) (val # vals) (bs @ cs)"

lemma fits_all_length: "fits_all toks vals bs \<Longrightarrow> length vals = length toks"
  by (induction rule: fits_all.induct) simp_all

lemma fits_all_nil: "fits_all [] vals bs \<Longrightarrow> bs = []"
  by (auto elim: fits_all.cases)

lemma encode_tokens_fits:
  "fits_all toks vals bs \<Longrightarrow> encode_tokens (zip toks vals) w = Some (Inr (write_bytes bs w))"
  by (induction arbitrary: w rule: fits_all.induct) (simp_all add: encode_token_fits, simp_all add: write_bytes_def)

lemma decode_tokens_fits:
  "fits_all toks vals bs \<Longrightarrow> reader_at r bs \<Longrightarrow> decode_tokens toks r = Inr vals"
proof (induction arbitrary: r rule: fits_all.induct)
  case (2 tok val bs toks vals cs)
  have "greedy tok \<longrightarrow> cs = []" using 2(2,3) fits_all_nil by blast
  with 2 show ?case using decode_token_fits[OF 2(1), of r cs] reader_at_advance[of r bs cs] by simp
qed simp

lemma decode_tokens_truncated:
  assumes "fits_all toks vals bs" and "\<forall>tok\<in>set toks. \<not> greedy tok" and "strict_prefix p bs" and "reader_at r p"
  shows "decode_tokens toks r = Inl FmtUnderflow"
  using assms
proof (induction arbitrary: r p rule: fits_all.induct)
  case (2 tok val bs toks vals cs)
  consider "strict_prefix p bs" | q where "p = bs @ q" "strict_prefix q cs"
    using 2(6) by (cases "p = bs") (auto simp: strict_prefix_def prefix_append)
  then show ?case
  proof cases
    case 1
    then show ?thesis using decode_token_truncated[OF 2(1) 1 2(7)] 2(5)
      by (cases "decode_token tok r") auto
  next
    case (2 q)
    then show ?thesis
      using decode_token_fits[OF \<open>fits tok val bs\<close>, of r q] reader_at_advance[of r bs q] 2
        \<open>reader_at r p\<close> \<open>\<forall>tok\<in>set (tok # toks). \<not> greedy tok\<close>
        "2.IH"[of q "advance (length bs) r"] by simp
  qed
qed simp


section \<open>The parser\<close>

lemma parse_loop_total:
  "length bs - pos < fuel \<Longrightarrow> \<exists>res p. parse_loop fuel bs toks pos = Some (res, p) \<and> pos \<le> p"
proof (induction fuel arbitrary: toks pos)
  case (Suc fuel)
  show ?case
  proof (cases "pos < length bs")
    case True
    have step: "\<exists>res p. parse_loop fuel bs ts q = Some (res, p) \<and> pos \<le> p" if "pos < q" for ts q
    proof -
      have "length bs - q < fuel" using that Suc.prems True by linarith
      from Suc.IH[OF this, of ts] show ?thesis using that by (meson le_trans less_imp_le)
    qed
    have step2: "\<exists>res p'. parse_loop fuel bs ts (p + 1 + 1) = Some (res, p') \<and> pos \<le> p'" if "pos \<le> p" for ts p
      using step[of "p + 1 + 1" ts] that by simp
    have group: "\<exists>res p'. (case parse_loop fuel bs [] q of None \<Rightarrow> None
           | Some (Inl e, p) \<Rightarrow> Some (Inl e, p)
           | Some (Inr inner, p) \<Rightarrow>
               if p \<ge> length bs \<or> bs ! p \<noteq> CHR '')'' then Some (Inl UnbalancedBrackets, p)
               else parse_loop fuel bs (f inner) (p + 1 + 1)) = Some (res, p') \<and> pos \<le> p'"
      if q: "pos < q" for q f
    proof -
      obtain res p where "parse_loop fuel bs [] q = Some (res, p)" "pos \<le> p" using step[OF q] by blast
      then show ?thesis using step2[of p] by (cases res) auto
    qed
    have one: "pos < pos + 1" "pos < pos + 1 + 1" by simp_all
    show ?thesis
      using True step[OF one(1)] group[OF one(1)] group[OF one(2)]
      by (simp add: Let_def split: option.split del: One_nat_def)
  qed simp
qed simp

definition simple_char :: "char \<Rightarrow> bool" where
  "simple_char c \<longleftrightarrow> simple_token c \<noteq> None"

definition tokens_of :: "string \<Rightarrow> PackFormatToken list" where
  "tokens_of s = map (\<lambda>c. the (simple_token c)) s"

lemma simple_char_not:
  "simple_char c \<Longrightarrow> c \<noteq> CHR '')'' \<and> c \<noteq> CHR ''('' \<and> c \<noteq> CHR ''t'' \<and> c \<noteq> CHR ''A''"
  by (auto simp: simple_char_def simple_token_def)

lemma parse_simple:
  "list_all simple_char cs \<Longrightarrow>
   parse_loop (length cs + fuel) (pre @ cs @ rest) toks (length pre) =
   parse_loop fuel (pre @ cs @ rest) (toks @ tokens_of cs) (length pre + length cs)"
proof (induction cs arbitrary: pre toks)
  case (Cons c cs)
  obtain t where t: "simple_token c = Some t" using Cons.prems by (auto simp: simple_char_def)
  have "parse_loop (length (c # cs) + fuel) (pre @ (c # cs) @ rest) toks (length pre) =
      parse_loop (length cs + fuel) (pre @ (c # cs) @ rest) (toks @ [t]) (length pre + 1)"
    using Cons.prems simple_char_not[of c] t by (simp add: nth_append Let_def)
  also have "\<dots> = parse_loop (length cs + fuel) ((pre @ [c]) @ cs @ rest) (toks @ [t]) (length (pre @ [c]))"
    by simp
  also have "\<dots> = parse_loop fuel ((pre @ [c]) @ cs @ rest) ((toks @ [t]) @ tokens_of cs) (length (pre @ [c]) + length cs)"
    using Cons.prems by (intro Cons.IH) simp
  finally show ?case by (simp add: tokens_of_def t)
qed (simp add: tokens_of_def)

lemma parse_end: "length bs \<le> pos \<Longrightarrow> parse_loop (Suc fuel) bs toks pos = Some (Inr toks, pos)"
  by simp

lemma parse_group:
  assumes "list_all simple_char s" and "length pre = n"
  shows "parse_loop (Suc (length s + Suc fuel)) (pre @ CHR ''t'' # CHR ''('' # s @ CHR '')'' # rest) toks n =
    parse_loop (length s + Suc fuel) (pre @ CHR ''t'' # CHR ''('' # s @ CHR '')'' # rest)
      (toks @ [TStruct (tokens_of s)]) (n + length s + 4)"
proof -
  let ?bs = "pre @ CHR ''t'' # CHR ''('' # s @ CHR '')'' # rest"
  have "parse_loop (length s + Suc fuel) ?bs [] (length (pre @ ''t('')) =
      parse_loop (Suc fuel) ?bs (tokens_of s) (length (pre @ ''t('') + length s)"
    using parse_simple[OF assms(1), of "Suc fuel" "pre @ ''t(''" "CHR '')'' # rest" "[]"] by simp
  also have "\<dots> = Some (Inr (tokens_of s), n + length s + 2)"
    using assms(2) by (simp add: nth_append Let_def)
  finally have inner: "parse_loop (length s + Suc fuel) ?bs [] (n + 2) = Some (Inr (tokens_of s), n + length s + 2)"
    using assms(2) by simp
  have at: "?bs ! n = CHR ''t''" "?bs ! (n + 1) = CHR ''(''" "?bs ! (n + length s + 2) = CHR '')''"
      "n < length ?bs" "n + 1 < length ?bs" "n + length s + 2 < length ?bs"
    using assms(2) by (auto simp: nth_append)
  show ?thesis
    using at inner by (simp add: Let_def del: parse_loop.simps(1) add: parse_loop.simps(2)[of "length s + Suc fuel"] numeral_eq_Suc)
qed

section \<open>Properties\<close>

text \<open>C9: A flat format string is parsed, encoded and decoded consistently: every format of single
  letter tokens parses to the tokens it names; values that fit them (with \<open>D\<close> only at the end)
  encode to the concatenation of their encodings, which decodes to the same values; and, without
  \<open>D\<close>, every strict prefix of it is reported as an underflow.\<close>

theorem pack_format_roundtrip:
  assumes "list_all simple_char fmt" and "fits_all (tokens_of fmt) vals bs"
  shows "format_parse fmt = Some (Inr (tokens_of fmt)) \<and>
    format_encode (tokens_of fmt) vals = Some (Inr bs) \<and>
    format_decode (tokens_of fmt) bs = Inr vals \<and>
    (CHR ''D'' \<notin> set fmt \<and> strict_prefix p bs \<longrightarrow> format_decode (tokens_of fmt) p = Inl FmtUnderflow)"
proof -
  have "parse_loop (length fmt + Suc 0) fmt [] 0 = Some (Inr (tokens_of fmt), length fmt)"
    using parse_simple[OF assms(1), of "Suc 0" "[]" "[]" "[]"] by simp
  then have "format_parse fmt = Some (Inr (tokens_of fmt))" by (simp add: format_parse_def)
  moreover have "\<not> greedy (the (simple_token c))" if "c \<in> set fmt" "CHR ''D'' \<notin> set fmt" for c
  proof -
    have "simple_char c" "c \<noteq> CHR ''D''" using that assms(1) by (auto simp: list_all_iff)
    then show ?thesis by (auto simp: simple_char_def simple_token_def split: if_splits)
  qed
  then have "\<forall>tok\<in>set (tokens_of fmt). \<not> greedy tok" if "CHR ''D'' \<notin> set fmt"
    using that by (auto simp: tokens_of_def)
  ultimately show ?thesis
    using encode_tokens_fits[OF assms(2)] decode_tokens_fits[OF assms(2) reader_at_new] fits_all_length[OF assms(2)]
      decode_tokens_truncated[OF assms(2) _ _ reader_at_new]
    by (simp add: format_encode_def format_decode_def write_bytes_def writer_new_def)
qed

theorem pack_format_roundtrip_witness:
  "format_parse ''Ci'' = Some (Inr [TUint8, TUintPacked]) \<and>
   format_decode [TUint8, TUintPacked] [0x81, 0xC8, 0x01] = Inr [VUint8 0x81, VUintPacked 200] \<and>
   format_decode [TUint8, TUintPacked] [0x81, 0xC8] = Inl FmtUnderflow"
proof -
  have "fits_all [TUint8, TUintPacked] [VUint8 0x81, VUintPacked 200] ([0x81] @ packed_bytes 200 @ [])"
    by (intro fits_all.intros fits.intros) (simp_all add: SPINEL_MAX_UINT_PACKED_def)
  then have "fits_all (tokens_of ''Ci'') [VUint8 0x81, VUintPacked 200] [0x81, 0xC8, 0x01]"
    by (simp add: packed_bytes_def tokens_of_def simple_token_def)
  then show ?thesis
    using pack_format_roundtrip[of "''Ci''" "[VUint8 0x81, VUintPacked 200]" "[0x81, 0xC8, 0x01]" "[0x81, 0xC8]"]
    by (simp add: simple_char_def simple_token_def tokens_of_def strict_prefix_def)
qed

text \<open>C35: The character after a struct is lost. The parser always ends, but it steps past a closing
  bracket twice: whatever character follows \<open>t(..)\<close>, a token or not, is skipped, so the format
  \<open>t(C)S\<close> has one token. A struct at the end of the string is parsed as written.\<close>

theorem format_parse_skips:
  assumes "list_all simple_char s1" and "list_all simple_char s2" and "list_all simple_char s3"
  shows "(\<exists>res. format_parse fmt = Some res) \<and>
    format_parse (s1 @ ''t('' @ s2 @ '')'') = Some (Inr (tokens_of s1 @ [TStruct (tokens_of s2)])) \<and>
    format_parse (s1 @ ''t('' @ s2 @ '')'' @ c # s3) =
      Some (Inr (tokens_of s1 @ [TStruct (tokens_of s2)] @ tokens_of s3))"
proof -
  have run: "parse_loop (Suc (length (s1 @ ''t('' @ s2 @ '')'' @ rest))) (s1 @ ''t('' @ s2 @ '')'' @ rest) [] 0 =
      parse_loop (length s2 + Suc (length rest + 2)) (s1 @ ''t('' @ s2 @ '')'' @ rest)
        (tokens_of s1 @ [TStruct (tokens_of s2)]) (length s1 + length s2 + 4)" for rest
    using parse_simple[OF assms(1), of "length s2 + length rest + 4" "[]" "''t('' @ s2 @ '')'' @ rest" "[]"]
      parse_group[OF assms(2) refl, of "length rest + 2" s1 rest "tokens_of s1"]
    by (simp add: numeral_eq_Suc add.commute add.left_commute del: parse_loop.simps)
  have "parse_loop (length s3 + (Suc (length s2 + 3))) ((s1 @ ''t('' @ s2 @ '')'' @ [c]) @ s3 @ [])
      (tokens_of s1 @ [TStruct (tokens_of s2)]) (length (s1 @ ''t('' @ s2 @ '')'' @ [c])) =
      Some (Inr ((tokens_of s1 @ [TStruct (tokens_of s2)]) @ tokens_of s3), length (s1 @ ''t('' @ s2 @ '')'' @ [c]) + length s3)"
    by (subst parse_simple[OF assms(3)], subst parse_end) simp_all
  then have "map_option fst (parse_loop (length s2 + Suc (length (c # s3) + 2)) (s1 @ ''t('' @ s2 @ '')'' @ c # s3)
      (tokens_of s1 @ [TStruct (tokens_of s2)]) (length s1 + length s2 + 4)) =
      Some (Inr (tokens_of s1 @ [TStruct (tokens_of s2)] @ tokens_of s3))"
    by (simp add: numeral_eq_Suc add.commute add.left_commute del: parse_loop.simps)
  moreover have "format_parse (s1 @ ''t('' @ s2 @ '')'') = Some (Inr (tokens_of s1 @ [TStruct (tokens_of s2)]))"
    using run[of "[]"] by (simp add: format_parse_def)
  moreover have "\<exists>res. format_parse fmt = Some res"
    using parse_loop_total[of fmt 0 "Suc (length fmt)" "[]"] by (auto simp: format_parse_def)
  ultimately show ?thesis using run[of "c # s3"] by (simp add: format_parse_def del: parse_loop.simps)
qed

theorem format_parse_skips_witness:
  "format_parse ''t(C)S'' = Some (Inr [TStruct [TUint8]])"
  using format_parse_skips[of "[]" "''C''" "[]" "[]" "CHR ''S''"]
  by (simp add: simple_char_def simple_token_def tokens_of_def)

end
