(* ===== verification/Spinel_Hdlc.thy ===== *)
theory Spinel_Hdlc
  imports Npi_Hdlc Spinel_Pack
begin

unbundle bit_operations_syntax

text \<open>
  The framing of the link to the network co-processor in the two daemons: the encoder and the
  receive state machine of the Rust crate (\<^verbatim>\<open>crates/spinel/src/hdlc.rs\<close>), and the two HDLC loops of
  the C++ daemon (\<^verbatim>\<open>SpinelNCPInstance-DataPump.cpp\<close>: the receive loop of \<^verbatim>\<open>ncp_to_driver_pump\<close> and
  the encoder of \<^verbatim>\<open>driver_to_ncp_pump\<close>). Both are shown to produce and accept the frames of
  \<^verbatim>\<open>npi_hdlc.c\<close>, so the three implementations interoperate. Reading from the serial adapter is a
  byte list; its end is a pump that waits.
\<close>

section \<open>The Rust codec\<close>

definition FLAG_BYTE :: u8 where "FLAG_BYTE = 0x7E"
definition ESCAPE_BYTE :: u8 where "ESCAPE_BYTE = 0x7D"
definition XON :: u8 where "XON = 0x11"
definition XOFF :: u8 where "XOFF = 0x13"
definition SPECIAL_BYTE :: u8 where "SPECIAL_BYTE = 0xF8"
definition ESCAPE_XFORM :: u8 where "ESCAPE_XFORM = 0x20"
definition CRC_INIT :: u16 where "CRC_INIT = 0xFFFF"

definition CRC_TABLE :: "u16 list" where
  "CRC_TABLE =
    [0x0000, 0x1189, 0x2312, 0x329b, 0x4624, 0x57ad, 0x6536, 0x74bf,
     0x8c48, 0x9dc1, 0xaf5a, 0xbed3, 0xca6c, 0xdbe5, 0xe97e, 0xf8f7,
     0x1081, 0x0108, 0x3393, 0x221a, 0x56a5, 0x472c, 0x75b7, 0x643e,
     0x9cc9, 0x8d40, 0xbfdb, 0xae52, 0xdaed, 0xcb64, 0xf9ff, 0xe876,
     0x2102, 0x308b, 0x0210, 0x1399, 0x6726, 0x76af, 0x4434, 0x55bd,
     0xad4a, 0xbcc3, 0x8e58, 0x9fd1, 0xeb6e, 0xfae7, 0xc87c, 0xd9f5,
     0x3183, 0x200a, 0x1291, 0x0318, 0x77a7, 0x662e, 0x54b5, 0x453c,
     0xbdcb, 0xac42, 0x9ed9, 0x8f50, 0xfbef, 0xea66, 0xd8fd, 0xc974,
     0x4204, 0x538d, 0x6116, 0x709f, 0x0420, 0x15a9, 0x2732, 0x36bb,
     0xce4c, 0xdfc5, 0xed5e, 0xfcd7, 0x8868, 0x99e1, 0xab7a, 0xbaf3,
     0x5285, 0x430c, 0x7197, 0x601e, 0x14a1, 0x0528, 0x37b3, 0x263a,
     0xdecd, 0xcf44, 0xfddf, 0xec56, 0x98e9, 0x8960, 0xbbfb, 0xaa72,
     0x6306, 0x728f, 0x4014, 0x519d, 0x2522, 0x34ab, 0x0630, 0x17b9,
     0xef4e, 0xfec7, 0xcc5c, 0xddd5, 0xa96a, 0xb8e3, 0x8a78, 0x9bf1,
     0x7387, 0x620e, 0x5095, 0x411c, 0x35a3, 0x242a, 0x16b1, 0x0738,
     0xffcf, 0xee46, 0xdcdd, 0xcd54, 0xb9eb, 0xa862, 0x9af9, 0x8b70,
     0x8408, 0x9581, 0xa71a, 0xb693, 0xc22c, 0xd3a5, 0xe13e, 0xf0b7,
     0x0840, 0x19c9, 0x2b52, 0x3adb, 0x4e64, 0x5fed, 0x6d76, 0x7cff,
     0x9489, 0x8500, 0xb79b, 0xa612, 0xd2ad, 0xc324, 0xf1bf, 0xe036,
     0x18c1, 0x0948, 0x3bd3, 0x2a5a, 0x5ee5, 0x4f6c, 0x7df7, 0x6c7e,
     0xa50a, 0xb483, 0x8618, 0x9791, 0xe32e, 0xf2a7, 0xc03c, 0xd1b5,
     0x2942, 0x38cb, 0x0a50, 0x1bd9, 0x6f66, 0x7eef, 0x4c74, 0x5dfd,
     0xb58b, 0xa402, 0x9699, 0x8710, 0xf3af, 0xe226, 0xd0bd, 0xc134,
     0x39c3, 0x284a, 0x1ad1, 0x0b58, 0x7fe7, 0x6e6e, 0x5cf5, 0x4d7c,
     0xc60c, 0xd785, 0xe51e, 0xf497, 0x8028, 0x91a1, 0xa33a, 0xb2b3,
     0x4a44, 0x5bcd, 0x6956, 0x78df, 0x0c60, 0x1de9, 0x2f72, 0x3efb,
     0xd68d, 0xc704, 0xf59f, 0xe416, 0x90a9, 0x8120, 0xb3bb, 0xa232,
     0x5ac5, 0x4b4c, 0x79d7, 0x685e, 0x1ce1, 0x0d68, 0x3ff3, 0x2e7a,
     0xe70e, 0xf687, 0xc41c, 0xd595, 0xa12a, 0xb0a3, 0x8238, 0x93b1,
     0x6b46, 0x7acf, 0x4854, 0x59dd, 0x2d62, 0x3ceb, 0x0e70, 0x1ff9,
     0xf78f, 0xe606, 0xd49d, 0xc514, 0xb1ab, 0xa022, 0x92b9, 0x8330,
     0x7bc7, 0x6a4e, 0x58d5, 0x495c, 0x3de3, 0x2c6a, 0x1ef1, 0x0f78]"

definition crc16_update :: "u16 \<Rightarrow> u8 \<Rightarrow> u16" where
  "crc16_update crc byte =
     drop_bit 8 crc XOR CRC_TABLE ! unat ((crc XOR ucast byte) AND 0xFF)"

definition needs_escape :: "u8 \<Rightarrow> bool" where
  "needs_escape byte \<longleftrightarrow>
     byte = FLAG_BYTE \<or> byte = ESCAPE_BYTE \<or> byte = XON \<or> byte = XOFF \<or> byte = SPECIAL_BYTE"

record hdlc_encoder =
  enc_crc :: u16

definition encoder_new :: hdlc_encoder where
  "encoder_new = \<lparr>enc_crc = CRC_INIT\<rparr>"

definition push_escaped :: "bytes \<Rightarrow> u8 \<Rightarrow> bytes" where
  "push_escaped output byte =
     (if needs_escape byte then output @ [ESCAPE_BYTE, byte XOR ESCAPE_XFORM] else output @ [byte])"

definition encode_bytes :: "bytes \<Rightarrow> hdlc_encoder \<Rightarrow> bytes \<times> hdlc_encoder" where
  "encode_bytes data enc =
     (let (output, crc) = foldl (\<lambda>(out, crc) byte. (push_escaped out byte, crc16_update crc byte))
                            ([FLAG_BYTE], enc_crc enc) data;
          output = foldl push_escaped output (to_le_bytes 2 (crc XOR 0xFFFF))
      in (output @ [FLAG_BYTE], enc\<lparr>enc_crc := CRC_INIT\<rparr>))"

definition encode_frame :: "spinel_frame \<Rightarrow> hdlc_encoder \<Rightarrow> (bytes \<times> hdlc_encoder) option" where
  "encode_frame f enc = map_option (\<lambda>bs. encode_bytes bs enc) (frame_encode f)"

datatype hdlc_state = SeekingFlag | Receiving | Escaped

record hdlc_decoder =
  dec_state :: hdlc_state
  dec_buffer :: bytes

definition decoder_new :: hdlc_decoder where
  "decoder_new = \<lparr>dec_state = SeekingFlag, dec_buffer = []\<rparr>"

definition feed_byte :: "hdlc_decoder \<Rightarrow> u8 \<Rightarrow> (SpinelError + bytes) option \<times> hdlc_decoder" where
  "feed_byte d byte =
     (case dec_state d of
        SeekingFlag \<Rightarrow>
          (None, if byte = FLAG_BYTE then d\<lparr>dec_state := Receiving\<rparr> else d)
      | Receiving \<Rightarrow>
          if byte = FLAG_BYTE then
            (if length (dec_buffer d) \<le> 2 then (None, d\<lparr>dec_buffer := []\<rparr>)
             else let n = length (dec_buffer d);
                      frame_data = take (n - 2) (dec_buffer d);
                      received_crc = of_le_bytes [dec_buffer d ! (n - 2), dec_buffer d ! (n - 1)];
                      check_crc = foldl crc16_update CRC_INIT frame_data XOR 0xFFFF;
                      d1 = d\<lparr>dec_buffer := [], dec_state := SeekingFlag\<rparr>
                  in (Some (if received_crc = check_crc then Inr frame_data else Inl CrcMismatch), d1))
          else if byte = ESCAPE_BYTE then (None, d\<lparr>dec_state := Escaped\<rparr>)
          else (None, d\<lparr>dec_buffer := dec_buffer d @ [byte]\<rparr>)
      | Escaped \<Rightarrow>
          if byte = FLAG_BYTE then (None, d\<lparr>dec_state := Receiving, dec_buffer := []\<rparr>)
          else (None, d\<lparr>dec_state := Receiving, dec_buffer := dec_buffer d @ [byte XOR ESCAPE_XFORM]\<rparr>))"

text \<open>A caller that feeds every byte: the results in order and the decoder left.\<close>

fun feed_all :: "hdlc_decoder \<Rightarrow> bytes \<Rightarrow> (SpinelError + bytes) list \<times> hdlc_decoder" where
  "feed_all d [] = ([], d)"
| "feed_all d (b # bs) =
     (let (res, d1) = feed_byte d b; (out, d2) = feed_all d1 bs
      in (case res of None \<Rightarrow> out | Some r \<Rightarrow> r # out, d2))"

section \<open>The pumps of the C++ daemon\<close>

definition SPINEL_FRAME_MAX_SIZE :: nat where "SPINEL_FRAME_MAX_SIZE = 1300"
definition SPINEL_ENCRYPTER_EXTRA_DATA_SIZE :: nat where "SPINEL_ENCRYPTER_EXTRA_DATA_SIZE = 0"
definition SPINEL_FRAME_BUFFER_SIZE :: nat where
  "SPINEL_FRAME_BUFFER_SIZE = SPINEL_FRAME_MAX_SIZE + SPINEL_ENCRYPTER_EXTRA_DATA_SIZE"

definition pump_sFcsTable :: "u16 list" where
  "pump_sFcsTable =
    [0x0000, 0x1189, 0x2312, 0x329b, 0x4624, 0x57ad, 0x6536, 0x74bf,
     0x8c48, 0x9dc1, 0xaf5a, 0xbed3, 0xca6c, 0xdbe5, 0xe97e, 0xf8f7,
     0x1081, 0x0108, 0x3393, 0x221a, 0x56a5, 0x472c, 0x75b7, 0x643e,
     0x9cc9, 0x8d40, 0xbfdb, 0xae52, 0xdaed, 0xcb64, 0xf9ff, 0xe876,
     0x2102, 0x308b, 0x0210, 0x1399, 0x6726, 0x76af, 0x4434, 0x55bd,
     0xad4a, 0xbcc3, 0x8e58, 0x9fd1, 0xeb6e, 0xfae7, 0xc87c, 0xd9f5,
     0x3183, 0x200a, 0x1291, 0x0318, 0x77a7, 0x662e, 0x54b5, 0x453c,
     0xbdcb, 0xac42, 0x9ed9, 0x8f50, 0xfbef, 0xea66, 0xd8fd, 0xc974,
     0x4204, 0x538d, 0x6116, 0x709f, 0x0420, 0x15a9, 0x2732, 0x36bb,
     0xce4c, 0xdfc5, 0xed5e, 0xfcd7, 0x8868, 0x99e1, 0xab7a, 0xbaf3,
     0x5285, 0x430c, 0x7197, 0x601e, 0x14a1, 0x0528, 0x37b3, 0x263a,
     0xdecd, 0xcf44, 0xfddf, 0xec56, 0x98e9, 0x8960, 0xbbfb, 0xaa72,
     0x6306, 0x728f, 0x4014, 0x519d, 0x2522, 0x34ab, 0x0630, 0x17b9,
     0xef4e, 0xfec7, 0xcc5c, 0xddd5, 0xa96a, 0xb8e3, 0x8a78, 0x9bf1,
     0x7387, 0x620e, 0x5095, 0x411c, 0x35a3, 0x242a, 0x16b1, 0x0738,
     0xffcf, 0xee46, 0xdcdd, 0xcd54, 0xb9eb, 0xa862, 0x9af9, 0x8b70,
     0x8408, 0x9581, 0xa71a, 0xb693, 0xc22c, 0xd3a5, 0xe13e, 0xf0b7,
     0x0840, 0x19c9, 0x2b52, 0x3adb, 0x4e64, 0x5fed, 0x6d76, 0x7cff,
     0x9489, 0x8500, 0xb79b, 0xa612, 0xd2ad, 0xc324, 0xf1bf, 0xe036,
     0x18c1, 0x0948, 0x3bd3, 0x2a5a, 0x5ee5, 0x4f6c, 0x7df7, 0x6c7e,
     0xa50a, 0xb483, 0x8618, 0x9791, 0xe32e, 0xf2a7, 0xc03c, 0xd1b5,
     0x2942, 0x38cb, 0x0a50, 0x1bd9, 0x6f66, 0x7eef, 0x4c74, 0x5dfd,
     0xb58b, 0xa402, 0x9699, 0x8710, 0xf3af, 0xe226, 0xd0bd, 0xc134,
     0x39c3, 0x284a, 0x1ad1, 0x0b58, 0x7fe7, 0x6e6e, 0x5cf5, 0x4d7c,
     0xc60c, 0xd785, 0xe51e, 0xf497, 0x8028, 0x91a1, 0xa33a, 0xb2b3,
     0x4a44, 0x5bcd, 0x6956, 0x78df, 0x0c60, 0x1de9, 0x2f72, 0x3efb,
     0xd68d, 0xc704, 0xf59f, 0xe416, 0x90a9, 0x8120, 0xb3bb, 0xa232,
     0x5ac5, 0x4b4c, 0x79d7, 0x685e, 0x1ce1, 0x0d68, 0x3ff3, 0x2e7a,
     0xe70e, 0xf687, 0xc41c, 0xd595, 0xa12a, 0xb0a3, 0x8238, 0x93b1,
     0x6b46, 0x7acf, 0x4854, 0x59dd, 0x2d62, 0x3ceb, 0x0e70, 0x1ff9,
     0xf78f, 0xe606, 0xd49d, 0xc514, 0xb1ab, 0xa022, 0x92b9, 0x8330,
     0x7bc7, 0x6a4e, 0x58d5, 0x495c, 0x3de3, 0x2c6a, 0x1ef1, 0x0f78]"

definition pump_crc16 :: "u16 \<Rightarrow> u8 \<Rightarrow> u16" where
  "pump_crc16 aFcs aByte =
     drop_bit 8 aFcs XOR pump_sFcsTable ! unat ((aFcs XOR ucast aByte) AND 0xff)"

definition pump_needs_escape :: "u8 \<Rightarrow> bool" where
  "pump_needs_escape byte \<longleftrightarrow>
     byte = HDLC_BYTE_SPECIAL \<or> byte = HDLC_BYTE_ESC \<or> byte = HDLC_BYTE_FLAG \<or>
     byte = HDLC_BYTE_XOFF \<or> byte = HDLC_BYTE_XON"

text \<open>One pass of the receive loop: what \<^verbatim>\<open>mInboundFrame\<close> and \<^verbatim>\<open>mInboundFrameHDLCCRC\<close> hold, and the bytes
  still to read. \<open>PumpWait\<close>: the pump waits for the adapter. \<open>PumpError\<close>: \<^verbatim>\<open>goto on_error\<close>, which
  restarts the pump. \<open>PumpFrame\<close>: control reaches the code after the loop.\<close>

datatype pump_read = PumpWait bytes u16 bool | PumpError bytes | PumpEnd bytes u16 bytes

definition pump_store :: "bytes \<Rightarrow> u16 \<Rightarrow> u8 \<Rightarrow> (bytes \<times> u16) option" where
  "pump_store fr crc byte =
     (let crc1 = (if length fr \<ge> 2 then pump_crc16 crc (fr ! (length fr - 2)) else crc)
      in if length fr < SPINEL_FRAME_BUFFER_SIZE then Some (fr @ [byte], crc1) else None)"

fun pump_loop :: "bytes \<Rightarrow> u16 \<Rightarrow> bytes \<Rightarrow> pump_read" where
  "pump_loop fr crc [] = PumpWait fr crc False"
| "pump_loop fr crc (byte # rest) =
     (if byte = HDLC_BYTE_FLAG then PumpEnd fr crc rest
      else if byte = HDLC_BYTE_ESC then
        (case rest of
           [] \<Rightarrow> PumpWait fr crc True
         | byte2 # rest2 \<Rightarrow>
             if byte2 = HDLC_BYTE_FLAG then PumpEnd fr crc rest2
             else case pump_store fr crc (byte2 XOR HDLC_ESCAPE_XFORM) of
               Some (fr1, crc1) \<Rightarrow> pump_loop fr1 crc1 rest2
             | None \<Rightarrow> PumpError rest2)
      else case pump_store fr crc byte of
        Some (fr1, crc1) \<Rightarrow> pump_loop fr1 crc1 rest
      | None \<Rightarrow> PumpError rest)"

lemma pump_loop_rest:
  "pump_loop fr crc inp = PumpError rest \<Longrightarrow> length rest < length inp"
  "pump_loop fr crc inp = PumpEnd fr1 crc1 rest \<Longrightarrow> length rest < length inp"
  by (induction fr crc inp rule: pump_loop.induct)
    (auto split: if_splits list.splits option.splits intro!: less_SucI)

text \<open>The frames handed on to the rest of the pump from the bytes of the adapter, each after the size
  and check sequence tests; a mismatch is logged and the pump goes on.\<close>

function pump_frames :: "bytes \<Rightarrow> bytes list" where
  "pump_frames inp =
     (case pump_loop [] 0xffff inp of
        PumpWait _ _ _ \<Rightarrow> []
      | PumpError rest \<Rightarrow> pump_frames rest
      | PumpEnd fr crc rest \<Rightarrow>
          if length fr \<le> 2 then pump_frames rest
          else let n = length fr - 2;
                   frame_crc = (ucast (fr ! n) OR push_bit 8 (ucast (fr ! (n + 1))) :: u16)
               in if crc XOR 0xFFFF \<noteq> frame_crc then pump_frames rest
                  else take n fr # pump_frames rest)"
  by pat_completeness auto
termination
  by (relation "measure length") (auto dest!: pump_loop_rest)

declare pump_frames.simps [simp del]

text \<open>\<^verbatim>\<open>mOutboundBufferEscaped[mOutboundBufferEscapedLen++] = c\<close>.\<close>

definition pump_put :: "bytes \<Rightarrow> u8 \<Rightarrow> bytes option" where
  "pump_put acc c = (if length acc < SPINEL_FRAME_BUFFER_SIZE * 2 then Some (acc @ [c]) else None)"

definition pump_put_escaped :: "bytes \<Rightarrow> u8 \<Rightarrow> bytes option" where
  "pump_put_escaped acc byte =
     (if pump_needs_escape byte
      then do { acc \<leftarrow> pump_put acc HDLC_BYTE_ESC; pump_put acc (byte XOR HDLC_ESCAPE_XFORM) }
      else pump_put acc byte)"

fun pump_escape_loop :: "bytes \<Rightarrow> u16 \<Rightarrow> bytes \<Rightarrow> (bytes \<times> u16) option" where
  "pump_escape_loop acc crc [] = Some (acc, crc)"
| "pump_escape_loop acc crc (byte # bs) =
     do { acc \<leftarrow> pump_put_escaped acc byte; pump_escape_loop acc (pump_crc16 crc byte) bs }"

definition pump_encode :: "bytes \<Rightarrow> bytes option" where
  "pump_encode outbound =
     do { (acc, crc) \<leftarrow> pump_escape_loop [HDLC_BYTE_FLAG] 0xFFFF outbound;
          let crc = crc XOR 0xFFFF;
          acc \<leftarrow> pump_put_escaped acc (ucast (crc AND 0xFF));
          acc \<leftarrow> pump_put_escaped acc (ucast (drop_bit 8 crc AND 0xFF));
          pump_put acc HDLC_BYTE_FLAG }"

section \<open>One check sequence, one stuffing\<close>

lemma rust_consts:
  "FLAG_BYTE = HDLC_BYTE_FLAG" "ESCAPE_BYTE = HDLC_BYTE_ESC" "ESCAPE_XFORM = HDLC_ESCAPE_XFORM"
  "CRC_INIT = kHdlcCrcResetValue"
  by (simp_all add: FLAG_BYTE_def ESCAPE_BYTE_def ESCAPE_XFORM_def CRC_INIT_def hdlc_consts)

lemma crc_tables: "CRC_TABLE = sFcsTable" "pump_sFcsTable = sFcsTable"
  by (simp_all only: CRC_TABLE_def pump_sFcsTable_def sFcsTable_def)

lemma crc16_update_eq: "crc16_update = hdlc_crc16"
  by (intro ext) (simp add: crc16_update_def hdlc_crc16_def crc_tables)

lemma pump_crc16_eq: "pump_crc16 = hdlc_crc16"
  by (intro ext) (simp add: pump_crc16_def hdlc_crc16_def crc_tables)

lemma needs_escape_eq: "needs_escape = hdlc_byte_needs_escape"
  by (intro ext) (auto simp: needs_escape_def hdlc_byte_needs_escape_def FLAG_BYTE_def ESCAPE_BYTE_def XON_def
      XOFF_def SPECIAL_BYTE_def hdlc_consts)

lemma pump_needs_escape_eq: "pump_needs_escape = hdlc_byte_needs_escape"
  by (intro ext) (simp add: pump_needs_escape_def hdlc_byte_needs_escape_def)

lemma push_escaped_stuff: "push_escaped out b = out @ stuff b"
  by (simp add: push_escaped_def stuff_def needs_escape_eq rust_consts)

lemma to_le_bytes_fcs: "to_le_bytes 2 (f XOR 0xFFFF) = fcs_bytes f"
proof -
  have "(ucast (f XOR 0xFFFF) :: u8) = fcs_lo f"
    unfolding fcs_lo_def mask8 by (rule bit_word_eqI) (auto simp: bit_simps)
  moreover have "(ucast (drop_bit 8 (f XOR 0xFFFF)) :: u8) = fcs_hi f"
    unfolding fcs_hi_def mask8 by (rule bit_word_eqI) (auto simp: bit_simps)
  ultimately show ?thesis by (simp add: fcs_bytes_def numeral_2_eq_2 del: drop_bit_xor)
qed

lemma foldl_push_escaped: "foldl push_escaped out bs = out @ stuffs bs"
  by (induction bs arbitrary: out) (simp_all add: push_escaped_stuff)

lemma encode_fold:
  "foldl (\<lambda>(out, crc) byte. (push_escaped out byte, crc16_update crc byte)) (out, crc) data =
   (out @ stuffs data, crc_list crc data)"
  by (induction data arbitrary: out crc) (simp_all add: push_escaped_stuff crc16_update_eq)

lemma encode_bytes_frame:
  assumes "enc_crc enc = CRC_INIT"
  shows "encode_bytes data enc = (hdlc_frame data, enc)"
  using assms by (cases enc)
    (simp add: encode_bytes_def encode_fold foldl_push_escaped to_le_bytes_fcs hdlc_frame_def rust_consts Let_def)

section \<open>The Rust decoder\<close>

lemma feed_all_append:
  "feed_all d (xs @ ys) =
     (let (out1, d1) = feed_all d xs; (out2, d2) = feed_all d1 ys in (out1 @ out2, d2))"
  by (induction xs arbitrary: d) (auto simp: Let_def split: prod.splits option.splits)

lemma esc_not_flag [simp]: "HDLC_BYTE_ESC \<noteq> HDLC_BYTE_FLAG" "HDLC_BYTE_FLAG \<noteq> HDLC_BYTE_ESC"
  by (simp_all add: hdlc_consts)

lemma feed_stuff:
  assumes "dec_state d = Receiving"
  shows "feed_all d (stuff c) = ([], d\<lparr>dec_buffer := dec_buffer d @ [c]\<rparr>)"
proof (cases "hdlc_byte_needs_escape c")
  case True
  from not_needs_escape[OF needs_escape_xform[OF True]] show ?thesis
    using True assms by (cases d) (simp add: stuff_def feed_byte_def rust_consts xform_xform)
next
  case False
  with not_needs_escape[OF False] show ?thesis
    using assms by (cases d) (simp add: stuff_def feed_byte_def rust_consts)
qed

lemma feed_stuffs:
  "dec_state d = Receiving \<Longrightarrow> feed_all d (stuffs cs) = ([], d\<lparr>dec_buffer := dec_buffer d @ cs\<rparr>)"
  by (induction cs arbitrary: d) (simp_all add: feed_all_append feed_stuff)

lemma stuffs_no_flag: "HDLC_BYTE_FLAG \<notin> set (stuffs cs)"
proof (induction cs)
  case (Cons c cs)
  have "HDLC_BYTE_FLAG \<notin> set (stuff c)"
    using not_needs_escape[of c] not_needs_escape[OF needs_escape_xform, of c] by (auto simp: stuff_def)
  then show ?case using Cons by simp
qed simp

lemma feed_seeking:
  "dec_state d = SeekingFlag \<Longrightarrow> HDLC_BYTE_FLAG \<notin> set bs \<Longrightarrow> feed_all d bs = ([], d)"
  by (induction bs) (auto simp: feed_byte_def rust_consts)

text \<open>Between frames the decoder seeks a flag or has just seen one.\<close>

definition between :: "hdlc_decoder \<Rightarrow> bool" where
  "between d \<longleftrightarrow> dec_buffer d = [] \<and> dec_state d \<noteq> Escaped"

definition hdlc_body :: "bytes \<Rightarrow> bytes" where
  "hdlc_body data = stuffs (data @ fcs_bytes (crc_list kHdlcCrcResetValue data))"

lemma hdlc_frame_body: "hdlc_frame data = HDLC_BYTE_FLAG # hdlc_body data @ [HDLC_BYTE_FLAG]"
  by (simp add: hdlc_frame_def hdlc_body_def)

lemma feed_open: "between d \<Longrightarrow> feed_byte d HDLC_BYTE_FLAG = (None, \<lparr>dec_state = Receiving, dec_buffer = []\<rparr>)"
  by (cases d; cases "dec_state d") (auto simp: between_def feed_byte_def rust_consts)

lemma feed_body:
  "feed_all \<lparr>dec_state = Receiving, dec_buffer = []\<rparr> (hdlc_body data) =
     ([], \<lparr>dec_state = Receiving, dec_buffer = data @ fcs_bytes (crc_list kHdlcCrcResetValue data)\<rparr>)"
  by (simp add: hdlc_body_def feed_stuffs del: map_append concat_append)

lemma of_fcs_bytes: "of_le_bytes [fcs_lo f, fcs_hi f] = f XOR 0xFFFF"
proof -
  have "of_le_bytes [fcs_lo f, fcs_hi f] = (of_le_bytes (to_le_bytes 2 (f XOR 0xFFFF)) :: u16)"
    by (simp add: to_le_bytes_fcs fcs_bytes_def)
  then show ?thesis using to_le_bytes_inverse[of 2 "f XOR 0xFFFF"] by simp
qed

lemma feed_close:
  assumes "data \<noteq> []"
  shows "feed_byte \<lparr>dec_state = Receiving, dec_buffer = data @ fcs_bytes (crc_list kHdlcCrcResetValue data)\<rparr> HDLC_BYTE_FLAG =
    (Some (Inr data), decoder_new)"
  using assms
  by (simp add: feed_byte_def rust_consts fcs_bytes_def Let_def nth_append of_fcs_bytes[simplified] crc16_update_eq
      crc_list_def decoder_new_def Suc_diff_le)

lemma feed_frame:
  assumes "between d" and "data \<noteq> []"
  shows "feed_all d (hdlc_frame data) = ([Inr data], decoder_new)"
  by (simp add: hdlc_frame_body feed_open[OF assms(1)] feed_all_append feed_body feed_close[OF assms(2)])

lemma feed_frames:
  assumes "between d" and "\<forall>f\<in>set fs. f \<noteq> []"
  shows "fst (feed_all d (concat (map hdlc_frame fs))) = map Inr fs"
  using assms
proof (induction fs arbitrary: d)
  case (Cons f fs)
  have "between decoder_new" by (simp add: between_def decoder_new_def)
  with Cons show ?case by (simp add: feed_all_append feed_frame split_def Let_def)
qed simp

text \<open>Whatever was received, the decoder seeks a flag only with an empty buffer; one whole frame
  later it is between frames.\<close>

definition dec_ok :: "hdlc_decoder \<Rightarrow> bool" where
  "dec_ok d \<longleftrightarrow> (dec_state d = SeekingFlag \<longrightarrow> dec_buffer d = [])"

lemma feed_byte_ok: "dec_ok d \<Longrightarrow> dec_ok (snd (feed_byte d b))"
  by (auto simp: dec_ok_def feed_byte_def Let_def split: hdlc_state.splits)

lemma feed_all_ok: "dec_ok d \<Longrightarrow> dec_ok (snd (feed_all d bs))"
proof (induction bs arbitrary: d)
  case (Cons b bs)
  then show ?case using feed_byte_ok[of d b] by (simp add: split_def Let_def)
qed simp

lemma body_no_flag: "HDLC_BYTE_FLAG \<notin> set (hdlc_body data)"
  unfolding hdlc_body_def by (rule stuffs_no_flag)

lemma feed_flag_cases:
  assumes "dec_ok d"
  shows "snd (feed_byte d HDLC_BYTE_FLAG) = \<lparr>dec_state = Receiving, dec_buffer = []\<rparr> \<or>
    snd (feed_byte d HDLC_BYTE_FLAG) = decoder_new"
  using assms by (cases d) (auto simp: dec_ok_def feed_byte_def rust_consts decoder_new_def Let_def split: hdlc_state.splits)

lemma feed_frame_between:
  assumes "dec_ok d" and "data \<noteq> []"
  shows "between (snd (feed_all d (hdlc_frame data)))"
proof -
  have rest: "snd (feed_all d (hdlc_frame data)) =
      snd (feed_all (snd (feed_byte d HDLC_BYTE_FLAG)) (hdlc_body data @ [HDLC_BYTE_FLAG]))"
    by (simp add: hdlc_frame_body split_def Let_def)
  from feed_flag_cases[OF assms(1)] show ?thesis
  proof
    assume "snd (feed_byte d HDLC_BYTE_FLAG) = \<lparr>dec_state = Receiving, dec_buffer = []\<rparr>"
    then show ?thesis
      using rest by (simp add: feed_all_append feed_body feed_close[OF assms(2)] between_def decoder_new_def)
  next
    assume n: "snd (feed_byte d HDLC_BYTE_FLAG) = decoder_new"
    have "feed_all decoder_new (hdlc_body data) = ([], decoder_new)"
      by (rule feed_seeking) (simp_all add: decoder_new_def body_no_flag)
    then show ?thesis
      using rest n by (simp add: feed_all_append between_def feed_byte_def decoder_new_def rust_consts)
  qed
qed

section \<open>The C++ pumps\<close>

definition pump_crc_of :: "bytes \<Rightarrow> u16" where
  "pump_crc_of fr = crc_list kHdlcCrcResetValue (take (length fr - 2) fr)"

lemma pump_store_crc:
  "length fr < SPINEL_FRAME_BUFFER_SIZE \<Longrightarrow>
   pump_store fr (pump_crc_of fr) b = Some (fr @ [b], pump_crc_of (fr @ [b]))"
proof -
  assume l: "length fr < SPINEL_FRAME_BUFFER_SIZE"
  have "take (Suc (length fr - 2)) fr = take (length fr - 2) fr @ [fr ! (length fr - 2)]" if "2 \<le> length fr"
    using that by (intro take_Suc_conv_app_nth) simp
  moreover have "length fr - Suc 0 = Suc (length fr - 2)" if "2 \<le> length fr" using that by simp
  ultimately show ?thesis
    using l by (cases "2 \<le> length fr") (auto simp: pump_store_def Let_def pump_crc_of_def pump_crc16_eq)
qed

lemma pump_loop_stuff:
  assumes "length fr < SPINEL_FRAME_BUFFER_SIZE"
  shows "pump_loop fr (pump_crc_of fr) (stuff c @ rest) = pump_loop (fr @ [c]) (pump_crc_of (fr @ [c])) rest"
proof (cases "hdlc_byte_needs_escape c")
  case True
  from not_needs_escape[OF needs_escape_xform[OF True]] show ?thesis
    using True by (simp add: stuff_def pump_store_crc[OF assms] xform_xform)
next
  case False
  with not_needs_escape[OF False] show ?thesis by (simp add: stuff_def pump_store_crc[OF assms])
qed

lemma pump_loop_stuffs:
  "length fr + length cs \<le> SPINEL_FRAME_BUFFER_SIZE \<Longrightarrow>
   pump_loop fr (pump_crc_of fr) (stuffs cs @ rest) = pump_loop (fr @ cs) (pump_crc_of (fr @ cs)) rest"
proof (induction cs arbitrary: fr)
  case (Cons c cs)
  then show ?case using Cons.IH[of "fr @ [c]"] by (simp add: pump_loop_stuff)
qed simp

lemma pump_crc_of_nil: "pump_crc_of [] = 0xffff"
  by (simp add: pump_crc_of_def hdlc_consts)

lemma pump_loop_body:
  assumes "length data + 2 \<le> SPINEL_FRAME_BUFFER_SIZE"
  shows "pump_loop [] 0xffff (hdlc_body data @ HDLC_BYTE_FLAG # rest) =
      PumpEnd (data @ fcs_bytes (crc_list kHdlcCrcResetValue data)) (crc_list kHdlcCrcResetValue data) rest"
    and "pump_loop [] 0xffff (hdlc_body data @ HDLC_BYTE_ESC # HDLC_BYTE_FLAG # rest) =
      PumpEnd (data @ fcs_bytes (crc_list kHdlcCrcResetValue data)) (crc_list kHdlcCrcResetValue data) rest"
  using pump_loop_stuffs[of "[]" "data @ fcs_bytes (crc_list kHdlcCrcResetValue data)"] assms
  unfolding hdlc_body_def pump_crc_of_nil
  by (simp_all add: pump_crc_of_def fcs_bytes_def del: map_append concat_append)

lemma pump_frames_end:
  assumes "data \<noteq> []"
    and "pump_loop [] 0xffff inp = PumpEnd (data @ fcs_bytes (crc_list kHdlcCrcResetValue data))
      (crc_list kHdlcCrcResetValue data) rest"
  shows "pump_frames inp = data # pump_frames rest"
  using assms of_fcs_bytes[of "crc_list kHdlcCrcResetValue data"]
  by (subst pump_frames.simps) (simp add: fcs_bytes_def nth_append Let_def)

lemma pump_frames_flag: "pump_frames (HDLC_BYTE_FLAG # rest) = pump_frames rest"
  by (subst pump_frames.simps) simp

lemma pump_frames_frame:
  "data \<noteq> [] \<Longrightarrow> length data + 2 \<le> SPINEL_FRAME_BUFFER_SIZE \<Longrightarrow>
   pump_frames (hdlc_frame data @ rest) = data # pump_frames rest"
  by (simp add: hdlc_frame_body pump_frames_flag pump_frames_end[OF _ pump_loop_body(1)])

lemma pump_frames_nil [simp]: "pump_frames [] = []"
  by (subst pump_frames.simps) simp

lemma pump_put_escaped_stuff:
  "pump_put_escaped acc c =
     (if length (acc @ stuff c) \<le> SPINEL_FRAME_BUFFER_SIZE * 2 then Some (acc @ stuff c) else None)"
  by (simp add: pump_put_escaped_def pump_put_def stuff_def pump_needs_escape_eq split: if_splits)

lemma pump_escape_loop_stuffs:
  "pump_escape_loop acc f cs =
     (if cs = [] \<or> length (acc @ stuffs cs) \<le> SPINEL_FRAME_BUFFER_SIZE * 2
      then Some (acc @ stuffs cs, crc_list f cs) else None)"
  by (induction cs arbitrary: acc f) (auto simp: pump_put_escaped_stuff pump_crc16_eq)

lemma pump_encode_frame:
  "pump_encode data =
     (if length (hdlc_frame data) \<le> SPINEL_FRAME_BUFFER_SIZE * 2 then Some (hdlc_frame data) else None)"
proof -
  let ?f = "crc_list kHdlcCrcResetValue data"
  let ?a = "HDLC_BYTE_FLAG # stuffs data"
  have out: "hdlc_frame data = ((?a @ stuff (fcs_lo ?f)) @ stuff (fcs_hi ?f)) @ [HDLC_BYTE_FLAG]"
    by (simp add: hdlc_frame_def fcs_bytes_def)
  have "pump_encode data =
    do { (acc, f) \<leftarrow> pump_escape_loop [HDLC_BYTE_FLAG] kHdlcCrcResetValue data;
         acc \<leftarrow> pump_put_escaped acc (fcs_lo f);
         acc \<leftarrow> pump_put_escaped acc (fcs_hi f);
         pump_put acc HDLC_BYTE_FLAG }"
    by (simp add: pump_encode_def fcs_lo_def fcs_hi_def Let_def kHdlcCrcResetValue_def)
  then show ?thesis
    unfolding pump_escape_loop_stuffs pump_put_escaped_stuff pump_put_def out
    by (cases "data = []"; cases "length ?a \<le> SPINEL_FRAME_BUFFER_SIZE * 2";
        cases "length (?a @ stuff (fcs_lo ?f)) \<le> SPINEL_FRAME_BUFFER_SIZE * 2";
        cases "length ((?a @ stuff (fcs_lo ?f)) @ stuff (fcs_hi ?f)) < SPINEL_FRAME_BUFFER_SIZE * 2")
      (simp_all add: SPINEL_FRAME_BUFFER_SIZE_def SPINEL_FRAME_MAX_SIZE_def)
qed

section \<open>Properties\<close>

text \<open>C3: The three HDLC implementations of the repository speak the same frames. For a payload of 1 to
  1297 bytes the Rust encoder, the C++ pump and \<^verbatim>\<open>hdlc_encode\<close> of the gateway library write the same
  bytes, and the Rust decoder, the C++ receive loop and the gateway's receive loop each read that
  payload back from them, without a byte left.\<close>

theorem spinel_hdlc_interop:
  assumes "data \<noteq> []" and "length data \<le> 1297"
  shows "\<exists>wire. encode_bytes data encoder_new = (wire, encoder_new) \<and> pump_encode data = Some wire \<and>
    hdlc_encode (\<lambda>_. True) True data (of_nat (length data)) = Some (Some wire, of_nat (length wire)) \<and>
    feed_all decoder_new wire = ([Inr data], decoder_new) \<and> pump_frames wire = [data] \<and>
    hdlc_rx_loop rx_reset wire = (rx_reset\<lparr>frame := data\<rparr>, [])"
proof -
  have len: "length (hdlc_frame data) \<le> 2600" using length_hdlc_frame[of data] assms(2) by simp
  have u: "unat (of_nat (length data) :: u16) = length data" "(0 :: u16) < of_nat (length data)"
    using assms by (simp_all add: unat_of_nat_u16 of_nat_u16_pos)
  have "encode_bytes data encoder_new = (hdlc_frame data, encoder_new)"
    by (rule encode_bytes_frame) (simp add: encoder_new_def)
  moreover have "pump_encode data = Some (hdlc_frame data)"
    using len by (simp add: pump_encode_frame SPINEL_FRAME_BUFFER_SIZE_def SPINEL_FRAME_MAX_SIZE_def)
  moreover have "hdlc_encode (\<lambda>_. True) True data (of_nat (length data)) =
      Some (Some (hdlc_frame data), of_nat (length (hdlc_frame data)))"
    using hdlc_encode_frame[of "\<lambda>_. True" "of_nat (length data)" data True] len u
    by (simp add: MAX_FRAME_SIZE_def Let_def)
  moreover have "feed_all decoder_new (hdlc_frame data) = ([Inr data], decoder_new)"
    using assms(1) by (intro feed_frame) (simp_all add: between_def decoder_new_def)
  moreover have "pump_frames (hdlc_frame data) = [data]"
    using pump_frames_frame[of data "[]"] assms by (simp add: SPINEL_FRAME_BUFFER_SIZE_def SPINEL_FRAME_MAX_SIZE_def)
  moreover have "hdlc_rx_loop rx_reset (hdlc_frame data) = (rx_reset\<lparr>frame := data\<rparr>, [])"
    using hdlc_rx_loop_frame[of data rx_reset "[]"] assms by (simp add: MAX_FRAME_SIZE_def rx_reset_def)
  ultimately show ?thesis by blast
qed

theorem spinel_hdlc_interop_witness:
  "\<exists>wire. encode_bytes [0x80, 0x7E] encoder_new = (wire, encoder_new) \<and> pump_encode [0x80, 0x7E] = Some wire \<and>
    feed_all decoder_new wire = ([Inr [0x80, 0x7E]], decoder_new) \<and> pump_frames wire = [[0x80, 0x7E]]"
  using spinel_hdlc_interop[of "[0x80, 0x7E]"] by auto

text \<open>C29: The Rust decoder resynchronises. After any bytes whatsoever, at most one of the frames that
  follow is lost: whatever was fed before, of the frames \<open>f, f\<^sub>1, \<dots>, f\<^sub>n\<close> written by the encoder the
  last \<open>n\<close> come out, in order, at the end of the results.\<close>

theorem rust_hdlc_resync:
  assumes "f \<noteq> []" and "\<forall>g\<in>set fs. g \<noteq> []"
  shows "\<exists>out. fst (feed_all decoder_new
      (noise @ concat (map (\<lambda>g. fst (encode_bytes g encoder_new)) (f # fs)))) = out @ map Inr fs"
proof -
  let ?d = "snd (feed_all decoder_new noise)"
  have wire: "(\<lambda>g. fst (encode_bytes g encoder_new)) = hdlc_frame"
    by (simp add: encode_bytes_frame encoder_new_def)
  have "dec_ok ?d" by (rule feed_all_ok) (simp add: dec_ok_def decoder_new_def)
  then have "between (snd (feed_all ?d (hdlc_frame f)))" using assms(1) by (rule feed_frame_between)
  from feed_frames[OF this assms(2)] show ?thesis
    unfolding wire by (auto simp: feed_all_append split_def Let_def)
qed

theorem rust_hdlc_resync_witness:
  "\<exists>out. fst (feed_all decoder_new
      ([0x7E, 1, 2, 3] @ concat (map (\<lambda>g. fst (encode_bytes g encoder_new)) [[4], [5], [6]]))) = out @ [Inr [5], Inr [6]]"
  using rust_hdlc_resync[of "[4]" "[[5], [6]]" "[0x7E, 1, 2, 3]"] by simp

text \<open>C32: The Rust decoder is stricter than the pump it replaces. When one flag both ends a frame and
  begins the next, the C++ pump reads all three frames and the Rust decoder loses the middle one;
  and when an escape byte precedes the closing flag, the pump still delivers the frame (it ends the
  frame there), while the Rust decoder discards it.\<close>

theorem rust_pump_divergence:
  assumes "d1 \<noteq> []" and "d2 \<noteq> []" and "d3 \<noteq> []" and "length d1 \<le> 1298" and "length d2 \<le> 1298"
    and "length d3 \<le> 1298"
  shows "pump_frames (HDLC_BYTE_FLAG # hdlc_body d1 @ HDLC_BYTE_FLAG # hdlc_body d2 @ HDLC_BYTE_FLAG #
           hdlc_body d3 @ [HDLC_BYTE_FLAG]) = [d1, d2, d3] \<and>
    fst (feed_all decoder_new (HDLC_BYTE_FLAG # hdlc_body d1 @ HDLC_BYTE_FLAG # hdlc_body d2 @ HDLC_BYTE_FLAG #
           hdlc_body d3 @ [HDLC_BYTE_FLAG])) = [Inr d1, Inr d3] \<and>
    pump_frames (HDLC_BYTE_FLAG # hdlc_body d1 @ [HDLC_BYTE_ESC, HDLC_BYTE_FLAG]) = [d1] \<and>
    fst (feed_all decoder_new (HDLC_BYTE_FLAG # hdlc_body d1 @ [HDLC_BYTE_ESC, HDLC_BYTE_FLAG])) = []"
proof -
  note sz = SPINEL_FRAME_BUFFER_SIZE_def SPINEL_FRAME_MAX_SIZE_def
  have b: "between decoder_new" by (simp add: between_def decoder_new_def)
  have skip: "feed_all decoder_new (hdlc_body d2) = ([], decoder_new)"
    by (rule feed_seeking) (simp_all add: decoder_new_def body_no_flag)
  have "pump_frames (hdlc_body d @ HDLC_BYTE_FLAG # rest) = d # pump_frames rest"
      "pump_frames (hdlc_body d @ HDLC_BYTE_ESC # HDLC_BYTE_FLAG # rest) = d # pump_frames rest"
    if "d \<noteq> []" "length d \<le> 1298" for d rest
    using that pump_loop_body[of d rest] by (simp_all add: pump_frames_end sz)
  note p = this
  have "feed_all decoder_new (HDLC_BYTE_FLAG # hdlc_body d1 @ [HDLC_BYTE_ESC, HDLC_BYTE_FLAG]) =
      ([], \<lparr>dec_state = Receiving, dec_buffer = []\<rparr>)"
    by (simp add: feed_open[OF b] feed_all_append feed_body) (simp add: feed_byte_def rust_consts)
  moreover have "feed_all decoder_new (HDLC_BYTE_FLAG # hdlc_body d1 @ HDLC_BYTE_FLAG # hdlc_body d2 @ HDLC_BYTE_FLAG #
           hdlc_body d3 @ [HDLC_BYTE_FLAG]) = ([Inr d1, Inr d3], decoder_new)"
    by (simp add: feed_open[OF b] feed_all_append feed_body feed_close assms(1,3) skip)
  ultimately show ?thesis using p assms by (simp add: pump_frames_flag)
qed

theorem rust_pump_divergence_witness:
  "fst (feed_all decoder_new (HDLC_BYTE_FLAG # hdlc_body [1] @ HDLC_BYTE_FLAG # hdlc_body [2] @ HDLC_BYTE_FLAG #
     hdlc_body [3] @ [HDLC_BYTE_FLAG])) = [Inr [1], Inr [3]]"
  using rust_pump_divergence[of "[1]" "[2]" "[3]"] by simp


end
