(* ===== verification/Serial_Framing.thy ===== *)
theory Serial_Framing
  imports Spinel_Hdlc
begin

text \<open>
  The framed transport of the Rust daemon (\<^verbatim>\<open>crates/dcu-serial/src/framing.rs\<close>): it feeds what the
  transport delivers through the HDLC decoder and returns one Spinel frame per call. What the
  successive reads of the transport return is a list; its end is a call that still awaits data.
\<close>

section \<open>State and operations\<close>

datatype SerialError = SerialSpinel SpinelError | SerialFraming string | SerialIo

definition FRAMED_MAX_FRAME_SIZE :: nat where "FRAMED_MAX_FRAME_SIZE = 4096"

record framed_transport =
  ft_encoder :: hdlc_encoder
  ft_decoder :: hdlc_decoder
  ft_read_buf :: bytes

datatype transport_read = Chunk bytes | ReadFails

datatype recv_result =
  Received "SerialError + spinel_frame" framed_transport "transport_read list" | Awaits framed_transport

definition framed_new :: framed_transport where
  "framed_new = \<lparr>ft_encoder = encoder_new, ft_decoder = decoder_new, ft_read_buf = []\<rparr>"

text \<open>The bytes \<^verbatim>\<open>send_frame\<close> writes to the transport.\<close>

definition send_frame :: "spinel_frame \<Rightarrow> framed_transport \<Rightarrow> (bytes \<times> framed_transport) option" where
  "send_frame f t =
     do { (wire, enc) \<leftarrow> encode_frame f (ft_encoder t); Some (wire, t\<lparr>ft_encoder := enc\<rparr>) }"

text \<open>The loop over \<^verbatim>\<open>pending\<close>: feed until the decoder yields.\<close>

fun feed_pending :: "hdlc_decoder \<Rightarrow> bytes \<Rightarrow> (SpinelError + bytes) option \<times> hdlc_decoder" where
  "feed_pending d [] = (None, d)"
| "feed_pending d (b # bs) =
     (case feed_byte d b of (None, d1) \<Rightarrow> feed_pending d1 bs | (Some r, d1) \<Rightarrow> (Some r, d1))"

definition drain_buf :: "framed_transport \<Rightarrow> (SerialError + spinel_frame) option \<times> framed_transport" where
  "drain_buf t =
     (if ft_read_buf t = [] then (None, t)
      else let pending = ft_read_buf t; (res, d) = feed_pending (ft_decoder t) pending;
               t1 = t\<lparr>ft_decoder := d, ft_read_buf := []\<rparr>
           in case res of
                None \<Rightarrow> (None, t1)
              | Some (Inl e) \<Rightarrow> (Some (Inl (SerialSpinel e)), t1)
              | Some (Inr frame_data) \<Rightarrow>
                  (Some (map_sum SerialSpinel id (frame_decode frame_data)),
                   t1\<lparr>ft_read_buf := drop 1 pending\<rparr>))"

fun recv_frame :: "framed_transport \<Rightarrow> transport_read list \<Rightarrow> recv_result" where
  "recv_frame t reads =
     (case drain_buf t of
        (Some r, t1) \<Rightarrow> Received r t1 reads
      | (None, t1) \<Rightarrow>
          (case reads of
             [] \<Rightarrow> Awaits t1
           | ReadFails # rest \<Rightarrow> Received (Inl SerialIo) t1 rest
           | Chunk chunk # rest \<Rightarrow>
               if chunk = [] then Received (Inl (SerialFraming ''connection closed'')) t1 rest
               else if length (ft_read_buf t1) + length chunk > FRAMED_MAX_FRAME_SIZE
                 then recv_frame (t1\<lparr>ft_decoder := decoder_new, ft_read_buf := chunk\<rparr>) rest
               else recv_frame (t1\<lparr>ft_read_buf := ft_read_buf t1 @ chunk\<rparr>) rest))"

declare recv_frame.simps [simp del]

text \<open>A client that calls \<^verbatim>\<open>recv_frame\<close> up to \<open>n\<close> times.\<close>

fun recv_frames :: "nat \<Rightarrow> framed_transport \<Rightarrow> transport_read list \<Rightarrow> (SerialError + spinel_frame) list" where
  "recv_frames 0 t reads = []"
| "recv_frames (Suc n) t reads =
     (case recv_frame t reads of Received r t1 rest \<Rightarrow> r # recv_frames n t1 rest | Awaits t1 \<Rightarrow> [])"

section \<open>Reading a chunk\<close>

lemma feed_pending_append:
  "feed_pending d (xs @ ys) =
     (case feed_pending d xs of (None, d1) \<Rightarrow> feed_pending d1 ys | (Some r, d1) \<Rightarrow> (Some r, d1))"
  by (induction xs arbitrary: d) (auto split: prod.splits option.splits)

lemma feed_pending_silent: "feed_all d bs = ([], d1) \<Longrightarrow> feed_pending d bs = (None, d1)"
  by (induction bs arbitrary: d) (auto simp: Let_def split: prod.splits option.splits)

lemma recv_pending_buf: "drain_buf t = (None, t1) \<Longrightarrow> ft_read_buf t1 = []"
  by (auto simp: drain_buf_def Let_def split: if_splits prod.splits option.splits sum.splits)

text \<open>The guard on the size never fires for a chunk that fits the read array.\<close>

lemma recv_chunk:
  assumes "drain_buf t = (None, t1)" and "chunk \<noteq> []" and "length chunk \<le> 256"
  shows "recv_frame t (Chunk chunk # rest) = recv_frame (t1\<lparr>ft_read_buf := chunk\<rparr>) rest"
  using assms recv_pending_buf[OF assms(1)]
  by (subst recv_frame.simps) (simp add: FRAMED_MAX_FRAME_SIZE_def)

text \<open>A transport whose buffered bytes bring the decoder between two frames without a result.\<close>

definition framed_ready :: "framed_transport \<Rightarrow> bool" where
  "framed_ready t \<longleftrightarrow> (\<exists>d. feed_all (ft_decoder t) (ft_read_buf t) = ([], d) \<and> between d)"

lemma drain_silent:
  "feed_all (ft_decoder t) (ft_read_buf t) = ([], d) \<Longrightarrow>
   drain_buf t = (None, t\<lparr>ft_decoder := d, ft_read_buf := []\<rparr>)"
  by (cases t) (auto simp: drain_buf_def feed_pending_silent)

lemma feed_all_silent_append:
  assumes "feed_all d (xs @ ys) = ([], d2)"
  obtains d1 where "feed_all d xs = ([], d1)" "feed_all d1 ys = ([], d2)"
  using assms by (auto simp: feed_all_append Let_def split: prod.splits)

lemma feed_pending_last:
  "feed_all d r = ([], d1) \<Longrightarrow> feed_byte d1 b = (Some res, d2) \<Longrightarrow> feed_pending d (r @ [b]) = (Some res, d2)"
  by (simp add: feed_pending_append feed_pending_silent)

lemma recv_chunks:
  assumes "drain_buf t = (None, t1)" and "concat cs = r @ [b]" and "\<forall>c\<in>set cs. c \<noteq> [] \<and> length c \<le> 256"
    and "feed_all (ft_decoder t1) r = ([], d1)" and "feed_byte d1 b = (Some (Inr data), d2)"
  shows "recv_frame t (map Chunk cs @ rest) =
    Received (map_sum SerialSpinel id (frame_decode data)) (t1\<lparr>ft_decoder := d2, ft_read_buf := drop 1 (last cs)\<rparr>) rest"
  using assms
proof (induction cs arbitrary: t t1 r)
  case (Cons c cs)
  have c: "c \<noteq> []" "length c \<le> 256" using Cons.prems(3) by auto
  let ?t = "t1\<lparr>ft_read_buf := c\<rparr>"
  have step: "recv_frame t (map Chunk (c # cs) @ rest) = recv_frame ?t (map Chunk cs @ rest)"
    using recv_chunk[OF Cons.prems(1) c] by simp
  show ?case
  proof (cases "cs = []")
    case True
    then have "feed_pending (ft_decoder ?t) c = (Some (Inr data), d2)"
      using Cons.prems(2) feed_pending_last[OF Cons.prems(4,5)] by simp
    then have "drain_buf ?t = (Some (map_sum SerialSpinel id (frame_decode data)),
        t1\<lparr>ft_decoder := d2, ft_read_buf := drop 1 c\<rparr>)"
      using c by (cases t1) (simp add: drain_buf_def)
    then show ?thesis using step True by (simp add: recv_frame.simps[of ?t] id_def)
  next
    case False
    then have "concat cs \<noteq> []" using Cons.prems(3) by (cases cs) auto
    then obtain r' where r': "concat cs = r' @ [b]" "r = c @ r'"
      using Cons.prems(2) by (cases "concat cs" rule: rev_cases) auto
    obtain d where d: "feed_all (ft_decoder t1) c = ([], d)" "feed_all d r' = ([], d1)"
      using Cons.prems(4) unfolding r'(2) by (rule feed_all_silent_append)
    have dr: "drain_buf ?t = (None, ?t\<lparr>ft_decoder := d, ft_read_buf := []\<rparr>)"
      using d(1) by (intro drain_silent) simp
    have "recv_frame ?t (map Chunk cs @ rest) = Received (map_sum SerialSpinel id (frame_decode data))
        (?t\<lparr>ft_decoder := d, ft_read_buf := []\<rparr>\<lparr>ft_decoder := d2, ft_read_buf := drop 1 (last cs)\<rparr>) rest"
      using Cons.prems(3,5) d(2) r'(1) by (intro Cons.IH[OF dr]) auto
    then show ?thesis using step False by (cases t1) (simp add: id_def)
  qed
qed simp

section \<open>Frames on the wire\<close>

definition sendable :: "spinel_frame \<Rightarrow> bool" where
  "sendable f \<longleftrightarrow> frame_has_flag f \<and> command_id f \<le> SPINEL_MAX_UINT_PACKED"

definition frame_bytes :: "spinel_frame \<Rightarrow> bytes" where
  "frame_bytes f = header f # packed_bytes (command_id f) @ payload f"

lemma send_frame_wire:
  "sendable f \<Longrightarrow> ft_encoder t = encoder_new \<Longrightarrow> send_frame f t = Some (hdlc_frame (frame_bytes f), t)"
  by (cases t) (simp add: send_frame_def encode_frame_def frame_encode_bytes sendable_def frame_bytes_def
      encode_bytes_frame encoder_new_def)

lemma frame_decode_wire: "sendable f \<Longrightarrow> frame_decode (frame_bytes f) = Inr f"
  using frame_decode_bytes[of "header f" "command_id f" "payload f"]
  by (simp add: sendable_def frame_has_flag_def frame_bytes_def)

lemma frame_bytes_ne [simp]: "frame_bytes f \<noteq> []"
  by (simp add: frame_bytes_def)

lemma wire_silent:
  assumes "between d"
  shows "feed_all d (HDLC_BYTE_FLAG # hdlc_body data) =
    ([], \<lparr>dec_state = Receiving, dec_buffer = data @ fcs_bytes (crc_list kHdlcCrcResetValue data)\<rparr>)"
  by (simp add: feed_open[OF assms] feed_body)

lemma tail_ready:
  assumes "hdlc_frame data = pre @ c" and "c \<noteq> []"
  shows "\<exists>d. feed_all decoder_new (drop 1 c) = ([], d) \<and> between d"
proof -
  have "drop 1 c = drop (length pre) (hdlc_body data @ [HDLC_BYTE_FLAG])"
    using assms by (metis append_eq_conv_conj drop_drop hdlc_frame_body drop_Suc_Cons One_nat_def plus_1_eq_Suc)
  then consider "drop 1 c = []" | n where "drop 1 c = drop n (hdlc_body data) @ [HDLC_BYTE_FLAG]"
    by (cases "length pre \<le> length (hdlc_body data)") auto
  then show ?thesis
  proof cases
    case 1
    then show ?thesis by (simp add: between_def decoder_new_def)
  next
    case (2 n)
    have "feed_all decoder_new (drop n (hdlc_body data)) = ([], decoder_new)"
      using body_no_flag[of data] by (intro feed_seeking) (auto simp: decoder_new_def dest: in_set_dropD)
    then show ?thesis
      unfolding 2 by (simp add: feed_all_append) (simp add: feed_byte_def decoder_new_def rust_consts between_def)
  qed
qed

lemma recv_one:
  assumes "framed_ready t" and "sendable f" and "concat cs = hdlc_frame (frame_bytes f)"
    and "\<forall>c\<in>set cs. c \<noteq> [] \<and> length c \<le> 256"
  shows "\<exists>t2. recv_frame t (map Chunk cs @ rest) = Received (Inr f) t2 rest \<and> framed_ready t2 \<and>
    ft_decoder t2 = decoder_new \<and> ft_read_buf t2 = drop 1 (last cs)"
proof -
  obtain d where d: "feed_all (ft_decoder t) (ft_read_buf t) = ([], d)" "between d"
    using assms(1) by (auto simp: framed_ready_def)
  let ?t2 = "t\<lparr>ft_decoder := d, ft_read_buf := []\<rparr>\<lparr>ft_decoder := decoder_new, ft_read_buf := drop 1 (last cs)\<rparr>"
  have "recv_frame t (map Chunk cs @ rest) =
      Received (map_sum SerialSpinel id (frame_decode (frame_bytes f))) ?t2 rest"
  proof (rule recv_chunks[OF drain_silent[OF d(1)] _ assms(4)])
    show "concat cs = (HDLC_BYTE_FLAG # hdlc_body (frame_bytes f)) @ [HDLC_BYTE_FLAG]"
      using assms(3) by (simp add: hdlc_frame_body)
    show "feed_all (ft_decoder (t\<lparr>ft_decoder := d, ft_read_buf := []\<rparr>)) (HDLC_BYTE_FLAG # hdlc_body (frame_bytes f)) =
      ([], \<lparr>dec_state = Receiving, dec_buffer = frame_bytes f @ fcs_bytes (crc_list kHdlcCrcResetValue (frame_bytes f))\<rparr>)"
      using wire_silent[OF d(2)] by simp
  qed (simp add: feed_close)
  note run = this
  have ne: "cs \<noteq> []" using assms(3) by (auto simp: hdlc_frame_body)
  have "hdlc_frame (frame_bytes f) = concat (butlast cs) @ last cs"
    using assms(3) ne by (metis append_butlast_last_id concat.simps(1) concat.simps(2) concat_append append_Nil2)
  moreover have "last cs \<noteq> []" using assms(4) last_in_set[OF ne] by auto
  ultimately have "\<exists>d. feed_all decoder_new (drop 1 (last cs)) = ([], d) \<and> between d" by (rule tail_ready)
  then have "framed_ready ?t2" by (simp add: framed_ready_def)
  then show ?thesis using run frame_decode_wire[OF assms(2)] by simp
qed

lemma recv_all:
  assumes "framed_ready t" and "list_all2 (\<lambda>f cs. sendable f \<and> concat cs = hdlc_frame (frame_bytes f) \<and>
      (\<forall>c\<in>set cs. c \<noteq> [] \<and> length c \<le> 256)) fs css"
  shows "recv_frames (length fs) t (map Chunk (concat css)) = map Inr fs"
  using assms(2,1)
proof (induction arbitrary: t rule: list_all2_induct)
  case (Cons f fs cs css)
  obtain t2 where "recv_frame t (map Chunk cs @ map Chunk (concat css)) = Received (Inr f) t2 (map Chunk (concat css))"
      "framed_ready t2"
    using recv_one[OF Cons.prems, of f cs "map Chunk (concat css)"] Cons.hyps by blast
  then show ?case using Cons.IH[of t2] by simp
qed simp

lemma feed_pending_frame:
  "between d \<Longrightarrow> data \<noteq> [] \<Longrightarrow> feed_pending d (hdlc_frame data @ rest) = (Some (Inr data), decoder_new)"
proof -
  assume d: "between d" "data \<noteq> []"
  have "feed_pending d (hdlc_frame data) = (Some (Inr data), decoder_new)"
    using feed_pending_last[OF wire_silent[OF d(1)] feed_close[OF d(2)]] by (simp add: hdlc_frame_body)
  then show ?thesis by (simp add: feed_pending_append)
qed

lemma feed_pending_skip:
  assumes "HDLC_BYTE_FLAG \<notin> set bs" and "data \<noteq> []"
  shows "feed_pending decoder_new (bs @ HDLC_BYTE_FLAG # hdlc_frame data) = (Some (Inr data), decoder_new)"
proof -
  have "feed_pending decoder_new bs = (None, decoder_new)"
    using assms(1) by (intro feed_pending_silent feed_seeking) (simp_all add: decoder_new_def)
  moreover have "feed_byte decoder_new HDLC_BYTE_FLAG = (None, \<lparr>dec_state = Receiving, dec_buffer = []\<rparr>)"
    by (rule feed_open) (simp add: between_def decoder_new_def)
  moreover have "between \<lparr>dec_state = Receiving, dec_buffer = []\<rparr>" by (simp add: between_def)
  ultimately show ?thesis
    using feed_pending_frame[of _ data "[]"] assms(2) by (simp add: feed_pending_append)
qed

lemma recv_buffered:
  assumes "ft_read_buf t \<noteq> []" and "feed_pending (ft_decoder t) (ft_read_buf t) = (Some (Inr (frame_bytes f)), d)"
    and "sendable f"
  shows "recv_frame t reads = Received (Inr f) (t\<lparr>ft_decoder := d, ft_read_buf := drop 1 (ft_read_buf t)\<rparr>) reads"
  using assms by (subst recv_frame.simps) (simp add: drain_buf_def frame_decode_wire)

section \<open>Properties\<close>

text \<open>C10: When the transport never delivers parts of two frames in one read, \<^verbatim>\<open>recv_frame\<close> returns exactly the
  frames that were sent, in order: whatever the frames (header flag set, command in range) and
  however each is cut into non-empty reads of at most 256 bytes.\<close>

theorem framed_transport_in_order:
  assumes "list_all2 (\<lambda>f cs. sendable f \<and> map_option fst (send_frame f framed_new) = Some (concat cs) \<and>
      (\<forall>c\<in>set cs. c \<noteq> [] \<and> length c \<le> 256)) fs css"
  shows "recv_frames (length fs) framed_new (map Chunk (concat css)) = map Inr fs"
proof (rule recv_all)
  show "framed_ready framed_new" by (simp add: framed_ready_def framed_new_def between_def decoder_new_def)
  show "list_all2 (\<lambda>f cs. sendable f \<and> concat cs = hdlc_frame (frame_bytes f) \<and>
      (\<forall>c\<in>set cs. c \<noteq> [] \<and> length c \<le> 256)) fs css"
    using assms by (rule list_all2_mono) (auto simp: send_frame_wire framed_new_def)
qed

theorem framed_transport_in_order_witness:
  "\<exists>wire. recv_frames 1 framed_new [Chunk (take 3 wire), Chunk (drop 3 wire)] = [Inr (frame_new 6 [1, 2])]"
proof -
  let ?f = "frame_new 6 [1, 2]"
  let ?w = "hdlc_frame (frame_bytes ?f)"
  have f: "sendable ?f" by (simp add: sendable_def frame_new_def frame_has_flag_def SPINEL_HEADER_FLAG_def SPINEL_MAX_UINT_PACKED_def)
  have b: "frame_bytes ?f = [0x80, 6, 1, 2]"
    by (simp add: frame_bytes_def frame_new_def packed_bytes_def SPINEL_HEADER_FLAG_def)
  have l: "length ?w \<le> 256" "3 < length ?w"
    using length_hdlc_frame[of "frame_bytes ?f"] by (simp_all add: b hdlc_frame_def stuff_def)
  have "recv_frames (length [?f]) framed_new (map Chunk (concat [[take 3 ?w, drop 3 ?w]])) = map Inr [?f]"
    using f l by (intro framed_transport_in_order) (auto simp: send_frame_wire framed_new_def)
  then show ?thesis by (intro exI[of _ ?w]) simp
qed

text \<open>C30: When one read delivers two whole frames, the second is delivered again: after a frame,
  \<^verbatim>\<open>recv_frame\<close> puts back all pending bytes but the first one instead of the bytes after the frame.
  The third call then returns the second frame once more, with no further read.\<close>

theorem framed_transport_repeats:
  assumes "sendable f" and "sendable g"
    and "map_option fst (send_frame f framed_new) = Some w1" and "map_option fst (send_frame g framed_new) = Some w2"
    and "length (w1 @ w2) \<le> 256"
  shows "recv_frames 3 framed_new [Chunk (w1 @ w2)] = [Inr f, Inr g, Inr g]"
proof -
  have w: "w1 = hdlc_frame (frame_bytes f)" "w2 = hdlc_frame (frame_bytes g)"
    using assms(1-4) by (simp_all add: send_frame_wire framed_new_def)
  let ?b = "hdlc_body (frame_bytes f)"
  have b: "HDLC_BYTE_FLAG \<notin> set ?b" by (rule body_no_flag)
  then have tb: "HDLC_BYTE_FLAG \<notin> set (tl ?b)" by (cases ?b) auto
  have bne: "?b \<noteq> []" by (simp add: hdlc_body_def frame_bytes_def stuff_def)
  have buf: "w1 @ w2 = HDLC_BYTE_FLAG # ?b @ HDLC_BYTE_FLAG # w2" by (simp add: w hdlc_frame_body)
  let ?t = "\<lambda>buf. \<lparr>ft_encoder = encoder_new, ft_decoder = decoder_new, ft_read_buf = buf\<rparr>"
  have "recv_frame framed_new [Chunk (w1 @ w2)] = recv_frame (?t (w1 @ w2)) []"
    using assms(5) buf by (subst recv_chunk[of _ framed_new]) (simp_all add: drain_buf_def framed_new_def)
  also have "\<dots> = Received (Inr f) (?t (?b @ HDLC_BYTE_FLAG # w2)) []"
    using recv_buffered[of "?t (w1 @ w2)" f decoder_new "[]"] assms(1) buf
      feed_pending_frame[of decoder_new "frame_bytes f" w2] by (simp add: between_def decoder_new_def w)
  finally have 1: "recv_frame framed_new [Chunk (w1 @ w2)] = Received (Inr f) (?t (?b @ HDLC_BYTE_FLAG # w2)) []" .
  have 2: "recv_frame (?t (bs @ HDLC_BYTE_FLAG # w2)) [] = Received (Inr g) (?t (drop 1 (bs @ HDLC_BYTE_FLAG # w2))) []"
    if "HDLC_BYTE_FLAG \<notin> set bs" for bs
    using recv_buffered[of "?t (bs @ HDLC_BYTE_FLAG # w2)" g decoder_new "[]"] assms(2)
      feed_pending_skip[OF that, of "frame_bytes g"] by (simp add: w)
  have "drop 1 (?b @ HDLC_BYTE_FLAG # w2) = tl ?b @ HDLC_BYTE_FLAG # w2" using bne by (cases ?b) auto
  then show ?thesis using 1 2[OF b] 2[OF tb] by (simp add: numeral_3_eq_3)
qed

theorem framed_transport_repeats_witness:
  "\<exists>wire. recv_frames 3 framed_new [Chunk wire] = [Inr (frame_new 6 [1]), Inr (frame_new 7 [2]), Inr (frame_new 7 [2])]"
proof -
  let ?f = "frame_new 6 [1]" and ?g = "frame_new 7 [2]"
  have f: "sendable ?f" "sendable ?g"
    by (simp_all add: sendable_def frame_new_def frame_has_flag_def SPINEL_HEADER_FLAG_def SPINEL_MAX_UINT_PACKED_def)
  have "frame_bytes ?f = [0x80, 6, 1]" "frame_bytes ?g = [0x80, 7, 2]"
    by (simp_all add: frame_bytes_def frame_new_def packed_bytes_def SPINEL_HEADER_FLAG_def)
  then have "length (hdlc_frame (frame_bytes ?f) @ hdlc_frame (frame_bytes ?g)) \<le> 256"
    using length_hdlc_frame[of "frame_bytes ?f"] length_hdlc_frame[of "frame_bytes ?g"] by simp
  from framed_transport_repeats[OF f _ _ this] show ?thesis
    using f by (auto simp: send_frame_wire framed_new_def)
qed

lemma recv_silent:
  assumes "drain_buf t = (None, t1)" and "\<forall>c\<in>set cs. c \<noteq> [] \<and> length c \<le> 256"
    and "feed_all (ft_decoder t1) (concat cs) = ([], d)"
  shows "recv_frame t (map Chunk cs) = Awaits (t1\<lparr>ft_decoder := d\<rparr>)"
  using assms
proof (induction cs arbitrary: t t1)
  case Nil
  then show ?case by (cases t1) (simp add: recv_frame.simps)
next
  case (Cons c cs)
  obtain d1 where d1: "feed_all (ft_decoder t1) c = ([], d1)" "feed_all d1 (concat cs) = ([], d)"
    using Cons.prems(3) by (auto elim: feed_all_silent_append)
  let ?t = "t1\<lparr>ft_read_buf := c\<rparr>"
  have "drain_buf ?t = (None, ?t\<lparr>ft_decoder := d1, ft_read_buf := []\<rparr>)" using d1(1) by (intro drain_silent) simp
  from Cons.IH[OF this] have "recv_frame ?t (map Chunk cs) = Awaits (?t\<lparr>ft_decoder := d1, ft_read_buf := []\<rparr>\<lparr>ft_decoder := d\<rparr>)"
    using d1(2) Cons.prems(2) by simp
  then show ?case
    using recv_chunk[OF Cons.prems(1), of c "map Chunk cs"] Cons.prems(2) recv_pending_buf[OF Cons.prems(1)]
    by (cases t1) simp
qed

lemma feed_zeros:
  "dec_state d = Receiving \<Longrightarrow> feed_all d (replicate n 0) = ([], d\<lparr>dec_buffer := dec_buffer d @ replicate n 0\<rparr>)"
  by (induction n arbitrary: d) (simp_all add: feed_byte_def FLAG_BYTE_def ESCAPE_BYTE_def)

text \<open>An error of the decoder drops the rest of the pending bytes with it.\<close>

lemma recv_error_drops:
  assumes "feed_pending decoder_new bad = (Some (Inl e), d)" and "length (bad @ rest) \<le> 256"
  shows "\<exists>t. recv_frame framed_new [Chunk (bad @ rest)] = Received (Inl (SerialSpinel e)) t [] \<and> ft_read_buf t = []"
proof -
  have "bad \<noteq> []" using assms(1) by auto
  then have "recv_frame framed_new [Chunk (bad @ rest)] = recv_frame (framed_new\<lparr>ft_read_buf := bad @ rest\<rparr>) []"
    using assms(2) by (subst recv_chunk[of _ framed_new]) (simp_all add: drain_buf_def framed_new_def)
  also have "\<dots> = Received (Inl (SerialSpinel e)) (framed_new\<lparr>ft_decoder := d\<rparr>) []"
    using assms(1) \<open>bad \<noteq> []\<close>
    by (subst recv_frame.simps) (simp add: drain_buf_def framed_new_def feed_pending_append)
  finally show ?thesis by (simp add: framed_new_def)
qed

text \<open>C31: The size limit of the framed transport is not enforced. The guard on \<^verbatim>\<open>MAX_FRAME_SIZE\<close> compares the
  read buffer, which is empty at that point; however long the data after a flag, the call keeps
  waiting and the decoder holds all of it.\<close>

theorem framed_transport_unbounded:
  assumes "concat cs = HDLC_BYTE_FLAG # replicate n 0" and "\<forall>c\<in>set cs. c \<noteq> [] \<and> length c \<le> 256"
  shows "\<exists>t. recv_frame framed_new (map Chunk cs) = Awaits t \<and> length (dec_buffer (ft_decoder t)) = n"
proof -
  have b: "between decoder_new" by (simp add: between_def decoder_new_def)
  have "feed_all decoder_new (concat cs) = ([], \<lparr>dec_state = Receiving, dec_buffer = replicate n 0\<rparr>)"
    by (simp add: assms(1) feed_open[OF b] feed_zeros)
  then show ?thesis
    using recv_silent[OF _ assms(2), of framed_new framed_new] by (simp add: drain_buf_def framed_new_def)
qed

theorem framed_transport_unbounded_witness:
  "\<exists>cs t. recv_frame framed_new (map Chunk cs) = Awaits t \<and> length (dec_buffer (ft_decoder t)) = 5000"
proof -
  have "concat ([HDLC_BYTE_FLAG] # replicate 5000 [0]) = HDLC_BYTE_FLAG # replicate 5000 0"
    by (induction "5000 :: nat") simp_all
  then have "\<exists>t. recv_frame framed_new (map Chunk ([HDLC_BYTE_FLAG] # replicate 5000 [0])) = Awaits t \<and>
      length (dec_buffer (ft_decoder t)) = 5000"
    by (intro framed_transport_unbounded) auto
  then show ?thesis by (intro exI[of _ "[HDLC_BYTE_FLAG] # replicate 5000 [0]"])
qed

end
