(* ===== verification/Packet_Matcher.thy ===== *)
theory Packet_Matcher
  imports Spinel_Pack "HOL-Library.Product_Lexorder" "HOL-Library.List_Lexorder"
begin

unbundle bit_operations_syntax

text \<open>
  The IPv6 packet matcher, in both daemons: \<^verbatim>\<open>crates/dcu-tun/src/packet_matcher.rs\<close> and the C++ classes
  it replaces, \<^verbatim>\<open>src/util/IPv6PacketMatcher.cpp\<close> and the mask of \<^verbatim>\<open>IPv6Helpers.cpp\<close>. A packet is its
  bytes and an address its 16 bytes. The Rust accessors test the length of the packet; the C++ ones
  read through a pointer, and a read outside the packet is \<open>None\<close>. A port read through a
  \<^verbatim>\<open>uint16_t\<close> pointer has the byte order of a little endian host. The sets of rules are modelled by
  the list in which they iterate.
\<close>

section \<open>The Rust matcher\<close>

datatype ProtocolType = ProtoAll | ProtoNone | HopByHop | Tcp | Udp | Icmpv6

datatype Icmpv6Subtype = SubAll | RouterSol | RouterAdv | NeighborSol | NeighborAdv | Redirect

definition protocol_from_raw :: "u8 \<Rightarrow> ProtocolType" where
  "protocol_from_raw val =
     (if val = 0 then HopByHop else if val = 6 then Tcp else if val = 17 then Udp
      else if val = 58 then Icmpv6 else if val = 0xFF then ProtoAll
      else if val = 0xFE then ProtoNone else ProtoAll)"

definition subtype_from_raw :: "u8 \<Rightarrow> Icmpv6Subtype" where
  "subtype_from_raw val =
     (if val = 133 then RouterSol else if val = 134 then RouterAdv else if val = 135 then NeighborSol
      else if val = 136 then NeighborAdv else if val = 137 then Redirect else SubAll)"

fun protocol_code :: "ProtocolType \<Rightarrow> nat" where
  "protocol_code ProtoAll = 0xFF" | "protocol_code ProtoNone = 0xFE" | "protocol_code HopByHop = 0"
| "protocol_code Tcp = 6" | "protocol_code Udp = 17" | "protocol_code Icmpv6 = 58"

fun subtype_code :: "Icmpv6Subtype \<Rightarrow> nat" where
  "subtype_code SubAll = 0xFF" | "subtype_code RouterSol = 133" | "subtype_code RouterAdv = 134"
| "subtype_code NeighborSol = 135" | "subtype_code NeighborAdv = 136" | "subtype_code Redirect = 137"

definition is_ipv6_packet :: "bytes \<Rightarrow> bool" where
  "is_ipv6_packet buf \<longleftrightarrow> length buf \<ge> 40 \<and> buf ! 0 AND 0xF0 = 0x60"

definition get_next_header :: "bytes \<Rightarrow> u8" where
  "get_next_header buf = (if length buf \<ge> 7 then buf ! 6 else 0)"

definition be16 :: "u8 \<Rightarrow> u8 \<Rightarrow> u16" where
  "be16 hi lo = push_bit 8 (ucast hi) OR ucast lo"

definition get_src_port :: "bytes \<Rightarrow> u16" where
  "get_src_port buf = (if length buf \<ge> 42 then be16 (buf ! 40) (buf ! 41) else 0)"

definition get_dst_port :: "bytes \<Rightarrow> u16" where
  "get_dst_port buf = (if length buf \<ge> 44 then be16 (buf ! 42) (buf ! 43) else 0)"

definition get_icmpv6_type :: "bytes \<Rightarrow> u8" where
  "get_icmpv6_type buf = (if length buf > 40 then buf ! 40 else 0)"

definition unspecified :: bytes where
  "unspecified = replicate 16 0"

definition get_src_addr :: "bytes \<Rightarrow> bytes" where
  "get_src_addr buf = (if length buf \<ge> 24 then take 16 (drop 8 buf) else unspecified)"

definition get_dst_addr :: "bytes \<Rightarrow> bytes" where
  "get_dst_addr buf = (if length buf \<ge> 40 then take 16 (drop 24 buf) else unspecified)"

definition is_multicast :: "bytes \<Rightarrow> bool" where
  "is_multicast addr \<longleftrightarrow> addr ! 0 = 0xFF"

definition apply_mask :: "bytes \<Rightarrow> u8 \<Rightarrow> bytes" where
  "apply_mask addr prefix_len =
     (if prefix_len = 0 then unspecified
      else let full_bytes = unat prefix_len div 8; remaining_bits = unat prefix_len mod 8
           in if remaining_bits > 0 \<and> full_bytes < 16 then
                take full_bytes addr @ [addr ! full_bytes AND push_bit (8 - remaining_bits) 0xFF] @
                  replicate (16 - (full_bytes + 1)) 0
              else take full_bytes addr @ replicate (16 - full_bytes) 0)"

record matcher_rule =
  protocol :: ProtocolType
  subtype :: Icmpv6Subtype
  local_port :: u16
  local_port_match :: bool
  local_address :: bytes
  local_match_mask :: u8
  remote_port :: u16
  remote_port_match :: bool
  remote_address :: bytes
  remote_match_mask :: u8

definition rule_default :: matcher_rule where
  "rule_default = \<lparr>protocol = ProtoAll, subtype = SubAll, local_port = 0, local_port_match = False,
     local_address = unspecified, local_match_mask = 0, remote_port = 0, remote_port_match = False,
     remote_address = unspecified, remote_match_mask = 0\<rparr>"

definition update_from_inbound_packet :: "bytes \<Rightarrow> matcher_rule" where
  "update_from_inbound_packet packet =
     (if \<not> is_ipv6_packet packet then rule_default
      else
        let proto = protocol_from_raw (get_next_header packet);
            r1 = rule_default\<lparr>protocol := proto, subtype := SubAll\<rparr>;
            r2 = (if proto = Tcp \<or> proto = Udp then
                    r1\<lparr>remote_port := get_src_port packet, remote_port_match := True,
                       local_port := get_dst_port packet, local_port_match := True\<rparr>
                  else
                    let r = r1\<lparr>remote_port := 0, remote_port_match := False,
                               local_port := 0, local_port_match := False\<rparr>
                    in if proto = Icmpv6 then r\<lparr>subtype := subtype_from_raw (get_icmpv6_type packet)\<rparr> else r);
            dst = get_dst_addr packet;
            r3 = (if \<not> is_multicast dst then r2\<lparr>local_address := dst, local_match_mask := 128\<rparr>
                  else r2\<lparr>local_match_mask := 0\<rparr>)
        in r3\<lparr>remote_address := get_src_addr packet, remote_match_mask := 128\<rparr>)"

definition update_from_outbound_packet :: "bytes \<Rightarrow> matcher_rule" where
  "update_from_outbound_packet packet =
     (if \<not> is_ipv6_packet packet then rule_default
      else
        let proto = protocol_from_raw (get_next_header packet);
            r1 = rule_default\<lparr>protocol := proto, subtype := SubAll\<rparr>;
            r2 = (if proto = Tcp \<or> proto = Udp then
                    r1\<lparr>remote_port := get_dst_port packet, remote_port_match := True,
                       local_port := get_src_port packet, local_port_match := True\<rparr>
                  else
                    let r = r1\<lparr>remote_port := 0, remote_port_match := False,
                               local_port := 0, local_port_match := False\<rparr>
                    in if proto = Icmpv6 then r\<lparr>subtype := subtype_from_raw (get_icmpv6_type packet)\<rparr> else r);
            r3 = r2\<lparr>local_address := get_src_addr packet, local_match_mask := 128\<rparr>
        in r3\<lparr>remote_address := get_dst_addr packet, remote_match_mask := 128\<rparr>)"

definition matches_protocol :: "matcher_rule \<Rightarrow> bytes \<Rightarrow> bool" where
  "matches_protocol r packet \<longleftrightarrow>
     (if protocol r = ProtoNone then False
      else if protocol r = ProtoAll then True
      else if protocol r \<noteq> protocol_from_raw (get_next_header packet) then False
      else if subtype r \<noteq> SubAll \<and> subtype r \<noteq> subtype_from_raw (get_icmpv6_type packet) then False
      else True)"

definition match_inbound :: "matcher_rule \<Rightarrow> bytes \<Rightarrow> bool" where
  "match_inbound r packet \<longleftrightarrow>
     (if \<not> is_ipv6_packet packet \<or> \<not> matches_protocol r packet then False
      else if local_port_match r \<and> local_port r \<noteq> get_dst_port packet then False
      else if remote_port_match r \<and> remote_port r \<noteq> get_src_port packet then False
      else if local_match_mask r > 0 \<and>
        apply_mask (get_dst_addr packet) (local_match_mask r) \<noteq> local_address r then False
      else if remote_match_mask r > 0 \<and>
        apply_mask (get_src_addr packet) (remote_match_mask r) \<noteq> remote_address r then False
      else True)"

definition match_outbound :: "matcher_rule \<Rightarrow> bytes \<Rightarrow> bool" where
  "match_outbound r packet \<longleftrightarrow>
     (if \<not> is_ipv6_packet packet \<or> \<not> matches_protocol r packet then False
      else if local_port_match r \<and> local_port r \<noteq> get_src_port packet then False
      else if remote_port_match r \<and> remote_port r \<noteq> get_dst_port packet then False
      else if local_match_mask r > 0 \<and>
        apply_mask (get_src_addr packet) (local_match_mask r) \<noteq> local_address r then False
      else if remote_match_mask r > 0 \<and>
        apply_mask (get_dst_addr packet) (remote_match_mask r) \<noteq> remote_address r then False
      else True)"

text \<open>\<^verbatim>\<open>Ord for PacketMatcherRule\<close>: lexicographic on its fields in the order of the code.\<close>

definition rule_key ::
  "matcher_rule \<Rightarrow> nat \<times> nat \<times> u16 \<times> bool \<times> u8 \<times> bytes \<times> u16 \<times> bool \<times> u8 \<times> bytes" where
  "rule_key r = (protocol_code (protocol r), subtype_code (subtype r), local_port r, local_port_match r,
     local_match_mask r, local_address r, remote_port r, remote_port_match r, remote_match_mask r,
     remote_address r)"

fun matcher_insert :: "matcher_rule \<Rightarrow> matcher_rule list \<Rightarrow> matcher_rule list" where
  "matcher_insert r [] = [r]"
| "matcher_insert r (q # qs) =
     (if rule_key r < rule_key q then r # q # qs
      else if rule_key r = rule_key q then q # qs
      else q # matcher_insert r qs)"

definition matcher_remove :: "matcher_rule \<Rightarrow> matcher_rule list \<Rightarrow> matcher_rule list" where
  "matcher_remove r rules = filter (\<lambda>q. rule_key q \<noteq> rule_key r) rules"

definition matcher_match_outbound :: "matcher_rule list \<Rightarrow> bytes \<Rightarrow> matcher_rule option" where
  "matcher_match_outbound rules packet = List.find (\<lambda>r. match_outbound r packet) rules"

definition matcher_match_inbound :: "matcher_rule list \<Rightarrow> bytes \<Rightarrow> matcher_rule option" where
  "matcher_match_inbound rules packet = List.find (\<lambda>r. match_inbound r packet) rules"

section \<open>The C++ matcher\<close>

definition TYPE_ALL :: u8 where "TYPE_ALL = 0xFF"
definition TYPE_NONE :: u8 where "TYPE_NONE = 0xFE"
definition TYPE_UDP :: u8 where "TYPE_UDP = 17"
definition TYPE_TCP :: u8 where "TYPE_TCP = 6"
definition TYPE_ICMP :: u8 where "TYPE_ICMP = 58"
definition SUBTYPE_ALL :: u8 where "SUBTYPE_ALL = 0xFF"

lemmas type_defs = TYPE_ALL_def TYPE_NONE_def TYPE_UDP_def TYPE_TCP_def TYPE_ICMP_def SUBTYPE_ALL_def

definition pk_byte :: "bytes \<Rightarrow> nat \<Rightarrow> u8 option" where
  "pk_byte x i = (if i < length x then Some (x ! i) else None)"

definition PACKET_IS_IPV6 :: "bytes \<Rightarrow> bool option" where
  "PACKET_IS_IPV6 x = map_option (\<lambda>b. b AND 0xF0 = 0x60) (pk_byte x 0)"

definition IPV6_GET_TYPE :: "bytes \<Rightarrow> u8 option" where
  "IPV6_GET_TYPE x = pk_byte x 6"

definition pk_port :: "bytes \<Rightarrow> nat \<Rightarrow> u16 option" where
  "pk_port x i = do { a \<leftarrow> pk_byte x i; b \<leftarrow> pk_byte x (i + 1); Some (of_le_bytes [a, b]) }"

definition IPV6_GET_SRC_PORT :: "bytes \<Rightarrow> u16 option" where
  "IPV6_GET_SRC_PORT x = pk_port x 40"

definition IPV6_GET_DEST_PORT :: "bytes \<Rightarrow> u16 option" where
  "IPV6_GET_DEST_PORT x = pk_port x 42"

definition IPV6_GET_SRC_ADDR :: "bytes \<Rightarrow> bytes option" where
  "IPV6_GET_SRC_ADDR f = mem_rd 8 16 f"

definition IPV6_GET_DEST_ADDR :: "bytes \<Rightarrow> bytes option" where
  "IPV6_GET_DEST_ADDR f = mem_rd 24 16 f"

definition IPV6_ICMP_GET_SUBTYPE :: "bytes \<Rightarrow> u8 option" where
  "IPV6_ICMP_GET_SUBTYPE x = pk_byte x 40"

definition in6_addr_apply_mask :: "bytes \<Rightarrow> u8 \<Rightarrow> bytes" where
  "in6_addr_apply_mask address mask0 =
     (let mask = (if mask0 > 128 then 128 else unat mask0);
          a = take ((mask + 7) div 8) address @ replicate (16 - (mask + 7) div 8) 0
      in if mask mod 8 \<noteq> 0 then a[mask div 8 := a ! (mask div 8) AND NOT (drop_bit (mask mod 8) 0xFF)] else a)"

record cpp_rule =
  cpp_type :: u8
  cpp_subtype :: u8
  cpp_local_port :: u16
  cpp_local_port_match :: bool
  cpp_local_address :: bytes
  cpp_local_match_mask :: u8
  cpp_remote_port :: u16
  cpp_remote_port_match :: bool
  cpp_remote_address :: bytes
  cpp_remote_match_mask :: u8

definition cpp_clear :: cpp_rule where
  "cpp_clear = \<lparr>cpp_type = TYPE_ALL, cpp_subtype = SUBTYPE_ALL, cpp_local_port = 0, cpp_local_port_match = False,
     cpp_local_address = replicate 16 0, cpp_local_match_mask = 0, cpp_remote_port = 0,
     cpp_remote_port_match = False, cpp_remote_address = replicate 16 0, cpp_remote_match_mask = 0\<rparr>"

text \<open>The type, subtype and ports a rule takes from a packet; \<open>sp\<close> and \<open>dp\<close> read the ports it uses as remote
  and local.\<close>

definition cpp_update_ports ::
  "(bytes \<Rightarrow> u16 option) \<Rightarrow> (bytes \<Rightarrow> u16 option) \<Rightarrow> bytes \<Rightarrow> cpp_rule option" where
  "cpp_update_ports remote_of local_of packet =
     do { type \<leftarrow> IPV6_GET_TYPE packet;
          let r = cpp_clear\<lparr>cpp_type := type, cpp_subtype := SUBTYPE_ALL\<rparr>;
          if type = TYPE_TCP \<or> type = TYPE_UDP then
            do { rp \<leftarrow> remote_of packet; lp \<leftarrow> local_of packet;
                 Some (r\<lparr>cpp_remote_port := rp, cpp_remote_port_match := True,
                         cpp_local_port := lp, cpp_local_port_match := True\<rparr>) }
          else if type = TYPE_ICMP then
            do { st \<leftarrow> IPV6_ICMP_GET_SUBTYPE packet; Some (r\<lparr>cpp_subtype := st\<rparr>) }
          else Some r }"

definition cpp_update_from_inbound_packet :: "bytes \<Rightarrow> cpp_rule option" where
  "cpp_update_from_inbound_packet packet =
     do { v6 \<leftarrow> PACKET_IS_IPV6 packet;
          if \<not> v6 then Some cpp_clear
          else
            do { r \<leftarrow> cpp_update_ports IPV6_GET_SRC_PORT IPV6_GET_DEST_PORT packet;
                 address \<leftarrow> IPV6_GET_DEST_ADDR packet;
                 let r = (if address ! 0 \<noteq> 0xFF then r\<lparr>cpp_local_address := address, cpp_local_match_mask := 128\<rparr>
                          else r\<lparr>cpp_local_match_mask := 0\<rparr>);
                 address \<leftarrow> IPV6_GET_SRC_ADDR packet;
                 Some (r\<lparr>cpp_remote_address := address, cpp_remote_match_mask := 128\<rparr>) } }"

definition cpp_update_from_outbound_packet :: "bytes \<Rightarrow> cpp_rule option" where
  "cpp_update_from_outbound_packet packet =
     do { v6 \<leftarrow> PACKET_IS_IPV6 packet;
          if \<not> v6 then Some cpp_clear
          else
            do { r \<leftarrow> cpp_update_ports IPV6_GET_DEST_PORT IPV6_GET_SRC_PORT packet;
                 address \<leftarrow> IPV6_GET_SRC_ADDR packet;
                 let r = r\<lparr>cpp_local_address := address, cpp_local_match_mask := 128\<rparr>;
                 address \<leftarrow> IPV6_GET_DEST_ADDR packet;
                 Some (r\<lparr>cpp_remote_address := address, cpp_remote_match_mask := 128\<rparr>) } }"

text \<open>The two matching functions differ in which of the packet's ports and addresses they call local and
  remote: \<open>lp\<close>, \<open>rp\<close>, \<open>la\<close>, \<open>ra\<close>.\<close>

definition cpp_match ::
  "(bytes \<Rightarrow> u16 option) \<Rightarrow> (bytes \<Rightarrow> u16 option) \<Rightarrow> (bytes \<Rightarrow> bytes option) \<Rightarrow> (bytes \<Rightarrow> bytes option) \<Rightarrow>
     cpp_rule \<Rightarrow> bytes \<Rightarrow> bool option" where
  "cpp_match lp rp la ra r packet =
     do { v6 \<leftarrow> PACKET_IS_IPV6 packet;
          if \<not> v6 then Some False
          else if cpp_type r = TYPE_NONE then Some False
          else
            do { type_ok \<leftarrow>
                   (if cpp_type r \<noteq> TYPE_ALL then
                      do { t \<leftarrow> IPV6_GET_TYPE packet;
                           if cpp_type r \<noteq> t then Some False
                           else if cpp_subtype r \<noteq> SUBTYPE_ALL then
                             do { st \<leftarrow> IPV6_ICMP_GET_SUBTYPE packet; Some (cpp_subtype r = st) }
                           else Some True }
                    else Some True);
                 if \<not> type_ok then Some False
                 else
                   do { lp_ok \<leftarrow> (if cpp_local_port_match r
                                   then map_option (\<lambda>port. port = cpp_local_port r) (lp packet) else Some True);
                        if \<not> lp_ok then Some False
                        else
                          do { rp_ok \<leftarrow> (if cpp_remote_port_match r
                                          then map_option (\<lambda>port. port = cpp_remote_port r) (rp packet) else Some True);
                               if \<not> rp_ok then Some False
                               else
                                 do { la_ok \<leftarrow> (if cpp_local_match_mask r \<noteq> 0
                                        then map_option (\<lambda>a. in6_addr_apply_mask a (cpp_local_match_mask r) =
                                               cpp_local_address r) (la packet) else Some True);
                                      if \<not> la_ok then Some False
                                      else if cpp_remote_match_mask r \<noteq> 0
                                        then map_option (\<lambda>a. in6_addr_apply_mask a (cpp_remote_match_mask r) =
                                               cpp_remote_address r) (ra packet)
                                      else Some True } } } } }"

definition cpp_match_inbound :: "cpp_rule \<Rightarrow> bytes \<Rightarrow> bool option" where
  "cpp_match_inbound = cpp_match IPV6_GET_DEST_PORT IPV6_GET_SRC_PORT IPV6_GET_DEST_ADDR IPV6_GET_SRC_ADDR"

definition cpp_match_outbound :: "cpp_rule \<Rightarrow> bytes \<Rightarrow> bool option" where
  "cpp_match_outbound = cpp_match IPV6_GET_SRC_PORT IPV6_GET_DEST_PORT IPV6_GET_SRC_ADDR IPV6_GET_DEST_ADDR"

section \<open>Prefix masks\<close>

lemma mask_byte:
  assumes "0 < k" and "k < 8"
  shows "push_bit (8 - k) 0xFF = NOT (drop_bit k (0xFF :: u8))"
proof (rule bit_word_eqI)
  have ff: "(0xFF :: u8) = mask 8" by (simp add: mask_eq_exp_minus_1)
  fix n
  assume "n < LENGTH(8)"
  then have n: "n < 8" by simp
  show "bit (push_bit (8 - k) (0xFF :: u8)) n = bit (NOT (drop_bit k (0xFF :: u8))) n"
    unfolding ff using n assms by (auto simp: bit_push_bit_iff bit_not_iff bit_drop_bit_eq bit_mask_iff possible_bit_def)
qed

lemma mask_bytes:
  fixes q :: nat
  shows "q mod 8 = 0 \<Longrightarrow> (q + 7) div 8 = q div 8" and "q mod 8 \<noteq> 0 \<Longrightarrow> (q + 7) div 8 = q div 8 + 1"
proof -
  let ?k = "q div 8" and ?r = "q mod 8"
  have "q + 7 = 8 * ?k + (?r + 7)" by simp
  then have e: "(q + 7) div 8 = ?k + (?r + 7) div 8" by (metis div_mult_self4 add.commute zero_neq_numeral)
  have "?r < 8" by simp
  then have "?r \<noteq> 0 \<Longrightarrow> (?r + 7) div 8 = 1" by (intro div_nat_eqI) simp_all
  with e show "q mod 8 = 0 \<Longrightarrow> (q + 7) div 8 = q div 8" and "q mod 8 \<noteq> 0 \<Longrightarrow> (q + 7) div 8 = q div 8 + 1"
    by simp_all
qed

lemma masks_agree:
  assumes "length addr = 16"
  shows "apply_mask addr m = in6_addr_apply_mask addr m"
proof -
  consider "m = 0" | "m \<ge> 128" | "m \<noteq> 0" "m < 128" by fastforce
  then show ?thesis
  proof cases
    case 1
    then show ?thesis by (simp add: apply_mask_def in6_addr_apply_mask_def unspecified_def)
  next
    case 2
    then have "128 \<le> unat m" by (simp add: word_le_nat_alt)
    moreover have "(if m > 128 then 128 else unat m) = 128"
      using 2 by (cases "m > 128") (auto simp: word_less_nat_alt word_le_nat_alt)
    ultimately show ?thesis using 2 assms by (auto simp: apply_mask_def in6_addr_apply_mask_def Let_def)
  next
    case 3
    let ?q = "unat m"
    have q: "0 < ?q" "?q < 128" using 3 by (simp_all add: unat_gt_0 word_less_nat_alt)
    have lt: "\<not> m > 128" using 3(2) by simp
    show ?thesis
    proof (cases "?q mod 8 = 0")
      case True
      then have "(?q + 7) div 8 = ?q div 8" by (rule mask_bytes(1))
      then show ?thesis using True 3(1) lt by (simp add: apply_mask_def in6_addr_apply_mask_def Let_def)
    next
      case False
      then have d: "(?q + 7) div 8 = ?q div 8 + 1" by (rule mask_bytes(2))
      have f: "?q div 8 < 16" using q by simp
      have "take (?q div 8 + 1) addr = take (?q div 8) addr @ [addr ! (?q div 8)]"
        using f assms by (simp add: take_Suc_conv_app_nth)
      then show ?thesis
        using False 3(1) lt f assms d mask_byte[of "?q mod 8"]
        by (simp add: apply_mask_def in6_addr_apply_mask_def Let_def nth_append list_update_append)
    qed
  qed
qed

lemma apply_mask_128 [simp]: "length addr = 16 \<Longrightarrow> apply_mask addr 128 = addr"
  by (simp add: apply_mask_def)

lemma length_get_addr: "is_ipv6_packet p \<Longrightarrow> length (get_src_addr p) = 16 \<and> length (get_dst_addr p) = 16"
  by (auto simp: is_ipv6_packet_def get_src_addr_def get_dst_addr_def)

section \<open>Rules learned from a packet\<close>

lemma protocol_known:
  "protocol_from_raw b = Tcp \<longleftrightarrow> b = 6" "protocol_from_raw b = Udp \<longleftrightarrow> b = 17"
  "protocol_from_raw b = Icmpv6 \<longleftrightarrow> b = 58" "protocol_from_raw b = HopByHop \<longleftrightarrow> b = 0"
  "protocol_from_raw b = ProtoNone \<longleftrightarrow> b = 0xFE"
  by (auto simp: protocol_from_raw_def)

text \<open>What a rule with both masks at 128 admits.\<close>

lemma match_inbound_128:
  assumes "local_match_mask r = 128" and "remote_match_mask r = 128"
  shows "match_inbound r q \<longleftrightarrow> is_ipv6_packet q \<and> matches_protocol r q \<and>
    (local_port_match r \<longrightarrow> local_port r = get_dst_port q) \<and>
    (remote_port_match r \<longrightarrow> remote_port r = get_src_port q) \<and>
    get_dst_addr q = local_address r \<and> get_src_addr q = remote_address r"
  using assms length_get_addr[of q] by (auto simp: match_inbound_def)

lemma match_outbound_128:
  assumes "local_match_mask r = 128" and "remote_match_mask r = 128"
  shows "match_outbound r q \<longleftrightarrow> is_ipv6_packet q \<and> matches_protocol r q \<and>
    (local_port_match r \<longrightarrow> local_port r = get_src_port q) \<and>
    (remote_port_match r \<longrightarrow> remote_port r = get_dst_port q) \<and>
    get_src_addr q = local_address r \<and> get_dst_addr q = remote_address r"
  using assms length_get_addr[of q] by (auto simp: match_outbound_def)

lemma outbound_rule:
  assumes "is_ipv6_packet p"
  defines "r \<equiv> update_from_outbound_packet p" and "proto \<equiv> protocol_from_raw (get_next_header p)"
  shows "protocol r = proto" "local_match_mask r = 128" "remote_match_mask r = 128"
    "local_address r = get_src_addr p" "remote_address r = get_dst_addr p"
    "local_port_match r \<longleftrightarrow> proto = Tcp \<or> proto = Udp" "remote_port_match r \<longleftrightarrow> proto = Tcp \<or> proto = Udp"
    "proto = Tcp \<or> proto = Udp \<Longrightarrow> local_port r = get_src_port p \<and> remote_port r = get_dst_port p"
    "subtype r = (if proto = Icmpv6 then subtype_from_raw (get_icmpv6_type p) else SubAll)"
  using assms(1) unfolding r_def proto_def
  by (auto simp: update_from_outbound_packet_def Let_def rule_default_def)

lemma inbound_rule:
  assumes "is_ipv6_packet p"
  defines "r \<equiv> update_from_inbound_packet p" and "proto \<equiv> protocol_from_raw (get_next_header p)"
  shows "protocol r = proto" "remote_match_mask r = 128" "remote_address r = get_src_addr p"
    "local_match_mask r = (if is_multicast (get_dst_addr p) then 0 else 128)"
    "\<not> is_multicast (get_dst_addr p) \<Longrightarrow> local_address r = get_dst_addr p"
    "local_port_match r \<longleftrightarrow> proto = Tcp \<or> proto = Udp" "remote_port_match r \<longleftrightarrow> proto = Tcp \<or> proto = Udp"
    "proto = Tcp \<or> proto = Udp \<Longrightarrow> local_port r = get_dst_port p \<and> remote_port r = get_src_port p"
    "subtype r = (if proto = Icmpv6 then subtype_from_raw (get_icmpv6_type p) else SubAll)"
  using assms(1) unfolding r_def proto_def
  by (auto simp: update_from_inbound_packet_def Let_def rule_default_def)

lemma learned_protocol:
  assumes "protocol r = protocol_from_raw (get_next_header p)" and "get_next_header p \<noteq> 0xFE"
    and "subtype r = (if protocol_from_raw (get_next_header p) = Icmpv6 then subtype_from_raw (get_icmpv6_type p) else SubAll)"
  shows "matches_protocol r p"
  using assms protocol_known(5)[of "get_next_header p"] by (auto simp: matches_protocol_def split: if_splits)

section \<open>The two matchers agree\<close>

definition same_port :: "u16 \<Rightarrow> u16 \<Rightarrow> bool" where
  "same_port rust cpp \<longleftrightarrow> (\<exists>hi lo. rust = be16 hi lo \<and> cpp = of_le_bytes [hi, lo])"

definition known_type :: "u8 \<Rightarrow> bool" where
  "known_type t \<longleftrightarrow> t \<in> {0, 6, 17, 58, 0xFE, 0xFF}"

definition known_subtype :: "u8 \<Rightarrow> bool" where
  "known_subtype t \<longleftrightarrow> t \<in> {133, 134, 135, 136, 137, 0xFF}"

text \<open>A Rust rule and a C++ rule with the same fields, of a type and subtype the Rust enums have.\<close>

definition same_rule :: "matcher_rule \<Rightarrow> cpp_rule \<Rightarrow> bool" where
  "same_rule r c \<longleftrightarrow>
     protocol r = protocol_from_raw (cpp_type c) \<and> known_type (cpp_type c) \<and>
     subtype r = subtype_from_raw (cpp_subtype c) \<and> known_subtype (cpp_subtype c) \<and>
     local_port_match r = cpp_local_port_match c \<and> remote_port_match r = cpp_remote_port_match c \<and>
     same_port (local_port r) (cpp_local_port c) \<and> same_port (remote_port r) (cpp_remote_port c) \<and>
     local_match_mask r = cpp_local_match_mask c \<and> remote_match_mask r = cpp_remote_match_mask c \<and>
     local_address r = cpp_local_address c \<and> remote_address r = cpp_remote_address c"

lemma bit_ucast_u8: "bit (ucast b :: u16) n \<longleftrightarrow> bit b n" for b :: u8
  by (auto simp: bit_simps dest: bit_imp_le_length)

lemma be16_inj: "be16 a b = be16 c d \<longleftrightarrow> a = c \<and> b = d"
proof
  assume e: "be16 a b = be16 c d"
  have "bit (be16 x y) n = bit y n" "bit (be16 x y) (n + 8) = bit x n" if "n < 8" for x y n
    using that by (auto simp: be16_def bit_simps dest: bit_imp_le_length)
  then have "\<forall>n<8. bit b n = bit d n" "\<forall>n<8. bit a n = bit c n" using e by metis+
  then show "a = c \<and> b = d" by (auto intro!: bit_word_eqI)
qed simp

lemma le16_inj: "(of_le_bytes [a, b] :: u16) = of_le_bytes [c, d] \<longleftrightarrow> a = c \<and> b = d"
proof -
  have "of_le_bytes [x, y] = be16 y x" for x y by (simp add: be16_def or.commute)
  then show ?thesis by (metis be16_inj)
qed

lemma same_port_eq: "same_port p c \<Longrightarrow> p = be16 a b \<longleftrightarrow> c = of_le_bytes [a, b]"
  unfolding same_port_def by (metis be16_inj le16_inj)

lemma cpp_reads:
  assumes "44 \<le> length q"
  shows "PACKET_IS_IPV6 q = Some (is_ipv6_packet q)" "IPV6_GET_TYPE q = Some (get_next_header q)"
    "IPV6_ICMP_GET_SUBTYPE q = Some (get_icmpv6_type q)"
    "IPV6_GET_SRC_ADDR q = Some (get_src_addr q)" "IPV6_GET_DEST_ADDR q = Some (get_dst_addr q)"
    "IPV6_GET_SRC_PORT q = Some (of_le_bytes [q ! 40, q ! 41])" "IPV6_GET_DEST_PORT q = Some (of_le_bytes [q ! 42, q ! 43])"
    "get_src_port q = be16 (q ! 40) (q ! 41)" "get_dst_port q = be16 (q ! 42) (q ! 43)"
  using assms
  by (auto simp: PACKET_IS_IPV6_def is_ipv6_packet_def IPV6_GET_TYPE_def get_next_header_def IPV6_ICMP_GET_SUBTYPE_def
      get_icmpv6_type_def IPV6_GET_SRC_ADDR_def get_src_addr_def IPV6_GET_DEST_ADDR_def get_dst_addr_def
      IPV6_GET_SRC_PORT_def IPV6_GET_DEST_PORT_def get_src_port_def get_dst_port_def pk_byte_def pk_port_def mem_rd_def)

lemma protocol_eq_known: "known_type t \<Longrightarrow> t \<noteq> 0xFF \<Longrightarrow> protocol_from_raw t = protocol_from_raw b \<longleftrightarrow> t = b"
  by (auto simp: known_type_def protocol_from_raw_def)

lemma protocol_all_known: "known_type t \<Longrightarrow> protocol_from_raw t = ProtoAll \<longleftrightarrow> t = 0xFF"
  by (auto simp: known_type_def protocol_from_raw_def)

lemma subtype_eq_known: "known_subtype t \<Longrightarrow> t \<noteq> 0xFF \<Longrightarrow> subtype_from_raw t = subtype_from_raw b \<longleftrightarrow> t = b"
  by (auto simp: known_subtype_def subtype_from_raw_def)

lemma subtype_all_known: "known_subtype t \<Longrightarrow> subtype_from_raw t = SubAll \<longleftrightarrow> t = 0xFF"
  by (auto simp: known_subtype_def subtype_from_raw_def)

definition cpp_type_ok :: "cpp_rule \<Rightarrow> bytes \<Rightarrow> bool" where
  "cpp_type_ok c q \<longleftrightarrow> cpp_type c \<noteq> TYPE_NONE \<and>
     (cpp_type c \<noteq> TYPE_ALL \<longrightarrow> cpp_type c = get_next_header q \<and>
        (cpp_subtype c \<noteq> SUBTYPE_ALL \<longrightarrow> cpp_subtype c = get_icmpv6_type q))"

lemma same_rule_type: "same_rule r c \<Longrightarrow> matches_protocol r q \<longleftrightarrow> cpp_type_ok c q"
  using protocol_eq_known[of "cpp_type c" "get_next_header q"] protocol_all_known[of "cpp_type c"]
    subtype_eq_known[of "cpp_subtype c" "get_icmpv6_type q"] subtype_all_known[of "cpp_subtype c"]
    protocol_known(5)[of "cpp_type c"]
  by (auto simp: same_rule_def matches_protocol_def cpp_type_ok_def type_defs)

lemma cpp_match_value:
  assumes q: "44 \<le> length q" and "lp q = Some lpv" and "rp q = Some rpv" and "la q = Some lav" and "ra q = Some rav"
  shows "cpp_match lp rp la ra c q = Some (is_ipv6_packet q \<and> cpp_type_ok c q \<and>
    (cpp_local_port_match c \<longrightarrow> lpv = cpp_local_port c) \<and> (cpp_remote_port_match c \<longrightarrow> rpv = cpp_remote_port c) \<and>
    (cpp_local_match_mask c \<noteq> 0 \<longrightarrow> in6_addr_apply_mask lav (cpp_local_match_mask c) = cpp_local_address c) \<and>
    (cpp_remote_match_mask c \<noteq> 0 \<longrightarrow> in6_addr_apply_mask rav (cpp_remote_match_mask c) = cpp_remote_address c))"
  using assms(2-) by (auto simp: cpp_match_def cpp_reads[OF q] cpp_type_ok_def)

lemma same_rule_match:
  assumes "same_rule r c" and q: "44 \<le> length q"
  shows "cpp_match_inbound c q = Some (match_inbound r q)" and "cpp_match_outbound c q = Some (match_outbound r q)"
proof -
  note s = assms(1)[unfolded same_rule_def]
  have ports: "local_port r = be16 a b \<longleftrightarrow> of_le_bytes [a, b] = cpp_local_port c"
      "remote_port r = be16 a b \<longleftrightarrow> of_le_bytes [a, b] = cpp_remote_port c" for a b
    using same_port_eq s by metis+
  have pos: "(m > 0) = (m \<noteq> 0)" for m :: u8 by (simp add: word_neq_0_conv)
  note masks = masks_agree[of "get_src_addr q"] masks_agree[of "get_dst_addr q"]
  show "cpp_match_inbound c q = Some (match_inbound r q)"
    unfolding cpp_match_inbound_def cpp_match_value[where lp = IPV6_GET_DEST_PORT and rp = IPV6_GET_SRC_PORT and la = IPV6_GET_DEST_ADDR and ra = IPV6_GET_SRC_ADDR,
        OF q cpp_reads(7)[OF q] cpp_reads(6)[OF q] cpp_reads(5)[OF q] cpp_reads(4)[OF q]] option.inject
    using s length_get_addr[of q] masks ports same_rule_type[OF assms(1), of q]
    by (auto simp: match_inbound_def cpp_reads(8,9)[OF q] pos)
  show "cpp_match_outbound c q = Some (match_outbound r q)"
    unfolding cpp_match_outbound_def option.inject
      cpp_match_value[where lp = IPV6_GET_SRC_PORT and rp = IPV6_GET_DEST_PORT and la = IPV6_GET_SRC_ADDR and ra = IPV6_GET_DEST_ADDR,
        OF q cpp_reads(6)[OF q] cpp_reads(7)[OF q] cpp_reads(4)[OF q] cpp_reads(5)[OF q]]
    using s length_get_addr[of q] masks ports same_rule_type[OF assms(1), of q]
    by (auto simp: match_outbound_def cpp_reads(8,9)[OF q] pos)
qed

text \<open>A packet whose protocol, and ICMPv6 type, the Rust enums name.\<close>

definition known_packet :: "bytes \<Rightarrow> bool" where
  "known_packet p \<longleftrightarrow> known_type (get_next_header p) \<and>
     (get_next_header p = 58 \<longrightarrow> known_subtype (get_icmpv6_type p))"

lemma same_port_0: "same_port 0 0"
  unfolding same_port_def by (intro exI[of _ 0]) (simp add: be16_def)

lemma same_port_be16: "same_port (be16 a b) (of_le_bytes [a, b])"
  unfolding same_port_def by blast

lemma known_all: "known_subtype SUBTYPE_ALL" "subtype_from_raw SUBTYPE_ALL = SubAll" "known_type TYPE_ALL"
  "protocol_from_raw TYPE_ALL = ProtoAll"
  by (simp_all add: known_subtype_def subtype_from_raw_def known_type_def protocol_from_raw_def type_defs)

lemma cpp_clear_same: "same_rule rule_default cpp_clear"
  by (simp add: same_rule_def rule_default_def cpp_clear_def known_all same_port_0 unspecified_def)

lemma cpp_ports:
  assumes p: "44 \<le> length p" and "known_packet p"
    and rl: "remote_of p = Some (of_le_bytes [a, b])" "local_of p = Some (of_le_bytes [c, d])"
  defines "proto \<equiv> protocol_from_raw (get_next_header p)"
  shows "\<exists>r. cpp_update_ports remote_of local_of p = Some r \<and> known_type (cpp_type r) \<and>
    proto = protocol_from_raw (cpp_type r) \<and> known_subtype (cpp_subtype r) \<and>
    (if proto = Icmpv6 then subtype_from_raw (get_icmpv6_type p) else SubAll) = subtype_from_raw (cpp_subtype r) \<and>
    (cpp_local_port_match r \<longleftrightarrow> proto = Tcp \<or> proto = Udp) \<and> (cpp_remote_port_match r \<longleftrightarrow> proto = Tcp \<or> proto = Udp) \<and>
    same_port (if proto = Tcp \<or> proto = Udp then be16 a b else 0) (cpp_remote_port r) \<and>
    same_port (if proto = Tcp \<or> proto = Udp then be16 c d else 0) (cpp_local_port r) \<and>
    cpp_local_address r = unspecified"
proof -
  have k: "known_type (get_next_header p)" "get_next_header p = 58 \<Longrightarrow> known_subtype (get_icmpv6_type p)"
    using assms(2) by (auto simp: known_packet_def)
  consider "get_next_header p = 6" | "get_next_header p = 17" | "get_next_header p = 58"
    | "get_next_header p \<noteq> 6" "get_next_header p \<noteq> 17" "get_next_header p \<noteq> 58" by blast
  then show ?thesis
    by cases (use k rl in \<open>simp_all add: cpp_update_ports_def cpp_reads[OF p] type_defs cpp_clear_def proto_def protocol_known
        known_all[unfolded type_defs] same_port_0 same_port_be16[simplified] unspecified_def\<close>)
qed

lemma outbound_rule_ports:
  "is_ipv6_packet p \<Longrightarrow> \<not> (protocol_from_raw (get_next_header p) = Tcp \<or> protocol_from_raw (get_next_header p) = Udp) \<Longrightarrow>
   local_port (update_from_outbound_packet p) = 0 \<and> remote_port (update_from_outbound_packet p) = 0"
  by (simp add: update_from_outbound_packet_def Let_def rule_default_def)

lemma inbound_rule_ports:
  "is_ipv6_packet p \<Longrightarrow> \<not> (protocol_from_raw (get_next_header p) = Tcp \<or> protocol_from_raw (get_next_header p) = Udp) \<Longrightarrow>
   local_port (update_from_inbound_packet p) = 0 \<and> remote_port (update_from_inbound_packet p) = 0"
  by (simp add: update_from_inbound_packet_def Let_def rule_default_def)

lemma inbound_rule_multicast:
  "is_ipv6_packet p \<Longrightarrow> is_multicast (get_dst_addr p) \<Longrightarrow> local_address (update_from_inbound_packet p) = unspecified"
  by (simp add: update_from_inbound_packet_def Let_def rule_default_def)

lemma cpp_learns:
  assumes p: "44 \<le> length p" and "known_packet p"
  shows "\<exists>c. cpp_update_from_outbound_packet p = Some c \<and> same_rule (update_from_outbound_packet p) c"
    and "\<exists>c. cpp_update_from_inbound_packet p = Some c \<and> same_rule (update_from_inbound_packet p) c"
proof -
  let ?tu = "protocol_from_raw (get_next_header p) = Tcp \<or> protocol_from_raw (get_next_header p) = Udp"
  show "\<exists>c. cpp_update_from_outbound_packet p = Some c \<and> same_rule (update_from_outbound_packet p) c"
  proof (cases "is_ipv6_packet p")
    case True
    note r = outbound_rule[OF True] outbound_rule_ports[OF True]
    obtain c where "cpp_update_ports IPV6_GET_DEST_PORT IPV6_GET_SRC_PORT p = Some c"
      "same_rule (update_from_outbound_packet p)
        (c\<lparr>cpp_local_address := get_src_addr p, cpp_local_match_mask := 128, cpp_remote_address := get_dst_addr p,
           cpp_remote_match_mask := 128\<rparr>)"
      using cpp_ports[where remote_of = IPV6_GET_DEST_PORT and local_of = IPV6_GET_SRC_PORT,
          OF assms cpp_reads(7)[OF p] cpp_reads(6)[OF p]] r
      by (cases ?tu) (auto simp: same_rule_def cpp_reads(8,9)[OF p] simp del: of_le_bytes.simps)
    then show ?thesis using True by (simp add: cpp_update_from_outbound_packet_def cpp_reads[OF p])
  qed (use cpp_clear_same in \<open>simp add: cpp_reads[OF p] cpp_update_from_outbound_packet_def update_from_outbound_packet_def\<close>)
  show "\<exists>c. cpp_update_from_inbound_packet p = Some c \<and> same_rule (update_from_inbound_packet p) c"
  proof (cases "is_ipv6_packet p")
    case True
    note r = inbound_rule[OF True] inbound_rule_ports[OF True] inbound_rule_multicast[OF True]
    let ?m = "\<lambda>c. if \<not> is_multicast (get_dst_addr p)
       then c\<lparr>cpp_local_address := get_dst_addr p, cpp_local_match_mask := 128\<rparr> else c\<lparr>cpp_local_match_mask := 0\<rparr>"
    obtain c where "cpp_update_ports IPV6_GET_SRC_PORT IPV6_GET_DEST_PORT p = Some c"
      "same_rule (update_from_inbound_packet p)
        ((?m c)\<lparr>cpp_remote_address := get_src_addr p, cpp_remote_match_mask := 128\<rparr>)"
      using cpp_ports[where remote_of = IPV6_GET_SRC_PORT and local_of = IPV6_GET_DEST_PORT,
          OF assms cpp_reads(6)[OF p] cpp_reads(7)[OF p]] r
      by (cases ?tu; cases "is_multicast (get_dst_addr p)")
        (auto simp: same_rule_def cpp_reads(8,9)[OF p] simp del: of_le_bytes.simps)
    then show ?thesis
      using True by (simp add: cpp_update_from_inbound_packet_def cpp_reads[OF p] is_multicast_def)
  qed (use cpp_clear_same in \<open>simp add: cpp_reads[OF p] cpp_update_from_inbound_packet_def update_from_inbound_packet_def\<close>)
qed

section \<open>The set of rules\<close>

definition matcher_ok :: "matcher_rule list \<Rightarrow> bool" where
  "matcher_ok rules \<longleftrightarrow> sorted_wrt (<) (map rule_key rules)"

lemma protocol_code_inj: "protocol_code a = protocol_code b \<Longrightarrow> a = b"
  by (cases a; cases b) simp_all

lemma subtype_code_inj: "subtype_code a = subtype_code b \<Longrightarrow> a = b"
  by (cases a; cases b) simp_all

lemma rule_key_inj: "rule_key r = rule_key q \<longleftrightarrow> r = q"
  by (cases r; cases q) (auto simp: rule_key_def dest: protocol_code_inj subtype_code_inj)

lemma set_matcher_insert: "set (matcher_insert r rules) = insert r (set rules)"
  by (induction rules) (auto simp: rule_key_inj)

lemma matcher_insert_ok: "matcher_ok rules \<Longrightarrow> matcher_ok (matcher_insert r rules)"
proof (induction rules)
  case (Cons q qs)
  have tl: "matcher_ok qs" "\<forall>x\<in>set qs. rule_key q < rule_key x" using Cons.prems by (auto simp: matcher_ok_def)
  show ?case
  proof (cases "rule_key r < rule_key q")
    case True
    then show ?thesis using Cons.prems by (auto simp: matcher_ok_def dest: less_trans)
  next
    case False
    then show ?thesis
      using Cons.IH[OF tl(1)] tl(2) Cons.prems set_matcher_insert[of r qs] by (auto simp: matcher_ok_def)
  qed
qed (simp add: matcher_ok_def)

lemma matcher_remove_ok: "matcher_ok rules \<Longrightarrow> matcher_ok (matcher_remove r rules)"
  by (induction rules) (auto simp: matcher_ok_def matcher_remove_def)

lemma find_iff:
  "List.find P xs = None \<longleftrightarrow> \<not> (\<exists>x\<in>set xs. P x)" "List.find P xs = Some x \<Longrightarrow> x \<in> set xs \<and> P x"
  by (auto simp: find_None_iff find_Some_iff)

section \<open>Properties\<close>

text \<open>C7: A rule learned from an outbound TCP or UDP packet admits exactly the answers to it: an inbound
  packet matches if and only if it is an IPv6 packet of the same protocol with addresses and ports
  exchanged. The same holds of a rule learned from an inbound packet to a unicast address and the
  outbound packets it admits.\<close>

theorem flow_rule_exact:
  assumes "is_ipv6_packet p" and "get_next_header p = 6 \<or> get_next_header p = 17"
  shows "(match_inbound (update_from_outbound_packet p) q \<longleftrightarrow>
      is_ipv6_packet q \<and> get_next_header q = get_next_header p \<and>
      get_dst_addr q = get_src_addr p \<and> get_src_addr q = get_dst_addr p \<and>
      get_dst_port q = get_src_port p \<and> get_src_port q = get_dst_port p) \<and>
    (\<not> is_multicast (get_dst_addr p) \<longrightarrow>
     (match_outbound (update_from_inbound_packet p) q \<longleftrightarrow>
      is_ipv6_packet q \<and> get_next_header q = get_next_header p \<and>
      get_dst_addr q = get_src_addr p \<and> get_src_addr q = get_dst_addr p \<and>
      get_dst_port q = get_src_port p \<and> get_src_port q = get_dst_port p))"
proof -
  let ?proto = "protocol_from_raw (get_next_header p)"
  have pr: "?proto = Tcp \<or> ?proto = Udp" "?proto \<noteq> ProtoAll" "?proto \<noteq> ProtoNone" "?proto \<noteq> Icmpv6"
    using assms(2) by (auto simp: protocol_from_raw_def)
  have eq: "?proto = protocol_from_raw (get_next_header q) \<longleftrightarrow> get_next_header q = get_next_header p"
    using assms(2) protocol_known(1,2)[of "get_next_header q"] by (auto simp: protocol_from_raw_def)
  note o = outbound_rule[OF assms(1)] and i = inbound_rule[OF assms(1)]
  have "match_inbound (update_from_outbound_packet p) q \<longleftrightarrow>
      is_ipv6_packet q \<and> get_next_header q = get_next_header p \<and>
      get_dst_addr q = get_src_addr p \<and> get_src_addr q = get_dst_addr p \<and>
      get_dst_port q = get_src_port p \<and> get_src_port q = get_dst_port p"
    using pr(1) by (simp add: match_inbound_128[OF o(2,3)] matches_protocol_def o(1,4-7) o(8)[OF pr(1)] o(9) pr(2-4) eq)
      (metis (no_types))
  moreover have "match_outbound (update_from_inbound_packet p) q \<longleftrightarrow>
      is_ipv6_packet q \<and> get_next_header q = get_next_header p \<and>
      get_dst_addr q = get_src_addr p \<and> get_src_addr q = get_dst_addr p \<and>
      get_dst_port q = get_src_port p \<and> get_src_port q = get_dst_port p" if "\<not> is_multicast (get_dst_addr p)"
  proof -
    have m: "local_match_mask (update_from_inbound_packet p) = 128" using i(4) that by simp
    show ?thesis
      using pr(1) by (simp add: match_outbound_128[OF m i(2)] matches_protocol_def i(1,3,6,7) i(5)[OF that] i(8)[OF pr(1)] i(9) pr(2-4) eq)
        (metis (no_types))
  qed
  ultimately show ?thesis by blast
qed

definition sample_packet :: "u8 \<Rightarrow> u8 \<Rightarrow> u8 \<Rightarrow> u8 \<Rightarrow> u8 \<Rightarrow> bytes" where
  "sample_packet nh src dst sport dport =
     [0x60, 0, 0, 0, 0, 20, nh, 64] @ replicate 15 0 @ [src] @ replicate 15 0 @ [dst] @
     [0, sport, 0, dport] @ replicate 16 0"

lemma sample_packet_fields:
  "length (sample_packet nh src dst sport dport) = 60" "is_ipv6_packet (sample_packet nh src dst sport dport)"
  "get_next_header (sample_packet nh src dst sport dport) = nh"
  "get_src_addr (sample_packet nh src dst sport dport) = replicate 15 0 @ [src]"
  "get_dst_addr (sample_packet nh src dst sport dport) = replicate 15 0 @ [dst]"
  "get_src_port (sample_packet nh src dst sport dport) = be16 0 sport"
  "get_dst_port (sample_packet nh src dst sport dport) = be16 0 dport"
  by (simp_all add: sample_packet_def is_ipv6_packet_def get_next_header_def get_src_addr_def get_dst_addr_def
      get_src_port_def get_dst_port_def numeral_eq_Suc)

theorem flow_rule_exact_witness:
  "match_inbound (update_from_outbound_packet (sample_packet 6 1 2 80 90)) (sample_packet 6 2 1 90 80) \<and>
   \<not> match_inbound (update_from_outbound_packet (sample_packet 6 1 2 80 90)) (sample_packet 6 2 1 91 80)"
  using flow_rule_exact[of "sample_packet 6 1 2 80 90" "sample_packet 6 2 1 90 80"]
    flow_rule_exact[of "sample_packet 6 1 2 80 90" "sample_packet 6 2 1 91 80"]
  by (simp add: sample_packet_fields be16_inj)

text \<open>C6: The Rust matcher decides as the C++ matcher it replaces, for every pair of packets of at least
  44 bytes, as long as the rule comes from a packet whose protocol (and ICMPv6 type) the Rust enums
  name: rules learned from the same inbound or outbound packet give the same answer for every
  inbound and outbound packet, and the C++ code reads no byte outside a packet.\<close>

theorem matchers_agree:
  assumes "44 \<le> length p" and "known_packet p" and "44 \<le> length q"
  shows "\<exists>c d. cpp_update_from_outbound_packet p = Some c \<and> cpp_update_from_inbound_packet p = Some d \<and>
    cpp_match_inbound c q = Some (match_inbound (update_from_outbound_packet p) q) \<and>
    cpp_match_outbound c q = Some (match_outbound (update_from_outbound_packet p) q) \<and>
    cpp_match_inbound d q = Some (match_inbound (update_from_inbound_packet p) q) \<and>
    cpp_match_outbound d q = Some (match_outbound (update_from_inbound_packet p) q)"
  using cpp_learns[OF assms(1,2)] same_rule_match[OF _ assms(3)] by blast

theorem matchers_agree_witness:
  "\<exists>c. cpp_update_from_outbound_packet (sample_packet 17 1 2 80 90) = Some c \<and>
     cpp_match_inbound c (sample_packet 17 2 1 90 80) =
       Some (match_inbound (update_from_outbound_packet (sample_packet 17 1 2 80 90)) (sample_packet 17 2 1 90 80))"
  using matchers_agree[of "sample_packet 17 1 2 80 90" "sample_packet 17 2 1 90 80"]
  by (auto simp: sample_packet_fields known_packet_def known_type_def)

text \<open>C39: For a protocol the Rust enum does not name the two matchers differ: the rule the Rust matcher
  learns from such a packet admits every protocol between the two hosts (TCP, for instance), where
  the rule of the C++ matcher admits only the protocol of the packet.\<close>

theorem unknown_protocol_widens:
  assumes "is_ipv6_packet p" and "44 \<le> length p" and "\<not> known_type (get_next_header p)"
    and "is_ipv6_packet q" and "44 \<le> length q" and "get_next_header q \<noteq> get_next_header p"
    and "get_dst_addr q = get_src_addr p" and "get_src_addr q = get_dst_addr p"
  shows "match_inbound (update_from_outbound_packet p) q \<and>
    (\<exists>c. cpp_update_from_outbound_packet p = Some c \<and> cpp_match_inbound c q = Some False)"
proof -
  have all: "protocol_from_raw (get_next_header p) = ProtoAll"
    using assms(3) by (auto simp: known_type_def protocol_from_raw_def)
  have "match_inbound (update_from_outbound_packet p) q"
    using outbound_rule[OF assms(1)] all assms(4,7,8) by (simp add: match_inbound_128 matches_protocol_def)
  moreover have "get_next_header p \<notin> {6, 17, 58, 0xFE, 0xFF}" using assms(3) by (auto simp: known_type_def)
  then have "\<exists>c. cpp_update_from_outbound_packet p = Some c \<and> cpp_match_inbound c q = Some False"
    using assms(1,4,6)
    by (auto simp: cpp_update_from_outbound_packet_def cpp_update_ports_def cpp_reads[OF assms(2)] type_defs
        cpp_match_inbound_def cpp_match_def cpp_reads[OF assms(5)])
  ultimately show ?thesis by blast
qed

theorem unknown_protocol_widens_witness:
  "match_inbound (update_from_outbound_packet (sample_packet 50 1 2 80 90)) (sample_packet 6 2 1 7 8)"
  using unknown_protocol_widens[of "sample_packet 50 1 2 80 90" "sample_packet 6 2 1 7 8"]
  by (simp add: sample_packet_fields known_type_def)



end
