(* ===== verification/Spec2Isabelle.thy ===== *)
theory Spec2Isabelle
  imports Npi_Hdlc Fifo Mt_Wire Ring_Buffer Spinel_Format Serial_Framing Packet_Matcher
begin

text \<open>Header.\<close>

end
